(* ===== verification/Prelude.thy ===== *)
theory Prelude
  imports Main "HOL-Library.Word" "HOL-Library.Multiset" "HOL-Library.List_Lexorder"
begin

text \<open>
  Shared vocabulary of the development: bytes and fingerprints, results of programs that may
  call \<open>exit\<close> or run into undefined behaviour, the little-endian memory image of unsigned
  integers (the C++ sources read and write them through \<open>*(uint64_t *)p\<close>), and list lemmas the
  component theories use.
\<close>

unbundle bit_operations_syntax

named_theorems fp_simps \<open>unfolding of the model's small operations\<close>

type_synonym byte = "8 word"
type_synonym bytes = "byte list"

text \<open>\<open>#define FP_SIZE 6\<close>, the same in every program of the toolkit.\<close>

abbreviation FP_SIZE :: nat where "FP_SIZE \<equiv> 6"

text \<open>A fingerprint: a \<open>char[FP_SIZE]\<close>.\<close>

definition is_fp :: "bytes \<Rightarrow> bool" where
  "is_fp f \<longleftrightarrow> length f = FP_SIZE"

section \<open>Results\<close>

text \<open>
  How a run of a program can fail: \<open>exit(n)\<close>, a failed \<open>assert\<close>, undefined behaviour (a read
  outside an object, \<open>top()\<close> of an empty queue, a null pointer), or fuel that ran out in a loop
  for which no bound is known in advance.
\<close>

datatype fault = Exit int | Assert_failed | Undefined | Out_of_fuel

datatype 'a res = Err fault | Ok 'a

fun res_bind :: "'a res \<Rightarrow> ('a \<Rightarrow> 'b res) \<Rightarrow> 'b res" where
  "res_bind (Err e) f = Err e"
| "res_bind (Ok x) f = f x"

lemma res_bind_Ok_iff [simp]: "res_bind m f = Ok y \<longleftrightarrow> (\<exists>x. m = Ok x \<and> f x = Ok y)"
  by (cases m) auto

lemma res_bind_assoc: "res_bind (res_bind m f) g = res_bind m (\<lambda>x. res_bind (f x) g)"
  by (cases m) auto

lemma res_bind_cong [fundef_cong]:
  "m = m' \<Longrightarrow> (\<And>x. m' = Ok x \<Longrightarrow> f x = g x) \<Longrightarrow> res_bind m f = res_bind m' g"
  by (cases m') auto

text \<open>A loop over a list whose body may fail.\<close>

fun res_fold :: "('a \<Rightarrow> 's \<Rightarrow> 's res) \<Rightarrow> 'a list \<Rightarrow> 's \<Rightarrow> 's res" where
  "res_fold f [] s = Ok s"
| "res_fold f (x # xs) s = res_bind (f x s) (res_fold f xs)"

lemma res_fold_append: "res_fold f (xs @ ys) s = res_bind (res_fold f xs s) (res_fold f ys)"
  by (induction xs arbitrary: s) (auto simp: res_bind_assoc intro!: res_bind_cong)

text \<open>An invariant of the body is an invariant of the loop.\<close>

lemma res_fold_invariant:
  assumes "\<And>x s s'. x \<in> set xs \<Longrightarrow> I s \<Longrightarrow> f x s = Ok s' \<Longrightarrow> I s'"
    and "I s" and "res_fold f xs s = Ok s'"
  shows "I s'"
  using assms by (induction xs arbitrary: s) auto

text \<open>A body that never fails while its invariant holds makes the loop succeed.\<close>

lemma res_fold_total:
  assumes "\<And>x s. x \<in> set xs \<Longrightarrow> I s \<Longrightarrow> \<exists>s'. f x s = Ok s' \<and> I s'"
    and "I s"
  shows "\<exists>s'. res_fold f xs s = Ok s' \<and> I s'"
  using assms
proof (induction xs arbitrary: s)
  case (Cons x xs)
  obtain s1 where s1: "f x s = Ok s1" "I s1"
    using Cons.prems by (meson list.set_intros(1))
  obtain s2 where "res_fold f xs s1 = Ok s2" "I s2"
    using Cons.IH [OF _ s1(2)] Cons.prems(1) by (meson list.set_intros(2))
  with s1 show ?case by simp
qed simp

section \<open>Little-endian images of unsigned integers\<close>

text \<open>
  \<open>le_bytes n w\<close> are the \<open>n\<close> bytes a little-endian machine stores for \<open>w\<close> (what
  \<open>assign((char *)&count, sizeof(uint64_t))\<close> copies), \<open>le_word\<close> reads them back
  (\<open>*(uint64_t *)p\<close>).
\<close>

fun le_bytes :: "nat \<Rightarrow> 'a::len word \<Rightarrow> bytes" where
  "le_bytes 0 w = []"
| "le_bytes (Suc n) w = ucast w # le_bytes n (drop_bit 8 w)"

fun le_word :: "bytes \<Rightarrow> 'a::len word" where
  "le_word [] = 0"
| "le_word (b # bs) = ucast b OR push_bit 8 (le_word bs)"

lemma length_le_bytes [simp]: "length (le_bytes n w) = n"
  by (induction n arbitrary: w) auto

lemma bit_le_word:
  "bit (le_word bs :: 'a::len word) i \<longleftrightarrow>
     i < LENGTH('a) \<and> i div 8 < length bs \<and> bit (bs ! (i div 8)) (i mod 8)"
proof (induction bs arbitrary: i)
  case (Cons b bs)
  show ?case
  proof (cases "i < 8")
    case True
    then show ?thesis by (auto simp: bit_simps not_le)
  next
    case False
    then have "i div 8 = Suc ((i - 8) div 8)" and "i mod 8 = (i - 8) mod 8"
      by (simp_all add: div_if mod_if)
    moreover have "\<not> bit b i"
      using False bit_imp_le_length [of b i] by auto
    ultimately show ?thesis
      using False by (auto simp: bit_simps Cons.IH)
  qed
qed simp

lemma bit_le_bytes:
  "i < n \<Longrightarrow> bit (le_bytes n w ! i) j \<longleftrightarrow> j < 8 \<and> bit w (8 * i + j)"
proof (induction n arbitrary: i w)
  case (Suc n)
  show ?case
  proof (cases i)
    case 0
    then show ?thesis
      by (auto simp: bit_simps dest: bit_imp_le_length)
  next
    case (Suc k)
    then show ?thesis
      using Suc.IH [of k "drop_bit 8 w"] Suc.prems by (simp add: bit_drop_bit_eq algebra_simps)
  qed
qed simp

lemma le_word_le_bytes:
  fixes w :: "'a::len word"
  assumes "LENGTH('a) \<le> 8 * n"
  shows "le_word (le_bytes n w) = w"
proof (rule bit_word_eqI)
  fix i assume i: "i < LENGTH('a)"
  then have "i div 8 < n" using assms by (simp add: div_less_iff_less_mult algebra_simps)
  then show "bit (le_word (le_bytes n w) :: 'a word) i = bit w i"
    using i by (simp add: bit_le_word bit_le_bytes)
qed

lemma le_word_le_bytes64 [simp]: "le_word (le_bytes 8 (w :: 64 word)) = w"
  by (rule le_word_le_bytes) simp

lemma le_word_le_bytes32 [simp]: "le_word (le_bytes 4 (w :: 32 word)) = w"
  by (rule le_word_le_bytes) simp

lemma le_bytes_le_word:
  assumes "8 * length bs \<le> LENGTH('a::len)"
  shows "le_bytes (length bs) (le_word bs :: 'a word) = bs"
proof (rule nth_equalityI)
  fix i assume "i < length (le_bytes (length bs) (le_word bs :: 'a word))"
  then have i: "i < length bs" by simp
  show "le_bytes (length bs) (le_word bs :: 'a word) ! i = bs ! i"
  proof (rule bit_word_eqI)
    fix j assume "j < LENGTH(8)"
    then have j: "j < 8" by simp
    then have "(8 * i + j) div 8 = i" "(8 * i + j) mod 8 = j" "8 * i + j < LENGTH('a)"
      using i assms by auto
    then show "bit (le_bytes (length bs) (le_word bs :: 'a word) ! i) j = bit (bs ! i) j"
      using i j by (simp add: bit_le_bytes bit_le_word)
  qed
qed simp

text \<open>\<open>sizeof(uint64_t)\<close> bytes of a counter.\<close>

abbreviation u64_bytes :: "64 word \<Rightarrow> bytes" where "u64_bytes \<equiv> le_bytes 8"
abbreviation u64_read :: "bytes \<Rightarrow> 64 word" where "u64_read bs \<equiv> le_word (take 8 bs)"

lemma u64_bytes_read: "length v = 8 \<Longrightarrow> u64_bytes (u64_read v) = v"
  using le_bytes_le_word [of v, where 'a = 64] by simp

section \<open>Lists\<close>

lemma takeWhile_all: "(\<And>x. x \<in> set xs \<Longrightarrow> P x) \<Longrightarrow> takeWhile P xs = xs"
  by (simp add: takeWhile_eq_all_conv)

lemma take_append_len [simp]: "n = length xs \<Longrightarrow> take n (xs @ ys) = xs"
  by simp

lemma drop_append_len [simp]: "n = length xs \<Longrightarrow> drop n (xs @ ys) = ys"
  by simp

lemma mset_update_swap:
  "i < length xs \<Longrightarrow> j < length xs \<Longrightarrow> mset (xs[i := xs ! j, j := x]) = mset (xs[i := x])"
proof (cases "i = j")
  case False
  assume i: "i < length xs" and j: "j < length xs"
  have "mset (xs[i := xs ! j, j := x]) = mset (xs[i := xs ! j]) - {#xs ! j#} + {#x#}"
    using i j False by (simp add: mset_update)
  also have "mset (xs[i := xs ! j]) = mset xs - {#xs ! i#} + {#xs ! j#}"
    using i by (simp add: mset_update)
  finally show ?thesis using i by (simp add: mset_update)
qed simp

end
