(* ===== verification/CLib.thy ===== *)
theory CLib
  imports Prelude
begin

text \<open>
  The functions of the C library the programs read and print traces with: \<open>fgets\<close>, \<open>strpbrk\<close>,
  \<open>strtok\<close>, \<open>strtol\<close>, \<open>atoi\<close>, \<open>memcmp\<close>, \<open>strncmp\<close>, the \<open>printf\<close> conversions \<open>%.2hhx\<close> and
  \<open>%lu\<close>, and the C-string constructor of \<open>std::string\<close>.
\<close>

abbreviation NUL :: char where "NUL \<equiv> CHR 0x00"
abbreviation TAB :: char where "TAB \<equiv> CHR 0x09"
abbreviation NL :: char where "NL \<equiv> CHR 0x0A"
abbreviation SP :: char where "SP \<equiv> CHR '' ''"

section \<open>Reading lines\<close>

text \<open>The characters of a buffer a string function sees: those before the first NUL.\<close>

definition c_str :: "string \<Rightarrow> string" where
  "c_str s = takeWhile (\<lambda>c. c \<noteq> NUL) s"

text \<open>\<open>fgets(buf, Suc n, fp)\<close>: at most \<open>n\<close> characters, stopping after a newline.\<close>

fun fgets_take :: "nat \<Rightarrow> string \<Rightarrow> string \<times> string" where
  "fgets_take 0 s = ([], s)"
| "fgets_take (Suc n) [] = ([], [])"
| "fgets_take (Suc n) (c # s) =
     (if c = NL then ([c], s) else (let (l, r) = fgets_take n s in (c # l, r)))"

lemma fgets_take_append: "fgets_take n s = (l, r) \<Longrightarrow> s = l @ r"
  by (induction n s arbitrary: l r rule: fgets_take.induct) (auto split: if_splits prod.splits)

lemma fgets_take_shorter: "fgets_take (Suc n) (c # s) = (l, r) \<Longrightarrow> length r < Suc (length s)"
  using fgets_take_append [of "Suc n" "c # s" l r]
  by (auto split: if_splits prod.splits dest: fgets_take_append)

text \<open>
  The buffers a loop \<open>while (fgets(read_buffer, 256, fp))\<close> goes through, in order. The loop
  ends at the end of the file, where \<open>fgets\<close> returns \<open>NULL\<close>.
\<close>

function fgets_lines :: "string \<Rightarrow> string list" where
  "fgets_lines [] = []"
| "fgets_lines (c # s) = (let (l, r) = fgets_take 255 (c # s) in l # fgets_lines r)"
  by pat_completeness auto
termination
proof (relation "measure length")
  fix c s and x :: "string \<times> string" and l r
  assume "x = fgets_take 255 (c # s)" "(l, r) = x"
  then have "fgets_take (Suc 254) (c # s) = (l, r)" by simp
  then have "length r < Suc (length s)" by (rule fgets_take_shorter)
  then show "(r, c # s) \<in> measure length" by simp
qed simp

lemma fgets_take_line:
  "NL \<notin> set l \<Longrightarrow> length l < n \<Longrightarrow> fgets_take n (l @ NL # r) = (l @ [NL], r)"
proof (induction l arbitrary: n)
  case Nil
  then show ?case by (cases n) auto
next
  case (Cons c l)
  then obtain m where "n = Suc m" by (cases n) auto
  with Cons show ?case by auto
qed

text \<open>A file of short newline-terminated lines is read line by line.\<close>

definition short_line :: "string \<Rightarrow> bool" where
  "short_line l \<longleftrightarrow> (\<exists>l'. l = l' @ [NL] \<and> NL \<notin> set l' \<and> length l' < 255)"

lemma fgets_lines_short: "short_line l \<Longrightarrow> fgets_lines (l @ r) = l # fgets_lines r"
proof -
  assume "short_line l"
  then obtain l' where l: "l = l' @ [NL]" "NL \<notin> set l'" "length l' < 255"
    by (auto simp: short_line_def)
  then have "fgets_take 255 (l @ r) = (l, r)"
    using fgets_take_line [of l' 255 r] by simp
  moreover obtain c s where "l @ r = c # s" using l by (cases l') auto
  ultimately show ?thesis by simp
qed

lemma fgets_lines_concat: "(\<And>l. l \<in> set ls \<Longrightarrow> short_line l) \<Longrightarrow> fgets_lines (concat ls) = ls"
  by (induction ls) (auto simp: fgets_lines_short)

section \<open>Scanning\<close>

text \<open>\<open>strpbrk(s, accept) != NULL\<close>: some character of \<open>s\<close> is one of \<open>accept\<close>.\<close>

definition strpbrk :: "string \<Rightarrow> string \<Rightarrow> bool" where
  "strpbrk s accept \<longleftrightarrow> list_ex (\<lambda>c. c \<in> set accept) s"

text \<open>
  \<open>strtok\<close>: skip leading delimiters, take the characters up to the next delimiter and resume
  behind it. The second component is the position the next call continues from.
\<close>

definition strtok :: "string \<Rightarrow> string \<Rightarrow> string option \<times> string" where
  "strtok delims s =
     (let s' = dropWhile (\<lambda>c. c \<in> set delims) s in
      if s' = [] then (None, [])
      else (Some (takeWhile (\<lambda>c. c \<notin> set delims) s'),
            drop 1 (dropWhile (\<lambda>c. c \<notin> set delims) s')))"

lemma strtok_token:
  assumes "tok \<noteq> []" "\<And>c. c \<in> set tok \<Longrightarrow> c \<notin> set delims" "d \<in> set delims"
  shows "strtok delims (tok @ d # rest) = (Some tok, rest)"
proof -
  obtain c t where t: "tok = c # t" using assms(1) by (cases tok) auto
  then have "c \<notin> set delims" using assms(2) by simp
  then have "dropWhile (\<lambda>c. c \<in> set delims) (tok @ d # rest) = tok @ d # rest"
    using t by simp
  moreover have "takeWhile (\<lambda>c. c \<notin> set delims) (tok @ d # rest) = tok"
    using assms(2,3) by (simp add: takeWhile_append)
  moreover have "dropWhile (\<lambda>c. c \<notin> set delims) (tok @ d # rest) = d # rest"
    using assms(2,3) by (simp add: dropWhile_append)
  ultimately show ?thesis by (simp add: strtok_def Let_def)
qed

lemma strtok_skip: "d \<in> set delims \<Longrightarrow> strtok delims (d # s) = strtok delims s"
  by (simp add: strtok_def)

section \<open>Numbers\<close>

definition isspace :: "char \<Rightarrow> bool" where
  "isspace c \<longleftrightarrow> (let n = (of_char c :: nat) in n = 32 \<or> 9 \<le> n \<and> n \<le> 13)"

definition digit_val :: "char \<Rightarrow> nat option" where
  "digit_val c =
     (let n = (of_char c :: nat) in
      if 48 \<le> n \<and> n \<le> 57 then Some (n - 48)
      else if 97 \<le> n \<and> n \<le> 122 then Some (n - 87)
      else if 65 \<le> n \<and> n \<le> 90 then Some (n - 55)
      else None)"

definition is_digit :: "nat \<Rightarrow> char \<Rightarrow> bool" where
  "is_digit b c \<longleftrightarrow> (case digit_val c of None \<Rightarrow> False | Some d \<Rightarrow> d < b)"

definition digits_val :: "nat \<Rightarrow> string \<Rightarrow> nat" where
  "digits_val b s = foldl (\<lambda>a c. a * b + the (digit_val c)) 0 s"

definition LONG_MAX :: int where "LONG_MAX = 2 ^ 63 - 1"
definition LONG_MIN :: int where "LONG_MIN = - (2 ^ 63)"

text \<open>
  \<open>strtol(s, NULL, base)\<close>: white space, an optional sign, for base 16 an optional \<open>0x\<close>, then
  the longest run of digits; out-of-range values saturate.
\<close>

definition strtol_skip0x :: "nat \<Rightarrow> string \<Rightarrow> string" where
  "strtol_skip0x b s =
     (case s of z # x # h # s' \<Rightarrow>
        if b = 16 \<and> z = CHR ''0'' \<and> (x = CHR ''x'' \<or> x = CHR ''X'') \<and> is_digit 16 h
        then h # s' else s
      | _ \<Rightarrow> s)"

definition strtol :: "nat \<Rightarrow> string \<Rightarrow> int" where
  "strtol b s =
     (let s1 = dropWhile isspace s;
          neg = (case s1 of c # _ \<Rightarrow> c = CHR ''-'' | [] \<Rightarrow> False);
          s2 = (case s1 of c # r \<Rightarrow> if c = CHR ''-'' \<or> c = CHR ''+'' then r else s1 | [] \<Rightarrow> []);
          v = int (digits_val b (takeWhile (is_digit b) (strtol_skip0x b s2)))
      in max LONG_MIN (min LONG_MAX (if neg then - v else v)))"

text \<open>\<open>atoi(s)\<close> is \<open>(int) strtol(s, NULL, 10)\<close>: the low 32 bits.\<close>

definition atoi :: "string \<Rightarrow> 32 word" where
  "atoi s = word_of_int (strtol 10 s)"

section \<open>Printing\<close>

definition digit_char :: "nat \<Rightarrow> char" where
  "digit_char d = char_of (if d < 10 then 48 + d else 87 + d)"

text \<open>\<open>printf("%.2hhx", b)\<close>.\<close>

definition hex2 :: "byte \<Rightarrow> string" where
  "hex2 b = [digit_char (unat b div 16), digit_char (unat b mod 16)]"

text \<open>\<open>printf("%lu", n)\<close>, \<open>printf("%d", n)\<close> for \<open>n \<ge> 0\<close>.\<close>

fun dec :: "nat \<Rightarrow> string" where
  "dec n = (if n < 10 then [digit_char n] else dec (n div 10) @ [digit_char (n mod 10)])"

declare dec.simps [simp del]

section \<open>Comparing memory\<close>

text \<open>
  \<open>memcmp\<close> on two buffers of the same length compares them as sequences of unsigned bytes: the
  lexicographic order of \<open>List_Lexorder\<close>.
\<close>

definition memcmp :: "bytes \<Rightarrow> bytes \<Rightarrow> int" where
  "memcmp a b = (if a = b then 0 else if a < b then - 1 else 1)"

text \<open>\<open>strncmp(a, b, FP_SIZE) == 0\<close>: the comparison ends at a common NUL.\<close>

fun strncmp_eq :: "nat \<Rightarrow> bytes \<Rightarrow> bytes \<Rightarrow> bool" where
  "strncmp_eq 0 a b = True"
| "strncmp_eq (Suc n) (x # a) (y # b) = (if x \<noteq> y then False else if x = 0 then True else strncmp_eq n a b)"
| "strncmp_eq (Suc n) [] [] = True"
| "strncmp_eq (Suc n) _ _ = False"

lemma memcmp_eq_0 [simp]: "memcmp a b = 0 \<longleftrightarrow> a = b"
  by (simp add: memcmp_def)

lemma memcmp_pos [simp]: "0 < memcmp a b \<longleftrightarrow> b < a"
  by (auto simp: memcmp_def)

definition nul_free :: "bytes \<Rightarrow> bool" where
  "nul_free f \<longleftrightarrow> 0 \<notin> set f"

lemma strncmp_refl [simp]: "strncmp_eq n a a"
proof (induction n arbitrary: a)
  case (Suc n)
  then show ?case by (cases a) auto
qed simp

lemma strncmp_sym: "strncmp_eq n a b = strncmp_eq n b a"
  by (induction n a b rule: strncmp_eq.induct) auto

lemma strncmp_trans: "strncmp_eq n a b \<Longrightarrow> strncmp_eq n b c \<Longrightarrow> strncmp_eq n a c"
proof (induction n a b arbitrary: c rule: strncmp_eq.induct)
  case (2 n x a y b)
  then show ?case by (cases c) (auto split: if_splits)
next
  case (3 n)
  then show ?case by (cases c) auto
qed auto

lemma strncmp_nul_free:
  "length a = n \<Longrightarrow> length b = n \<Longrightarrow> nul_free a \<Longrightarrow> strncmp_eq n a b \<longleftrightarrow> a = b"
  by (induction n a b rule: strncmp_eq.induct) (auto simp: nul_free_def)

text \<open>
  \<open>std::string s; s.assign(p); s.resize(FP_SIZE)\<close> for \<open>char p[FP_SIZE]\<close>: the bytes before the
  first NUL, padded with NULs. When there is no NUL among the six bytes, \<open>assign\<close> reads on
  behind the array, and \<open>resize\<close> cuts what it found there off again.
\<close>

definition assign_resize :: "bytes \<Rightarrow> bytes" where
  "assign_resize p =
     (let s = takeWhile (\<lambda>b. b \<noteq> 0) p in take FP_SIZE (s @ replicate (FP_SIZE - length s) 0))"

lemma length_assign_resize [simp]: "length (assign_resize p) = FP_SIZE"
  by (simp add: assign_resize_def Let_def)

lemma assign_resize_nul_free: "is_fp p \<Longrightarrow> nul_free p \<Longrightarrow> assign_resize p = p"
proof -
  assume p: "is_fp p" "nul_free p"
  then have tw: "takeWhile (\<lambda>b. b \<noteq> 0) p = p"
    by (auto simp: nul_free_def intro: takeWhile_all)
  show ?thesis unfolding assign_resize_def Let_def tw using p by (simp add: is_fp_def)
qed

section \<open>Printed numbers read back\<close>

lemma digit_char_val: "d < 16 \<Longrightarrow> digit_val (digit_char d) = Some d"
  by (auto simp: digit_val_def digit_char_def Let_def)

lemma is_digit_digit_char: "d < b \<Longrightarrow> b \<le> 16 \<Longrightarrow> is_digit b (digit_char d)"
  by (simp add: is_digit_def digit_char_val)

lemma digits_val_snoc: "digits_val b (s @ [c]) = digits_val b s * b + the (digit_val c)"
  by (simp add: digits_val_def)

lemma digits_val_dec: "digits_val 10 (dec n) = n"
proof (induction n rule: dec.induct)
  case (1 n)
  show ?case
  proof (cases "n < 10")
    case True
    then show ?thesis by (simp add: dec.simps [of n] digits_val_def digit_char_val)
  next
    case False
    then have "digits_val 10 (dec n) = n div 10 * 10 + n mod 10"
      using 1 by (simp add: dec.simps [of n] digits_val_snoc digit_char_val)
    then show ?thesis by simp
  qed
qed

lemma dec_digits: "set (dec n) \<subseteq> digit_char ` {..<10}"
proof (induction n rule: dec.induct)
  case (1 n)
  then show ?case
    by (cases "n < 10") (auto simp: dec.simps [of n])
qed

lemma dec_not_Nil [simp]: "dec n \<noteq> []"
  by (subst dec.simps) simp

text \<open>The code of a printed digit: \<open>0\<close>-\<open>9\<close> or \<open>a\<close>-\<open>f\<close>.\<close>

lemma digit_char_code:
  "d < 16 \<Longrightarrow> (of_char (digit_char d) :: nat) \<in> {48..57} \<union> {97..102}"
  by (auto simp: digit_char_def)

lemma digit_char_neq:
  assumes "d < 16" and "(of_char c :: nat) \<notin> {48..57} \<union> {97..102}"
  shows "digit_char d \<noteq> c"
  using digit_char_code [OF assms(1)] assms(2) by auto

lemma not_isspace_digit_char: "d < 16 \<Longrightarrow> \<not> isspace (digit_char d)"
  using digit_char_code [of d] by (auto simp: isspace_def Let_def)

text \<open>A run of digits followed by something that is no digit.\<close>

lemma strtol_digits:
  assumes ne: "s \<noteq> []" and dig: "set s \<subseteq> digit_char ` {..<b}" and b: "b \<le> 16"
    and rest: "rest = [] \<or> \<not> is_digit b (hd rest)"
    and no0x: "strtol_skip0x b (s @ rest) = s @ rest"
    and range: "int (digits_val b s) \<le> LONG_MAX"
  shows "strtol b (s @ rest) = int (digits_val b s)"
proof -
  obtain c s' where s: "s = c # s'" using ne by (cases s) auto
  then obtain d where d: "d < b" "c = digit_char d" using dig by auto
  then have "d < 16" using b by simp
  then have c: "\<not> isspace c" "c \<noteq> CHR ''-''" "c \<noteq> CHR ''+''"
    by (simp_all add: d(2) not_isspace_digit_char digit_char_neq)
  have "takeWhile (is_digit b) (s @ rest) = s"
  proof -
    have "\<And>x. x \<in> set s \<Longrightarrow> is_digit b x"
      using dig b by (auto simp: is_digit_digit_char)
    then show ?thesis using rest by (cases rest) (simp_all add: takeWhile_append)
  qed
  then have "strtol b (s @ rest) = max LONG_MIN (min LONG_MAX (int (digits_val b s)))"
    using c no0x by (simp add: strtol_def Let_def s)
  then show ?thesis using range by (simp add: LONG_MIN_def)
qed

lemma strtol_dec:
  assumes "int n \<le> LONG_MAX" "rest = [] \<or> \<not> is_digit 10 (hd rest)"
  shows "strtol 10 (dec n @ rest) = int n"
proof -
  have "strtol 10 (dec n @ rest) = int (digits_val 10 (dec n))"
  proof (rule strtol_digits)
    show "strtol_skip0x 10 (dec n @ rest) = dec n @ rest"
      by (auto simp: strtol_skip0x_def split: list.splits)
  qed (use assms in \<open>simp_all add: digits_val_dec dec_digits\<close>)
  then show ?thesis by (simp add: digits_val_dec)
qed

lemma hex2_chars: "set (hex2 b) \<subseteq> digit_char ` {..<16}"
proof -
  have "unat b < 256" using unsigned_less [of b] by simp
  then have "unat b div 16 < 16" by auto
  then show ?thesis by (auto simp: hex2_def)
qed

lemma strtol_hex2: "strtol 16 (hex2 b) = uint b"
proof -
  have b: "unat b < 256" using unsigned_less [of b] by simp
  then have "digits_val 16 (hex2 b) = unat b div 16 * 16 + unat b mod 16"
    by (simp add: hex2_def digits_val_def digit_char_val)
  then have v: "digits_val 16 (hex2 b) = unat b" by simp
  have "strtol 16 (hex2 b @ []) = int (digits_val 16 (hex2 b))"
  proof (rule strtol_digits)
    show "set (hex2 b) \<subseteq> digit_char ` {..<16}" by (rule hex2_chars)
    show "strtol_skip0x 16 (hex2 b @ []) = hex2 b @ []"
      by (simp add: strtol_skip0x_def hex2_def)
    show "int (digits_val 16 (hex2 b)) \<le> LONG_MAX"
      using uint_bounded [of b] by (simp add: v LONG_MAX_def)
  qed (simp_all add: hex2_def)
  then show ?thesis by (simp add: v)
qed

lemma hex2_not_Nil [simp]: "hex2 b \<noteq> []"
  by (simp add: hex2_def)

lemma dec_chars: "set (dec n) \<subseteq> digit_char ` {..<16}"
  using dec_digits [of n] by fastforce

lemma atoi_dec:
  assumes "n < 2 ^ 31" "rest = [] \<or> \<not> is_digit 10 (hd rest)"
  shows "atoi (dec n @ rest) = word_of_nat n"
proof -
  have "int n \<le> LONG_MAX" using assms(1) by (simp add: LONG_MAX_def)
  then show ?thesis using assms(2) by (simp add: atoi_def strtol_dec)
qed

lemma length_dec: "n < 10 ^ Suc k \<Longrightarrow> length (dec n) \<le> Suc k"
proof (induction k arbitrary: n)
  case 0
  then show ?case by (simp add: dec.simps [of n])
next
  case (Suc k)
  then have "n div 10 < 10 ^ Suc k" by (simp add: div_less_iff_less_mult)
  then show ?case using Suc.IH by (simp add: dec.simps [of n])
qed

text \<open>Characters that are neither decimal digits nor \<open>a\<close>-\<open>f\<close> do not occur in printed numbers.\<close>

lemma notin_hex2 [simp]:
  "(of_char c :: nat) \<notin> {48..57} \<union> {97..102} \<Longrightarrow> c \<notin> set (hex2 b)"
  using hex2_chars [of b] digit_char_neq by blast

lemma notin_dec [simp]:
  "(of_char c :: nat) \<notin> {48..57} \<union> {97..102} \<Longrightarrow> c \<notin> set (dec n)"
  using dec_chars [of n] digit_char_neq by blast

end
