(* ===== verification/Trace.thy ===== *)
theory Trace
  imports CLib
begin

text \<open>
  The text format of chunk traces, which \<open>hf-stat -h\<close> and the defense programs print and every
  \<open>read_hashes\<close> of the toolkit parses: one line per chunk with the fingerprint in hexadecimal,
  the chunk size and the compression ratio, after a title line. The parsing prologue is the
  same text in all eight \<open>read_hashes\<close> functions.
\<close>

section \<open>Parsing\<close>

text \<open>\<open>if (strpbrk(read_buffer, "Chunk")) continue;\<close>\<close>

definition is_title :: "string \<Rightarrow> bool" where
  "is_title l \<longleftrightarrow> strpbrk (c_str l) ''Chunk''"

abbreviation delims1 :: string where "delims1 \<equiv> [CHR '':'', TAB, NL, SP]"
abbreviation delims2 :: string where "delims2 \<equiv> [CHR '':'', TAB, NL]"

text \<open>
  The loop \<open>while (item != NULL && idx < FP_SIZE)\<close>: store the token, fetch the next one. It
  returns the fingerprint and the token behind it.
\<close>

function hash_loop :: "nat \<Rightarrow> bytes \<Rightarrow> string option \<Rightarrow> string \<Rightarrow> bytes \<times> string option" where
  "hash_loop idx hash item rest =
     (case item of
        None \<Rightarrow> (hash, None)
      | Some tok \<Rightarrow>
          if idx < FP_SIZE then
            (let (item', rest') = strtok delims2 rest
             in hash_loop (Suc idx) (hash[idx := word_of_int (strtol 16 tok)]) item' rest')
          else (hash, Some tok))"
  by pat_completeness auto
termination by (relation "measure (\<lambda>(idx, _). FP_SIZE - idx)") auto

declare hash_loop.simps [simp del]

definition parse_hash :: "string \<Rightarrow> bytes \<times> string option" where
  "parse_hash l =
     (let (item, rest) = strtok delims1 (c_str l)
      in hash_loop 0 (replicate FP_SIZE 0) item rest)"

text \<open>\<open>atoi((const char*)item)\<close>; a null pointer is undefined behaviour.\<close>

definition parse_size :: "string option \<Rightarrow> 32 word res" where
  "parse_size item = (case item of None \<Rightarrow> Err Undefined | Some t \<Rightarrow> Ok (atoi t))"

section \<open>Printing\<close>

text \<open>\<open>printf("%.2hhx", h[0]); for (j = 1; j < FP_SIZE; j++) printf(":%.2hhx", h[j]);\<close>\<close>

definition print_fp :: "bytes \<Rightarrow> string" where
  "print_fp h = hex2 (h ! 0) @ concat (map (\<lambda>j. CHR '':'' # hex2 (h ! j)) [1 ..< FP_SIZE])"

text \<open>\<open>printf("\t\t%" PRIu64 " ", size); printf("\t\t\t10\n");\<close> behind the fingerprint.\<close>

definition chunk_line :: "bytes \<Rightarrow> 64 word \<Rightarrow> string" where
  "chunk_line h sz = print_fp h @ [TAB, TAB] @ dec (unat sz) @ [SP, TAB, TAB, TAB] @ ''10'' @ [NL]"

text \<open>\<open>printf("Chunk Hash\t\t\tChunk Size (bytes)\tCompression Ratio (tenth)\n");\<close>\<close>

definition title_text :: string where
  "title_text = ''Chunk Hash'' @ [TAB, TAB, TAB] @ ''Chunk Size (bytes)'' @ [TAB]
     @ ''Compression Ratio (tenth)'' @ [NL]"

lemma is_title_title_text: "is_title title_text"
  by (simp add: is_title_def title_text_def c_str_def strpbrk_def)

section \<open>Printed lines are parsed back\<close>

lemma length_hash_loop: "length (fst (hash_loop idx h item rest)) = length h"
proof (induction idx h item rest rule: hash_loop.induct)
  case (1 idx h item rest)
  show ?case
    by (subst hash_loop.simps) (use 1 in \<open>auto split: option.splits prod.splits\<close>)
qed

lemma length_parse_hash [simp]: "length (fst (parse_hash l)) = FP_SIZE"
  by (simp add: parse_hash_def length_hash_loop split: prod.splits)

lemma is_fp_parse_hash [simp]: "is_fp (fst (parse_hash l))"
  by (simp add: is_fp_def)

lemma hex2_no_delim1: "c \<in> set (hex2 b) \<Longrightarrow> c \<notin> set delims1"
  by auto

lemma hex2_no_delim2: "c \<in> set (hex2 b) \<Longrightarrow> c \<notin> set delims2"
  using hex2_no_delim1 [of c b] by auto

lemma strtok_hex2:
  "d \<in> set delims1 \<Longrightarrow> strtok delims1 (hex2 b @ d # rest) = (Some (hex2 b), rest)"
  "d \<in> set delims2 \<Longrightarrow> strtok delims2 (hex2 b @ d # rest) = (Some (hex2 b), rest)"
  using hex2_no_delim1 hex2_no_delim2 by (auto intro!: strtok_token)

lemma strtok_dec: "strtok delims2 (TAB # dec n @ SP # TAB # rest) = (Some (dec n @ [SP]), rest)"
proof -
  have "strtok delims2 ((dec n @ [SP]) @ TAB # rest) = (Some (dec n @ [SP]), rest)"
    by (intro strtok_token) auto
  then show ?thesis by (simp add: strtok_skip)
qed

lemma word_of_int_strtol_hex2 [simp]: "word_of_int (strtol 16 (hex2 b)) = b"
  by (simp add: strtol_hex2)

lemma c_str_chunk_line: "c_str (chunk_line h n) = chunk_line h n"
proof -
  have "NUL \<notin> set (chunk_line h n)"
    by (simp add: chunk_line_def print_fp_def)
  then show ?thesis by (auto simp: c_str_def intro: takeWhile_all)
qed

lemma not_title_chunk_line: "\<not> is_title (chunk_line h n)"
proof -
  have "c \<in> set (chunk_line h n) \<Longrightarrow> c \<notin> set ''Chunk''" for c
    by (auto simp: chunk_line_def print_fp_def)
  then show ?thesis by (auto simp: is_title_def c_str_chunk_line strpbrk_def list_ex_iff)
qed

lemma fp_nth_list: "is_fp h \<Longrightarrow> h = [h ! 0, h ! 1, h ! 2, h ! 3, h ! 4, h ! 5]"
  by (auto simp: is_fp_def intro!: nth_equalityI)
    (auto simp: less_Suc_eq numeral_eq_Suc)

lemma print_fp_eq:
  "print_fp h = hex2 (h ! 0) @ CHR '':'' # hex2 (h ! 1) @ CHR '':'' # hex2 (h ! 2) @ CHR '':''
     # hex2 (h ! 3) @ CHR '':'' # hex2 (h ! 4) @ CHR '':'' # hex2 (h ! 5)"
  by (simp add: print_fp_def upt_rec eval_nat_numeral)

lemma replicate_fp: "replicate FP_SIZE x = [x, x, x, x, x, x]"
  by (simp add: eval_nat_numeral)

lemma parse_hash_chunk_line:
  assumes "is_fp h"
  shows "parse_hash (chunk_line h n) = (h, Some (dec (unat n) @ [SP]))"
proof -
  have "parse_hash (chunk_line h n) =
      ([h ! 0, h ! 1, h ! 2, h ! 3, h ! 4, h ! 5], Some (dec (unat n) @ [SP]))"
    unfolding parse_hash_def c_str_chunk_line
    by (simp add: chunk_line_def print_fp_eq strtok_hex2 strtok_dec hash_loop.simps
        replicate_fp split: prod.splits)
  then show ?thesis using fp_nth_list [OF assms] by simp
qed

lemma is_digit_SP [simp]: "\<not> is_digit 10 SP"
  by (simp add: is_digit_def digit_val_def)

lemma parse_size_chunk_line:
  "unat (n :: 64 word) < 2 ^ 31 \<Longrightarrow> parse_size (Some (dec (unat n) @ [SP])) = Ok (ucast n)"
  by (simp add: parse_size_def atoi_dec unsigned_ucast_eq)

section \<open>Whole traces\<close>

text \<open>What a defense program writes for a sequence of chunks: the title and one line per chunk.\<close>

definition print_trace :: "(bytes \<times> 64 word) list \<Rightarrow> string" where
  "print_trace cs = title_text @ concat (map (\<lambda>(h, n). chunk_line h n) cs)"

lemma length_hex2 [simp]: "length (hex2 b) = 2"
  by (simp add: hex2_def)

lemma short_chunk_line: "short_line (chunk_line h n)"
proof -
  have "unat n < 2 ^ 64" using unsigned_less [of n] by simp
  then have "unat n < 10 ^ Suc 19" by simp
  then have "length (dec (unat n)) \<le> 20" using length_dec by fastforce
  then show ?thesis
    by (auto simp: short_line_def chunk_line_def print_fp_eq intro!: exI [of _ "butlast (chunk_line h n)"])
qed

lemma short_title: "short_line title_text"
  by (auto simp: short_line_def title_text_def intro!: exI [of _ "butlast title_text"])

lemma fgets_lines_print_trace:
  "fgets_lines (print_trace cs) = title_text # map (\<lambda>(h, n). chunk_line h n) cs"
proof -
  have "fgets_lines (concat (title_text # map (\<lambda>(h, n). chunk_line h n) cs))
      = title_text # map (\<lambda>(h, n). chunk_line h n) cs"
    by (rule fgets_lines_concat) (auto simp: short_chunk_line short_title)
  then show ?thesis by (simp add: print_trace_def)
qed

text \<open>The fingerprints a \<open>read_hashes\<close> loop extracts from a file.\<close>

definition trace_fps :: "string \<Rightarrow> bytes list" where
  "trace_fps file = map (\<lambda>l. fst (parse_hash l)) (filter (\<lambda>l. \<not> is_title l) (fgets_lines file))"

lemma trace_fps_fp: "f \<in> set (trace_fps file) \<Longrightarrow> is_fp f"
  by (auto simp: trace_fps_def)

lemma trace_fps_print_trace:
  "\<forall>c \<in> set cs. is_fp (fst c) \<Longrightarrow> trace_fps (print_trace cs) = map fst cs"
  by (induction cs)
    (auto simp: trace_fps_def fgets_lines_print_trace is_title_title_text not_title_chunk_line
      parse_hash_chunk_line)

text \<open>A trace whose fingerprints have no NUL byte.\<close>

definition nul_free_trace :: "bytes list \<Rightarrow> bool" where
  "nul_free_trace fps \<longleftrightarrow> list_all nul_free fps"

text \<open>
  C14. A written trace is read back: the title line is recognised, and from every chunk line the
  readers recover the fingerprint and, below \<open>2^31\<close> bytes, the chunk size.
\<close>

theorem trace_round_trip:
  assumes "list_all (\<lambda>(h, n). is_fp h \<and> unat (n :: 64 word) < 2 ^ 31) cs"
  shows "map (\<lambda>l. (fst (parse_hash l), parse_size (snd (parse_hash l))))
      (filter (\<lambda>l. \<not> is_title l) (fgets_lines (print_trace cs)))
    = map (\<lambda>(h, n). (h, Ok (ucast n))) cs"
  using assms unfolding fgets_lines_print_trace
  by (induction cs)
    (auto simp: is_title_title_text not_title_chunk_line parse_hash_chunk_line parse_size_chunk_line)

theorem trace_round_trip_witness:
  "map (\<lambda>l. (fst (parse_hash l), parse_size (snd (parse_hash l))))
      (filter (\<lambda>l. \<not> is_title l) (fgets_lines (print_trace [([1, 0, 2, 255, 4, 5], 8192)])))
    = [([1, 0, 2, 255, 4, 5], Ok 8192)]"
  using trace_round_trip [of "[([1, 0, 2, 255, 4, 5], 8192)]"] by (simp add: is_fp_def)

end
