(* ===== verification/KV.thy ===== *)
theory KV
  imports Prelude
begin

text \<open>
  The key-value store contract the programs rely on (\<open>leveldb::DB\<close>: \<open>Get\<close>, \<open>Put\<close>, \<open>Delete\<close>,
  iteration in key order). The store is a list of bindings in strictly ascending bytewise key
  order, together with the errors the environment may inject: \<open>get_err\<close> and \<open>write_err\<close> name,
  per key, a status other than success that an operation on this key reports. The laws a client
  uses are the locale \<open>kvstore\<close>.
\<close>

text \<open>\<open>leveldb::Status::Code\<close> (\<open>include/leveldb/status.h\<close>).\<close>

datatype status = OK | NotFound | Corruption | NotSupported | InvalidArgument | IOError

definition is_ok :: "status \<Rightarrow> bool" where "is_ok s \<longleftrightarrow> s = OK"
definition is_not_found :: "status \<Rightarrow> bool" where "is_not_found s \<longleftrightarrow> s = NotFound"

record kvdb =
  entries :: "(bytes \<times> bytes) list"
  get_err :: "bytes \<Rightarrow> status option"
  write_err :: "bytes \<Rightarrow> status option"

section \<open>The contract\<close>

locale kvstore =
  fixes lookup :: "'d \<Rightarrow> bytes \<Rightarrow> bytes option"
    and put :: "bytes \<Rightarrow> bytes \<Rightarrow> 'd \<Rightarrow> 'd"
    and delete :: "bytes \<Rightarrow> 'd \<Rightarrow> 'd"
    and scan :: "'d \<Rightarrow> (bytes \<times> bytes) list"
    and invar :: "'d \<Rightarrow> bool"
  assumes lookup_put: "invar d \<Longrightarrow> lookup (put k v d) = (lookup d)(k \<mapsto> v)"
    and lookup_delete: "invar d \<Longrightarrow> lookup (delete k d) = (lookup d)(k := None)"
    and scan_lookup: "invar d \<Longrightarrow> map_of (scan d) = lookup d"
    and scan_sorted: "invar d \<Longrightarrow> sorted_wrt (<) (map fst (scan d))"
    and invar_put: "invar d \<Longrightarrow> invar (put k v d)"
    and invar_delete: "invar d \<Longrightarrow> invar (delete k d)"
begin

text \<open>Overwriting by \<open>Delete\<close> and \<open>Put\<close> is the same as \<open>Put\<close>.\<close>

lemma lookup_delete_put: "invar d \<Longrightarrow> lookup (put k v (delete k d)) = (lookup d)(k \<mapsto> v)"
  by (simp add: lookup_put lookup_delete invar_delete)

lemma invar_delete_put: "invar d \<Longrightarrow> invar (put k v (delete k d))"
  by (simp add: invar_put invar_delete)

lemma scan_distinct: "invar d \<Longrightarrow> distinct (map fst (scan d))"
  using scan_sorted strict_sorted_iff by auto

lemma set_scan: "invar d \<Longrightarrow> (k, v) \<in> set (scan d) \<longleftrightarrow> lookup d k = Some v"
  using scan_distinct [of d] scan_lookup [of d] by (metis map_of_eq_Some_iff)

lemma dom_lookup: "invar d \<Longrightarrow> dom (lookup d) = fst ` set (scan d)"
  using scan_lookup [of d] by (metis dom_map_of_conv_image_fst)

lemma finite_dom: "invar d \<Longrightarrow> finite (dom (lookup d))"
  by (simp add: dom_lookup)

text \<open>Two stores with the same contents are scanned alike.\<close>

lemma scan_unique:
  assumes "invar d" "invar d'" "lookup d = lookup d'"
  shows "scan d = scan d'"
proof (rule map_sorted_distinct_set_unique [where f = fst])
  show eq: "set (scan d) = set (scan d')" using assms set_scan by auto
  show "inj_on fst (set (scan d) \<union> set (scan d'))"
    using scan_distinct [OF assms(1)] eq by (simp add: distinct_map)
qed (use assms scan_sorted in \<open>auto simp: strict_sorted_iff\<close>)

end

section \<open>Sorted association lists\<close>

fun kv_insert :: "bytes \<Rightarrow> bytes \<Rightarrow> (bytes \<times> bytes) list \<Rightarrow> (bytes \<times> bytes) list" where
  "kv_insert k v [] = [(k, v)]"
| "kv_insert k v ((a, b) # es) =
     (if k < a then (k, v) # (a, b) # es
      else if k = a then (k, v) # es
      else (a, b) # kv_insert k v es)"

definition kv_delete :: "bytes \<Rightarrow> (bytes \<times> bytes) list \<Rightarrow> (bytes \<times> bytes) list" where
  "kv_delete k es = filter (\<lambda>e. fst e \<noteq> k) es"

definition kv_sorted :: "(bytes \<times> bytes) list \<Rightarrow> bool" where
  "kv_sorted es \<longleftrightarrow> sorted_wrt (<) (map fst es)"

lemma set_kv_insert: "fst ` set (kv_insert k v es) = insert k (fst ` set es)"
  by (induction k v es rule: kv_insert.induct) auto

lemma kv_sorted_insert: "kv_sorted es \<Longrightarrow> kv_sorted (kv_insert k v es)"
proof (induction k v es rule: kv_insert.induct)
  case (2 k v a b es)
  have "\<forall>x \<in> fst ` set (kv_insert k v es). a < x" if "\<not> k < a" "k \<noteq> a"
    using 2 that set_kv_insert [of k v es] by (auto simp: kv_sorted_def)
  with 2 show ?case by (fastforce simp: kv_sorted_def)
qed (simp add: kv_sorted_def)

lemma map_of_kv_insert: "map_of (kv_insert k v es) = (map_of es)(k \<mapsto> v)"
  by (induction k v es rule: kv_insert.induct) auto

lemma kv_sorted_delete: "kv_sorted es \<Longrightarrow> kv_sorted (kv_delete k es)"
  by (induction es) (auto simp: kv_sorted_def kv_delete_def)

lemma map_of_kv_delete: "map_of (kv_delete k es) = (map_of es)(k := None)"
  by (induction es) (auto simp: kv_delete_def fun_eq_iff)

interpretation kv: kvstore map_of kv_insert kv_delete "\<lambda>es. es" kv_sorted
  by unfold_locales
    (auto simp: map_of_kv_insert map_of_kv_delete kv_sorted_insert kv_sorted_delete
      dest: kv_sorted_def [THEN iffD1])

section \<open>Operations with a status\<close>

text \<open>
  \<open>db->Get(ReadOptions(), key, &value)\<close>: the status, and the contents of \<open>value\<close> afterwards,
  which a failing \<open>Get\<close> leaves as they were (\<open>old\<close>).
\<close>

definition db_get :: "kvdb \<Rightarrow> bytes \<Rightarrow> bytes \<Rightarrow> status \<times> bytes" where
  "db_get d k old =
     (case get_err d k of
        Some e \<Rightarrow> (e, old)
      | None \<Rightarrow> (case map_of (entries d) k of None \<Rightarrow> (NotFound, old) | Some v \<Rightarrow> (OK, v)))"

definition db_put :: "kvdb \<Rightarrow> bytes \<Rightarrow> bytes \<Rightarrow> status \<times> kvdb" where
  "db_put d k v =
     (case write_err d k of
        Some e \<Rightarrow> (e, d)
      | None \<Rightarrow> (OK, d\<lparr>entries := kv_insert k v (entries d)\<rparr>))"

definition db_delete :: "kvdb \<Rightarrow> bytes \<Rightarrow> status \<times> kvdb" where
  "db_delete d k =
     (case write_err d k of
        Some e \<Rightarrow> (e, d)
      | None \<Rightarrow> (OK, d\<lparr>entries := kv_delete k (entries d)\<rparr>))"

definition db_empty :: kvdb where
  "db_empty = \<lparr>entries = [], get_err = \<lambda>_. None, write_err = \<lambda>_. None\<rparr>"

text \<open>A store on which no operation reports an error.\<close>

definition reliable :: "kvdb \<Rightarrow> bool" where
  "reliable d \<longleftrightarrow> get_err d = (\<lambda>_. None) \<and> write_err d = (\<lambda>_. None)"

definition db_wf :: "kvdb \<Rightarrow> bool" where
  "db_wf d \<longleftrightarrow> kv_sorted (entries d)"

abbreviation db_lookup :: "kvdb \<Rightarrow> bytes \<Rightarrow> bytes option" where
  "db_lookup d \<equiv> map_of (entries d)"

lemma db_empty_simps [simp]:
  "reliable db_empty" "db_wf db_empty" "db_lookup db_empty = Map.empty"
  by (simp_all add: reliable_def db_wf_def db_empty_def kv_sorted_def)

lemma db_get_reliable:
  "reliable d \<Longrightarrow> db_get d k old = (case db_lookup d k of None \<Rightarrow> (NotFound, old) | Some v \<Rightarrow> (OK, v))"
  by (simp add: db_get_def reliable_def)

lemma db_put_reliable:
  "reliable d \<Longrightarrow> db_put d k v = (OK, d\<lparr>entries := kv_insert k v (entries d)\<rparr>)"
  by (simp add: db_put_def reliable_def)

lemma db_delete_reliable:
  "reliable d \<Longrightarrow> db_delete d k = (OK, d\<lparr>entries := kv_delete k (entries d)\<rparr>)"
  by (simp add: db_delete_def reliable_def)

lemma reliable_entries [simp]: "reliable (d\<lparr>entries := es\<rparr>) = reliable d"
  by (simp add: reliable_def)

lemma db_put_wf [simp]: "db_wf d \<Longrightarrow> db_wf (snd (db_put d k v))"
  by (auto simp: db_wf_def db_put_def kv.invar_put split: option.splits)

lemma db_delete_wf [simp]: "db_wf d \<Longrightarrow> db_wf (snd (db_delete d k))"
  by (auto simp: db_wf_def db_delete_def kv.invar_delete split: option.splits)

lemma db_put_reliable_iff [simp]: "reliable (snd (db_put d k v)) = reliable d"
  by (simp add: db_put_def split: option.splits)

lemma db_delete_reliable_iff [simp]: "reliable (snd (db_delete d k)) = reliable d"
  by (simp add: db_delete_def split: option.splits)

lemma db_lookup_put [simp]: "reliable d \<Longrightarrow> db_lookup (snd (db_put d k v)) = (db_lookup d)(k \<mapsto> v)"
  by (simp add: db_put_reliable map_of_kv_insert)

lemma db_lookup_delete [simp]:
  "reliable d \<Longrightarrow> db_lookup (snd (db_delete d k)) = (db_lookup d)(k := None)"
  by (simp add: db_delete_reliable map_of_kv_delete)

end
