(* ===== verification/BasicCount.thy ===== *)
theory BasicCount
  imports Trace KV
begin

text \<open>
  \<open>attack/basic/basic_count.cc\<close>: the frequency counter of the basic attack. It reads a trace and
  keeps, in a key-value store, the number of occurrences of every fingerprint as an 8-byte
  little-endian value.
\<close>

text \<open>\<open>*(uint64_t *)(s.c_str() + off)\<close>; a read past the end of the string is undefined.\<close>

definition u64_at :: "bytes \<Rightarrow> nat \<Rightarrow> 64 word res" where
  "u64_at s off = (if off + 8 \<le> length s then Ok (u64_read (drop off s)) else Err Undefined)"

text \<open>
  The body of the loop of \<open>read_hashes\<close> behind the parsing prologue: any status but success
  starts the counter at 1, and the statuses of \<open>Delete\<close> and \<open>Put\<close> do not change the course.
\<close>

definition basic_count_chunk :: "bytes \<Rightarrow> kvdb \<Rightarrow> kvdb res" where
  "basic_count_chunk key db =
     (let (st, existing_value) = db_get db key [] in
      if is_ok st then
        res_bind (u64_at existing_value 0) (\<lambda>count.
          let db1 = snd (db_delete db key)
          in Ok (snd (db_put db1 key (u64_bytes (count + 1)))))
      else Ok (snd (db_put db key (u64_bytes 1))))"

definition basic_read_hashes :: "string \<Rightarrow> kvdb \<Rightarrow> kvdb res" where
  "basic_read_hashes file db =
     res_fold (\<lambda>read_buffer db.
        if is_title read_buffer then Ok db
        else basic_count_chunk (fst (parse_hash read_buffer)) db)
      (fgets_lines file) db"

section \<open>Counters\<close>

text \<open>What a frequency database says of a fingerprint.\<close>

definition freq :: "kvdb \<Rightarrow> bytes \<Rightarrow> 64 word" where
  "freq db f = (case db_lookup db f of None \<Rightarrow> 0 | Some v \<Rightarrow> u64_read v)"

text \<open>A well-formed frequency database: sorted, and every value is 8 bytes.\<close>

definition freq_wf :: "kvdb \<Rightarrow> bool" where
  "freq_wf db \<longleftrightarrow> reliable db \<and> db_wf db \<and> (\<forall>k v. db_lookup db k = Some v \<longrightarrow> length v = 8)"

lemma freq_wf_empty [simp]: "freq_wf db_empty"
  by (simp add: freq_wf_def)

lemma freq_empty [simp]: "freq db_empty f = 0"
  by (simp add: freq_def)

text \<open>A loop over the lines that skips title lines is a loop over the fingerprints.\<close>

lemma res_fold_trace:
  "res_fold (\<lambda>l s. if is_title l then Ok s else f (fst (parse_hash l)) s) ls s
   = res_fold f (map (\<lambda>l. fst (parse_hash l)) (filter (\<lambda>l. \<not> is_title l) ls)) s"
  by (induction ls arbitrary: s) (auto intro!: res_bind_cong)

lemma basic_read_hashes_fold:
  "basic_read_hashes file db = res_fold basic_count_chunk (trace_fps file) db"
  by (simp add: basic_read_hashes_def trace_fps_def res_fold_trace)

text \<open>On a reliable store one step succeeds, keeps the store well-formed and adds one.\<close>

lemma basic_count_chunk_step:
  assumes "freq_wf db"
  shows "\<exists>db'. basic_count_chunk key db = Ok db' \<and> freq_wf db'
    \<and> db_lookup db' = (db_lookup db)(key \<mapsto> u64_bytes (freq db key + 1))"
proof (cases "db_lookup db key")
  case None
  let ?db = "snd (db_put db key (u64_bytes 1))"
  have "basic_count_chunk key db = Ok ?db"
    using assms None by (simp add: basic_count_chunk_def freq_wf_def db_get_reliable is_ok_def)
  moreover have "freq_wf ?db" using assms by (auto simp: freq_wf_def)
  moreover have "db_lookup ?db = (db_lookup db)(key \<mapsto> u64_bytes (freq db key + 1))"
    using assms None by (simp add: freq_wf_def freq_def)
  ultimately show ?thesis by blast
next
  case (Some v)
  let ?db = "snd (db_put (snd (db_delete db key)) key (u64_bytes (u64_read v + 1)))"
  have v: "length v = 8" using assms Some by (simp add: freq_wf_def)
  have "basic_count_chunk key db = Ok ?db"
    using assms Some v
    by (simp add: basic_count_chunk_def freq_wf_def db_get_reliable is_ok_def u64_at_def)
  moreover have "freq_wf ?db" using assms by (auto simp: freq_wf_def)
  moreover have "db_lookup ?db = (db_lookup db)(key \<mapsto> u64_bytes (freq db key + 1))"
    using assms Some by (simp add: freq_wf_def freq_def)
  ultimately show ?thesis by blast
qed

lemma freq_update:
  "db_lookup db' = (db_lookup db)(key \<mapsto> u64_bytes n) \<Longrightarrow> freq db' f = (if f = key then n else freq db f)"
  by (simp add: freq_def)

lemma basic_fold_freq:
  assumes "freq_wf db"
  shows "\<exists>db'. res_fold basic_count_chunk fps db = Ok db' \<and> freq_wf db'
    \<and> (\<forall>f. freq db' f = freq db f + of_nat (count_list fps f))
    \<and> dom (db_lookup db') = dom (db_lookup db) \<union> set fps"
  using assms
proof (induction fps arbitrary: db)
  case (Cons x fps)
  obtain db1 where s: "basic_count_chunk x db = Ok db1" "freq_wf db1"
    "db_lookup db1 = (db_lookup db)(x \<mapsto> u64_bytes (freq db x + 1))"
    using basic_count_chunk_step [OF Cons.prems] by blast
  obtain db2 where "res_fold basic_count_chunk fps db1 = Ok db2" "freq_wf db2"
    "\<forall>f. freq db2 f = freq db1 f + of_nat (count_list fps f)"
    "dom (db_lookup db2) = dom (db_lookup db1) \<union> set fps"
    using Cons.IH [OF s(2)] by blast
  with s show ?case by (auto simp: freq_update [OF s(3)])
qed simp

text \<open>The database is determined by the multiset of fingerprints.\<close>

lemma freq_db_unique:
  assumes "freq_wf d" "freq_wf d'" "\<And>f. freq d f = freq d' f" "dom (db_lookup d) = dom (db_lookup d')"
  shows "d = d'"
proof -
  have "db_lookup d k = db_lookup d' k" for k
  proof (cases "db_lookup d k")
    case None
    then show ?thesis using assms(4) by (metis domIff)
  next
    case (Some v)
    then obtain v' where v': "db_lookup d' k = Some v'" using assms(4) by (metis domD domI)
    have len: "length v = 8" "length v' = 8" using assms(1,2) Some v' by (auto simp: freq_wf_def)
    have "u64_read v = u64_read v'" using assms(3) [of k] Some v' by (simp add: freq_def)
    then have "v = v'" using u64_bytes_read [OF len(1)] u64_bytes_read [OF len(2)] by metis
    then show ?thesis using Some v' by simp
  qed
  then have "entries d = entries d'"
    using assms(1,2) by (intro kv.scan_unique) (auto simp: freq_wf_def db_wf_def)
  moreover have "get_err d = get_err d'" "write_err d = write_err d'"
    using assms(1,2) by (simp_all add: freq_wf_def reliable_def)
  ultimately show ?thesis by (simp add: kvdb.equality)
qed

lemma basic_count_mset:
  assumes m: "mset (trace_fps f) = mset (trace_fps g)"
  shows "basic_read_hashes f db_empty = basic_read_hashes g db_empty"
proof -
  obtain d where d: "basic_read_hashes f db_empty = Ok d" "freq_wf d"
      "\<And>x. freq d x = of_nat (count_list (trace_fps f) x)" "dom (db_lookup d) = set (trace_fps f)"
    using basic_fold_freq [OF freq_wf_empty, of "trace_fps f"] by (auto simp: basic_read_hashes_fold)
  obtain d' where d': "basic_read_hashes g db_empty = Ok d'" "freq_wf d'"
      "\<And>x. freq d' x = of_nat (count_list (trace_fps g) x)" "dom (db_lookup d') = set (trace_fps g)"
    using basic_fold_freq [OF freq_wf_empty, of "trace_fps g"] by (auto simp: basic_read_hashes_fold)
  have "count_list (trace_fps f) x = count_list (trace_fps g) x" for x
    using m by (metis count_mset)
  moreover have "set (trace_fps f) = set (trace_fps g)" using m by (metis set_mset_mset)
  ultimately have "d = d'" using d d' by (intro freq_db_unique) simp_all
  then show ?thesis using d(1) d'(1) by simp
qed

section \<open>The counter\<close>

text \<open>
  C11. The basic counter is correct: run on any file from an empty, error-free database it succeeds;
  afterwards the stored number of every fingerprint is its number of occurrences in the trace
  (modulo \<open>2^64\<close>), and exactly the fingerprints of the trace are stored.
\<close>

theorem basic_count_correct:
  "\<exists>db. basic_read_hashes file db_empty = Ok db
    \<and> (\<forall>f. freq db f = of_nat (count_list (trace_fps file) f))
    \<and> dom (db_lookup db) = set (trace_fps file) \<and> db_wf db"
proof -
  obtain db where db: "res_fold basic_count_chunk (trace_fps file) db_empty = Ok db" "freq_wf db"
      "\<forall>f. freq db f = freq db_empty f + of_nat (count_list (trace_fps file) f)"
      "dom (db_lookup db) = dom (db_lookup db_empty) \<union> set (trace_fps file)"
    using basic_fold_freq [OF freq_wf_empty] by blast
  then show ?thesis by (simp add: basic_read_hashes_fold freq_wf_def)
qed

text \<open>
  A failing lookup is not distinguished from a missing key: when \<open>Get\<close> reports an error for a
  stored fingerprint while writing works, the stored number is overwritten by 1.
\<close>

lemma basic_count_error_resets:
  assumes "get_err db key = Some e" "e \<noteq> OK" "write_err db key = None"
  shows "\<exists>db'. basic_count_chunk key db = Ok db' \<and> db_lookup db' key = Some (u64_bytes 1)"
  using assms
  by (simp add: basic_count_chunk_def db_get_def db_put_def is_ok_def map_of_kv_insert)

lemma basic_count_error_resets_witness:
  "\<exists>db'. basic_count_chunk [1, 2, 3, 4, 5, 6]
      \<lparr>entries = [([1, 2, 3, 4, 5, 6], u64_bytes 7)], get_err = \<lambda>_. Some IOError, write_err = \<lambda>_. None\<rparr> = Ok db'
    \<and> db_lookup db' [1, 2, 3, 4, 5, 6] = Some (u64_bytes 1)"
  by (rule basic_count_error_resets [where e = IOError]) simp_all

end
