(* ===== verification/LocalityCount.thy ===== *)
theory LocalityCount
  imports BasicCount
begin

text \<open>
  \<open>attack/locality/locality_count.cc\<close> (and its verbatim copies in \<open>defense/\<close>): the counter of the
  locality-based attack. Besides the frequency database it keeps, per fingerprint, a table of the
  left and one of the right neighbours with their co-occurrence counts. A table is one value: a
  sequence of 14-byte records, the 6-byte neighbour followed by an 8-byte counter.
\<close>

abbreviation REC :: nat where "REC \<equiv> 14"  \<comment> \<open>\<open>FP_SIZE + sizeof(uint64_t)\<close>\<close>

record lc_state =
  lc_db :: kvdb
  store_left :: kvdb
  store_right :: kvdb
  lc_last :: bytes
  lc_flag :: bool

section \<open>The counter\<close>

text \<open>The frequency part: unlike the basic counter, an error other than \<open>NotFound\<close> ends the run.\<close>

definition lc_count_chunk :: "bytes \<Rightarrow> kvdb \<Rightarrow> kvdb res" where
  "lc_count_chunk key db =
     (let (st, existing_value) = db_get db key [] in
      if is_ok st then
        res_bind (u64_at existing_value 0) (\<lambda>count.
          let db1 = snd (db_delete db key)
          in Ok (snd (db_put db1 key (u64_bytes (count + 1)))))
      else if is_not_found st then Ok (snd (db_put db key (u64_bytes 1)))
      else Err (Exit 1))"

text \<open>
  The scan \<open>while ((unsigned int)pos < existing_value.size() - 1)\<close> for a record of the neighbour;
  \<open>size() - 1\<close> wraps for an empty string, and \<open>memcmp\<close> past the end is undefined.
\<close>

function nb_scan :: "bytes \<Rightarrow> bytes \<Rightarrow> nat \<Rightarrow> nat option res" where
  "nb_scan v nb pos =
     (if length v = 0 \<or> pos < length v - 1 then
        (if pos + FP_SIZE \<le> length v then
           (if take FP_SIZE (drop pos v) = nb then Ok (Some pos) else nb_scan v nb (pos + REC))
         else Err Undefined)
      else Ok None)"
  by pat_completeness auto
termination by (relation "measure (\<lambda>(v, _, pos). length v - pos)") auto

declare nb_scan.simps [simp del]

text \<open>Append a fresh record, or increment the counter of the one found.\<close>

definition nb_add :: "bytes \<Rightarrow> bytes \<Rightarrow> bytes res" where
  "nb_add v nb =
     res_bind (nb_scan v nb 0) (\<lambda>r.
       case r of
         None \<Rightarrow> Ok (v @ nb @ u64_bytes 1)
       | Some pos \<Rightarrow>
           res_bind (u64_at v (pos + FP_SIZE)) (\<lambda>icm.
             Ok (take (pos + FP_SIZE) v @ u64_bytes (icm + 1) @ drop (pos + REC) v)))"

definition lc_count_nb :: "bytes \<Rightarrow> bytes \<Rightarrow> kvdb \<Rightarrow> kvdb res" where
  "lc_count_nb key nb db =
     (let (st, existing_value) = db_get db key [] in
      if is_ok st then
        res_bind (nb_add existing_value nb) (\<lambda>v.
          let db1 = snd (db_delete db key) in Ok (snd (db_put db1 key v)))
      else if is_not_found st then Ok (snd (db_put db key (nb @ u64_bytes 1)))
      else Err (Exit 1))"

text \<open>\<open>last_value.assign(last)\<close> and \<open>next_value.assign(hash)\<close> take the arrays for C strings.\<close>

definition lc_count_left :: "bytes \<Rightarrow> lc_state \<Rightarrow> lc_state res" where
  "lc_count_left hash s =
     res_bind (lc_count_nb hash (assign_resize (lc_last s)) (store_left s))
       (\<lambda>d. Ok (s\<lparr>store_left := d\<rparr>))"

definition lc_count_right :: "bytes \<Rightarrow> lc_state \<Rightarrow> lc_state res" where
  "lc_count_right hash s =
     res_bind (lc_count_nb (lc_last s) (assign_resize hash) (store_right s))
       (\<lambda>d. Ok (s\<lparr>store_right := d\<rparr>))"

definition lc_step :: "bytes \<Rightarrow> lc_state \<Rightarrow> lc_state res" where
  "lc_step hash s =
     res_bind (lc_count_chunk hash (lc_db s)) (\<lambda>d.
     let s1 = s\<lparr>lc_db := d\<rparr> in
     res_bind (if lc_flag s1 then res_bind (lc_count_left hash s1) (lc_count_right hash) else Ok s1)
       (\<lambda>s2. Ok (s2\<lparr>lc_last := hash, lc_flag := True\<rparr>)))"

text \<open>\<open>read_hashes\<close> starts with no previous chunk.\<close>

definition lc_read_hashes :: "string \<Rightarrow> kvdb \<Rightarrow> kvdb \<Rightarrow> kvdb \<Rightarrow> lc_state res" where
  "lc_read_hashes file db left right =
     res_fold (\<lambda>read_buffer s.
        if is_title read_buffer then Ok s else lc_step (fst (parse_hash read_buffer)) s)
      (fgets_lines file)
      \<lparr>lc_db = db, store_left = left, store_right = right,
       lc_last = replicate FP_SIZE 0, lc_flag = False\<rparr>"

section \<open>Neighbour tables\<close>

text \<open>The contents of a table, and the table that stores given contents.\<close>

function nb_decode :: "bytes \<Rightarrow> (bytes \<times> 64 word) list" where
  "nb_decode v =
     (if length v < REC then []
      else (take FP_SIZE v, u64_read (drop FP_SIZE v)) # nb_decode (drop REC v))"
  by pat_completeness auto
termination by (relation "measure length") auto

declare nb_decode.simps [simp del]

definition nb_encode :: "(bytes \<times> 64 word) list \<Rightarrow> bytes" where
  "nb_encode es = concat (map (\<lambda>(k, c). k @ u64_bytes c) es)"

fun nb_bump :: "bytes \<Rightarrow> (bytes \<times> 64 word) list \<Rightarrow> (bytes \<times> 64 word) list" where
  "nb_bump nb [] = [(nb, 1)]"
| "nb_bump nb ((k, c) # es) = (if k = nb then (k, c + 1) # es else (k, c) # nb_bump nb es)"

definition nb_recs :: "(bytes \<times> 64 word) list \<Rightarrow> bool" where
  "nb_recs es \<longleftrightarrow> (\<forall>e \<in> set es. length (fst e) = FP_SIZE)"

lemma nb_encode_simps [simp]:
  "nb_encode [] = []" "nb_encode ((k, c) # es) = k @ u64_bytes c @ nb_encode es"
  "nb_encode (es @ fs) = nb_encode es @ nb_encode fs"
  by (simp_all add: nb_encode_def)

lemma nb_recs_simps [simp]:
  "nb_recs []" "nb_recs ((k, c) # es) \<longleftrightarrow> length k = FP_SIZE \<and> nb_recs es"
  by (auto simp: nb_recs_def)

lemma nb_decode_encode [simp]: "nb_recs es \<Longrightarrow> nb_decode (nb_encode es) = es"
  by (induction es) (auto simp: nb_decode.simps [of "[]"] nb_decode.simps [of "a @ b" for a b])

lemma length_nb_encode: "nb_recs es \<Longrightarrow> length (nb_encode es) = REC * length es"
  by (induction es) auto

text \<open>The scan over an encoded table, from a record boundary on.\<close>

lemma nb_scan_miss:
  "nb_recs es \<Longrightarrow> nb \<notin> fst ` set es \<Longrightarrow> pre @ nb_encode es \<noteq> [] \<Longrightarrow>
   nb_scan (pre @ nb_encode es) nb (length pre) = Ok None"
proof (induction es arbitrary: pre)
  case Nil
  then show ?case by (subst nb_scan.simps) auto
next
  case (Cons e es)
  obtain k c where e: "e = (k, c)" by (cases e)
  have "nb_scan ((pre @ k @ u64_bytes c) @ nb_encode es) nb (length (pre @ k @ u64_bytes c)) = Ok None"
    by (rule Cons.IH) (use Cons.prems e in auto)
  then show ?case
    using Cons.prems e by (subst nb_scan.simps) (auto simp: ac_simps)
qed

lemma nb_scan_hit:
  "nb_recs es \<Longrightarrow> nb \<notin> fst ` set es \<Longrightarrow> length nb = FP_SIZE \<Longrightarrow>
   nb_scan (pre @ nb_encode es @ nb @ u64_bytes c @ post) nb (length pre)
     = Ok (Some (length pre + length (nb_encode es)))"
proof (induction es arbitrary: pre)
  case Nil
  then show ?case by (subst nb_scan.simps) auto
next
  case (Cons e es)
  obtain k d where e: "e = (k, d)" by (cases e)
  have "nb_scan ((pre @ k @ u64_bytes d) @ nb_encode es @ nb @ u64_bytes c @ post) nb
      (length (pre @ k @ u64_bytes d)) = Ok (Some (length (pre @ k @ u64_bytes d) + length (nb_encode es)))"
    by (rule Cons.IH) (use Cons.prems e in auto)
  then show ?case
    using Cons.prems e by (subst nb_scan.simps) (auto simp: ac_simps)
qed

lemma nb_bump_miss: "nb \<notin> fst ` set es \<Longrightarrow> nb_bump nb es = es @ [(nb, 1)]"
  by (induction nb es rule: nb_bump.induct) auto

lemma nb_bump_hit: "nb \<notin> fst ` set es \<Longrightarrow> nb_bump nb (es @ (nb, c) # fs) = es @ (nb, c + 1) # fs"
  by (induction nb es rule: nb_bump.induct) auto

lemma nb_recs_append [simp]: "nb_recs (es @ fs) \<longleftrightarrow> nb_recs es \<and> nb_recs fs"
  by (auto simp: nb_recs_def)

text \<open>On a well-formed table \<open>nb_add\<close> is the increment of one counter.\<close>

lemma nb_add_encode:
  assumes es: "nb_recs es" "es \<noteq> []" and nb: "length nb = FP_SIZE"
  shows "nb_add (nb_encode es) nb = Ok (nb_encode (nb_bump nb es))"
proof (cases "nb \<in> fst ` set es")
  case False
  have "nb_encode es \<noteq> []" using es by (cases es) (auto simp: nb_encode_def)
  then have "nb_scan ([] @ nb_encode es) nb (length ([] :: bytes)) = Ok None"
    using es(1) False by (intro nb_scan_miss) auto
  then show ?thesis using False by (simp add: nb_add_def nb_bump_miss)
next
  case True
  then obtain ys c zs where split: "es = ys @ (nb, c) # zs" and ys: "nb \<notin> fst ` set ys"
  proof -
    have "\<exists>e \<in> set es. fst e = nb" using True by auto
    then obtain ys y zs where "es = ys @ y # zs" "fst y = nb" "\<forall>e \<in> set ys. fst e \<noteq> nb"
      using split_list_first_prop [of es "\<lambda>e. fst e = nb"] by blast
    then show thesis by (intro that [of ys "snd y" zs]) auto
  qed
  have "nb_recs ys" using es(1) split by simp
  then have "nb_scan ([] @ nb_encode ys @ nb @ u64_bytes c @ nb_encode zs) nb (length ([] :: bytes))
      = Ok (Some (length ([] :: bytes) + length (nb_encode ys)))"
    using nb ys by (intro nb_scan_hit) auto
  then have scan: "nb_scan (nb_encode es) nb 0 = Ok (Some (length (nb_encode ys)))"
    by (simp add: split)
  have "u64_at (nb_encode es) (length (nb_encode ys) + FP_SIZE) = Ok c"
    using nb by (simp add: split u64_at_def)
  then show ?thesis
    using nb ys scan by (simp add: nb_add_def split nb_bump_hit)
qed

definition nb_lookup :: "(bytes \<times> 64 word) list \<Rightarrow> bytes \<Rightarrow> 64 word" where
  "nb_lookup es p = (case map_of es p of None \<Rightarrow> 0 | Some c \<Rightarrow> c)"

lemma nb_lookup_bump: "nb_lookup (nb_bump nb es) p = nb_lookup es p + (if p = nb then 1 else 0)"
  by (induction nb es rule: nb_bump.induct) (auto simp: nb_lookup_def)

lemma nb_recs_bump: "nb_recs es \<Longrightarrow> length nb = FP_SIZE \<Longrightarrow> nb_recs (nb_bump nb es)"
  by (induction nb es rule: nb_bump.induct) auto

lemma nb_bump_not_Nil [simp]: "nb_bump nb es \<noteq> []"
  by (cases "(nb, es)" rule: nb_bump.cases) auto

lemma fst_nb_bump: "fst ` set (nb_bump nb es) = insert nb (fst ` set es)"
  by (induction nb es rule: nb_bump.induct) auto

lemma distinct_nb_bump: "distinct (map fst es) \<Longrightarrow> distinct (map fst (nb_bump nb es))"
  by (induction nb es rule: nb_bump.induct) (auto simp: fst_nb_bump)

section \<open>Neighbour databases\<close>

definition nb_table :: "kvdb \<Rightarrow> bytes \<Rightarrow> (bytes \<times> 64 word) list" where
  "nb_table db key = (case db_lookup db key of None \<Rightarrow> [] | Some v \<Rightarrow> nb_decode v)"

text \<open>How often a neighbour is recorded for a key.\<close>

definition nbr :: "kvdb \<Rightarrow> bytes \<Rightarrow> bytes \<Rightarrow> 64 word" where
  "nbr db key p = nb_lookup (nb_table db key) p"

definition nb_wf :: "kvdb \<Rightarrow> bool" where
  "nb_wf db \<longleftrightarrow> reliable db \<and> db_wf db \<and>
     (\<forall>k v. db_lookup db k = Some v \<longrightarrow>
        (\<exists>es. v = nb_encode es \<and> nb_recs es \<and> es \<noteq> [] \<and> distinct (map fst es)))"

lemma nb_wf_empty [simp]: "nb_wf db_empty"
  by (simp add: nb_wf_def)

lemma nbr_empty [simp]: "nbr db_empty k p = 0"
  by (simp add: nbr_def nb_table_def nb_lookup_def)

lemma nb_wf_put:
  assumes "nb_wf db" "nb_recs es" "es \<noteq> []" "distinct (map fst es)"
  shows "nb_wf (snd (db_put db k (nb_encode es)))"
  using assms by (auto simp: nb_wf_def)

lemma nb_wf_delete: "nb_wf db \<Longrightarrow> nb_wf (snd (db_delete db k))"
  by (auto simp: nb_wf_def)

lemma nb_wfD:
  assumes "nb_wf db" "db_lookup db k = Some v"
  shows "nb_recs (nb_decode v) \<and> distinct (map fst (nb_decode v)) \<and> v = nb_encode (nb_decode v)
    \<and> nb_decode v \<noteq> []"
proof -
  obtain es where "v = nb_encode es" "nb_recs es" "es \<noteq> []" "distinct (map fst es)"
    using assms unfolding nb_wf_def by blast
  then show ?thesis by simp
qed

lemma nb_wf_table:
  assumes "nb_wf db"
  shows "nb_recs (nb_table db k)" "distinct (map fst (nb_table db k))"
    "db_lookup db k = Some v \<Longrightarrow> v = nb_encode (nb_table db k) \<and> nb_table db k \<noteq> []"
  using nb_wfD [OF assms, of k] by (simp_all add: nb_table_def split: option.split)

lemma lc_count_nb_step:
  assumes wf: "nb_wf db" and nb: "length nb = FP_SIZE"
  shows "\<exists>db'. lc_count_nb key nb db = Ok db' \<and> nb_wf db'
    \<and> db_lookup db' = (db_lookup db)(key \<mapsto> nb_encode (nb_bump nb (nb_table db key)))"
proof -
  let ?v = "nb_encode (nb_bump nb (nb_table db key))"
  let ?db = "snd (db_put (if db_lookup db key = None then db else snd (db_delete db key)) key ?v)"
  have rel: "reliable db" using wf by (simp add: nb_wf_def)
  have "lc_count_nb key nb db = Ok ?db"
  proof (cases "db_lookup db key")
    case None
    then show ?thesis
      using rel by (simp add: lc_count_nb_def db_get_reliable is_ok_def is_not_found_def nb_table_def)
  next
    case (Some v)
    then have "nb_add v nb = Ok ?v"
      using nb_wf_table [OF wf] nb nb_add_encode by metis
    then show ?thesis
      using rel Some by (simp add: lc_count_nb_def db_get_reliable is_ok_def)
  qed
  moreover have "nb_wf ?db"
    using wf nb by (intro nb_wf_put)
      (auto simp: nb_wf_delete nb_recs_bump nb_wf_table distinct_nb_bump)
  moreover have "db_lookup ?db = (db_lookup db)(key \<mapsto> ?v)"
    using rel by auto
  ultimately show ?thesis by blast
qed

lemma nb_table_update:
  assumes "db_lookup db' = (db_lookup db)(key \<mapsto> nb_encode es)" "nb_recs es"
  shows "nb_table db' k = (if k = key then es else nb_table db k)"
  using assms by (simp add: nb_table_def)

lemma lc_count_nb_nbr:
  assumes "nb_wf db" "length nb = FP_SIZE" "lc_count_nb key nb db = Ok db'"
  shows "nbr db' k p = nbr db k p + (if k = key \<and> p = nb then 1 else 0)"
    and "fst ` set (nb_table db' k) = fst ` set (nb_table db k) \<union> (if k = key then {nb} else {})"
proof -
  have up: "db_lookup db' = (db_lookup db)(key \<mapsto> nb_encode (nb_bump nb (nb_table db key)))"
    using lc_count_nb_step [OF assms(1,2), of key] assms(3) by auto
  have "nb_recs (nb_bump nb (nb_table db key))"
    using assms(1,2) by (simp add: nb_recs_bump nb_wf_table)
  note tab = nb_table_update [OF up this]
  show "nbr db' k p = nbr db k p + (if k = key \<and> p = nb then 1 else 0)"
    by (auto simp: nbr_def tab nb_lookup_bump)
  show "fst ` set (nb_table db' k) = fst ` set (nb_table db k) \<union> (if k = key then {nb} else {})"
    by (auto simp: tab fst_nb_bump)
qed

section \<open>The whole trace\<close>

definition lc_wf :: "lc_state \<Rightarrow> bool" where
  "lc_wf s \<longleftrightarrow> freq_wf (lc_db s) \<and> nb_wf (store_left s) \<and> nb_wf (store_right s)"

text \<open>The pairs of adjacent chunks the loop sees, the remembered last chunk included.\<close>

definition adj :: "bool \<Rightarrow> bytes \<Rightarrow> bytes list \<Rightarrow> (bytes \<times> bytes) list" where
  "adj fl la fps = (if fl then zip (la # fps) fps else zip fps (tl fps))"

lemma adj_simps [simp]:
  "adj fl la [] = []" "adj fl la (x # xs) = (if fl then [(la, x)] else []) @ adj True x xs"
  by (simp_all add: adj_def)

definition pair_count :: "(bytes \<times> bytes \<Rightarrow> bool) \<Rightarrow> (bytes \<times> bytes) list \<Rightarrow> nat" where
  "pair_count P ps = length (filter P ps)"

lemma lc_count_chunk_basic: "reliable db \<Longrightarrow> lc_count_chunk key db = basic_count_chunk key db"
  by (auto simp: lc_count_chunk_def basic_count_chunk_def db_get_reliable is_ok_def
      is_not_found_def split: option.splits)

text \<open>One step: what it adds to each of the three databases.\<close>

lemma lc_step_spec:
  assumes "lc_wf s"
  shows "\<exists>s'. lc_step x s = Ok s' \<and> lc_wf s' \<and> lc_last s' = x \<and> lc_flag s'
    \<and> (\<forall>f. freq (lc_db s') f = freq (lc_db s) f + (if f = x then 1 else 0))
    \<and> dom (db_lookup (lc_db s')) = insert x (dom (db_lookup (lc_db s)))
    \<and> (\<forall>c p. nbr (store_left s') c p = nbr (store_left s) c p
         + (if lc_flag s \<and> c = x \<and> p = assign_resize (lc_last s) then 1 else 0))
    \<and> (\<forall>c p. nbr (store_right s') c p = nbr (store_right s) c p
         + (if lc_flag s \<and> c = lc_last s \<and> p = assign_resize x then 1 else 0))
    \<and> (\<forall>c. fst ` set (nb_table (store_left s') c) = fst ` set (nb_table (store_left s) c)
         \<union> (if lc_flag s \<and> c = x then {assign_resize (lc_last s)} else {}))
    \<and> (\<forall>c. fst ` set (nb_table (store_right s') c) = fst ` set (nb_table (store_right s) c)
         \<union> (if lc_flag s \<and> c = lc_last s then {assign_resize x} else {}))"
proof -
  have wf: "freq_wf (lc_db s)" "nb_wf (store_left s)" "nb_wf (store_right s)" "reliable (lc_db s)"
    using assms by (auto simp: lc_wf_def freq_wf_def)
  obtain d where d: "lc_count_chunk x (lc_db s) = Ok d" "freq_wf d"
    "db_lookup d = (db_lookup (lc_db s))(x \<mapsto> u64_bytes (freq (lc_db s) x + 1))"
    using basic_count_chunk_step [OF wf(1)] lc_count_chunk_basic [OF wf(4)] by metis
  obtain l where l: "lc_count_nb x (assign_resize (lc_last s)) (store_left s) = Ok l" "nb_wf l"
    using lc_count_nb_step [OF wf(2)] length_assign_resize by blast
  obtain r where r: "lc_count_nb (lc_last s) (assign_resize x) (store_right s) = Ok r" "nb_wf r"
    using lc_count_nb_step [OF wf(3)] length_assign_resize by blast
  have nl: "nbr l c p = nbr (store_left s) c p + (if c = x \<and> p = assign_resize (lc_last s) then 1 else 0)" for c p
    using lc_count_nb_nbr(1) [OF wf(2) _ l(1)] by simp
  have nr: "nbr r c p = nbr (store_right s) c p + (if c = lc_last s \<and> p = assign_resize x then 1 else 0)" for c p
    using lc_count_nb_nbr(1) [OF wf(3) _ r(1)] by simp
  have kl: "fst ` set (nb_table l c) = fst ` set (nb_table (store_left s) c)
      \<union> (if c = x then {assign_resize (lc_last s)} else {})" for c
    using lc_count_nb_nbr(2) [OF wf(2) _ l(1)] by simp
  have kr: "fst ` set (nb_table r c) = fst ` set (nb_table (store_right s) c)
      \<union> (if c = lc_last s then {assign_resize x} else {})" for c
    using lc_count_nb_nbr(2) [OF wf(3) _ r(1)] by simp
  show ?thesis
    using wf d(1,2) l r
    by (cases "lc_flag s")
      (simp_all add: lc_step_def lc_count_left_def lc_count_right_def lc_wf_def
        freq_update [OF d(3)] d(3) nl nr kl kr)
qed

text \<open>What the counter of a trace must have recorded, relative to the starting state.\<close>

definition lc_counts :: "lc_state \<Rightarrow> bytes list \<Rightarrow> lc_state \<Rightarrow> bool" where
  "lc_counts s fps s' \<longleftrightarrow>
     (\<forall>f. freq (lc_db s') f = freq (lc_db s) f + of_nat (count_list fps f)) \<and>
     dom (db_lookup (lc_db s')) = dom (db_lookup (lc_db s)) \<union> set fps \<and>
     (\<forall>c p. nbr (store_left s') c p = nbr (store_left s) c p
        + of_nat (pair_count (\<lambda>(a, b). b = c \<and> assign_resize a = p) (adj (lc_flag s) (lc_last s) fps))) \<and>
     (\<forall>c p. nbr (store_right s') c p = nbr (store_right s) c p
        + of_nat (pair_count (\<lambda>(a, b). a = c \<and> assign_resize b = p) (adj (lc_flag s) (lc_last s) fps))) \<and>
     (\<forall>c. fst ` set (nb_table (store_left s') c) = fst ` set (nb_table (store_left s) c)
        \<union> {assign_resize a | a. (a, c) \<in> set (adj (lc_flag s) (lc_last s) fps)}) \<and>
     (\<forall>c. fst ` set (nb_table (store_right s') c) = fst ` set (nb_table (store_right s) c)
        \<union> {assign_resize b | b. (c, b) \<in> set (adj (lc_flag s) (lc_last s) fps)})"

lemma lc_fold_counts:
  "lc_wf s \<Longrightarrow> \<exists>s'. res_fold lc_step fps s = Ok s' \<and> lc_wf s' \<and> lc_counts s fps s'"
proof (induction fps arbitrary: s)
  case Nil
  then show ?case by (simp add: lc_counts_def pair_count_def)
next
  case (Cons x fps)
  obtain s1 where s1: "lc_step x s = Ok s1" "lc_wf s1" "lc_last s1 = x" "lc_flag s1"
    "\<forall>f. freq (lc_db s1) f = freq (lc_db s) f + (if f = x then 1 else 0)"
    "dom (db_lookup (lc_db s1)) = insert x (dom (db_lookup (lc_db s)))"
    "\<forall>c p. nbr (store_left s1) c p = nbr (store_left s) c p
         + (if lc_flag s \<and> c = x \<and> p = assign_resize (lc_last s) then 1 else 0)"
    "\<forall>c p. nbr (store_right s1) c p = nbr (store_right s) c p
         + (if lc_flag s \<and> c = lc_last s \<and> p = assign_resize x then 1 else 0)"
    "\<forall>c. fst ` set (nb_table (store_left s1) c) = fst ` set (nb_table (store_left s) c)
         \<union> (if lc_flag s \<and> c = x then {assign_resize (lc_last s)} else {})"
    "\<forall>c. fst ` set (nb_table (store_right s1) c) = fst ` set (nb_table (store_right s) c)
         \<union> (if lc_flag s \<and> c = lc_last s then {assign_resize x} else {})"
    using lc_step_spec [OF Cons.prems, of x] by (elim exE conjE) (rule that)
  obtain s2 where s2: "res_fold lc_step fps s1 = Ok s2" "lc_wf s2" "lc_counts s1 fps s2"
    using Cons.IH [OF s1(2)] by blast
  have "lc_counts s (x # fps) s2"
    unfolding lc_counts_def
  proof (intro conjI allI)
    fix c
    show "fst ` set (nb_table (store_left s2) c) = fst ` set (nb_table (store_left s) c)
        \<union> {assign_resize a | a. (a, c) \<in> set (adj (lc_flag s) (lc_last s) (x # fps))}"
      using s2(3) s1(3,4,9) by (auto simp: lc_counts_def)
    show "fst ` set (nb_table (store_right s2) c) = fst ` set (nb_table (store_right s) c)
        \<union> {assign_resize b | b. (c, b) \<in> set (adj (lc_flag s) (lc_last s) (x # fps))}"
      using s2(3) s1(3,4,10) by (auto simp: lc_counts_def)
  qed (use s2(3) s1(3-8) in \<open>auto simp: lc_counts_def pair_count_def\<close>)
  with s1(1) s2(1,2) show ?case by simp
qed

lemma lc_read_hashes_fold:
  "lc_read_hashes file db left right =
     res_fold lc_step (trace_fps file)
      \<lparr>lc_db = db, store_left = left, store_right = right,
       lc_last = replicate FP_SIZE 0, lc_flag = False\<rparr>"
  by (simp add: lc_read_hashes_def trace_fps_def res_fold_trace)

section \<open>The counter\<close>

lemma lc_read_hashes_counts:
  "\<exists>s. lc_read_hashes file db_empty db_empty db_empty = Ok s \<and> lc_wf s
    \<and> (\<forall>f. freq (lc_db s) f = of_nat (count_list (trace_fps file) f))
    \<and> dom (db_lookup (lc_db s)) = set (trace_fps file)
    \<and> (\<forall>c p. nbr (store_left s) c p = of_nat (pair_count (\<lambda>(a, b). b = c \<and> assign_resize a = p)
         (zip (trace_fps file) (tl (trace_fps file)))))
    \<and> (\<forall>c p. nbr (store_right s) c p = of_nat (pair_count (\<lambda>(a, b). a = c \<and> assign_resize b = p)
         (zip (trace_fps file) (tl (trace_fps file)))))"
proof -
  let ?s0 = "\<lparr>lc_db = db_empty, store_left = db_empty, store_right = db_empty,
       lc_last = replicate FP_SIZE 0, lc_flag = False\<rparr>"
  have "lc_wf ?s0" by (simp add: lc_wf_def)
  then obtain s where "lc_read_hashes file db_empty db_empty db_empty = Ok s" "lc_wf s"
      "lc_counts ?s0 (trace_fps file) s"
    using lc_fold_counts [of ?s0 "trace_fps file"] lc_read_hashes_fold by metis
  then show ?thesis by (intro exI [of _ s]) (simp add: lc_counts_def adj_def)
qed


lemma pair_count_cong:
  "(\<And>p. p \<in> set ps \<Longrightarrow> P p = Q p) \<Longrightarrow> pair_count P ps = pair_count Q ps"
  by (simp add: pair_count_def cong: filter_cong)

lemma assign_resize_trace:
  "nul_free_trace (trace_fps file) \<Longrightarrow> f \<in> set (trace_fps file) \<Longrightarrow> assign_resize f = f"
  using trace_fps_fp by (auto simp: nul_free_trace_def list_all_iff intro: assign_resize_nul_free)



text \<open>
  C16. A NUL byte inside a fingerprint corrupts the neighbour databases: on the two-chunk trace \<open>a, b\<close>
  where \<open>a\<close> is not determined by its bytes before the first NUL, \<open>a\<close> is not recorded as the left
  neighbour of \<open>b\<close>, although it precedes it; a truncated fingerprint is recorded instead.
\<close>

theorem truncated_neighbour:
  assumes "is_fp a" "is_fp b" "assign_resize a \<noteq> a"
    and "lc_read_hashes (print_trace [(a, m), (b, n)]) db_empty db_empty db_empty = Ok s"
  shows "nbr (store_left s) b a = 0 \<and> nbr (store_left s) b (assign_resize a) = 1"
  using lc_read_hashes_counts [of "print_trace [(a, m), (b, n)]"] assms
  by (auto simp: trace_fps_print_trace pair_count_def)

theorem truncated_neighbour_witness:
  "\<exists>s. lc_read_hashes (print_trace [([1, 0, 2, 3, 4, 5], 8), ([6, 7, 8, 9, 10, 11], 8)]) db_empty db_empty db_empty = Ok s
    \<and> nbr (store_left s) [6, 7, 8, 9, 10, 11] [1, 0, 2, 3, 4, 5] = 0
    \<and> nbr (store_left s) [6, 7, 8, 9, 10, 11] [1, 0, 0, 0, 0, 0] = 1"
proof -
  have r: "assign_resize [1, 0, 2, 3, 4, 5] = [1, 0, 0, 0, 0, 0]" by code_simp
  obtain s where "lc_read_hashes (print_trace [([1, 0, 2, 3, 4, 5], 8), ([6, 7, 8, 9, 10, 11], 8)])
      db_empty db_empty db_empty = Ok s"
    using lc_read_hashes_counts by blast
  then show ?thesis
    using truncated_neighbour [of "[1, 0, 2, 3, 4, 5]" "[6, 7, 8, 9, 10, 11]"] r
    by (auto simp: is_fp_def)
qed

end
