(* ===== verification/PQueue.thy ===== *)
theory PQueue
  imports Prelude
begin

text \<open>
  \<open>std::priority_queue<T, vector<T>, Compare>\<close>: a binary heap in a vector, kept by the library's
  \<open>push_heap\<close> and \<open>pop_heap\<close>. The comparison is a parameter (\<open>cmp a b\<close>: \<open>a\<close> goes below \<open>b\<close>), and
  \<open>top\<close> is an element that is below no other. The contract is the locale \<open>prio_queue\<close>; the heap
  satisfies it for every comparison that is a strict weak order.
\<close>

section \<open>The contract\<close>

locale weak_order =
  fixes cmp :: "'a \<Rightarrow> 'a \<Rightarrow> bool"
  assumes cmp_asym: "cmp a b \<Longrightarrow> \<not> cmp b a"
    and cmp_neg_trans: "\<not> cmp a b \<Longrightarrow> \<not> cmp b c \<Longrightarrow> \<not> cmp a c"
begin

lemma cmp_irrefl [simp]: "\<not> cmp a a"
  using cmp_asym by blast

end

locale prio_queue = weak_order cmp for cmp :: "'a \<Rightarrow> 'a \<Rightarrow> bool" +
  fixes push :: "'a \<Rightarrow> 'q \<Rightarrow> 'q"
    and pop :: "'q \<Rightarrow> 'q"
    and top :: "'q \<Rightarrow> 'a"
    and elems :: "'q \<Rightarrow> 'a multiset"
    and invar :: "'q \<Rightarrow> bool"
  assumes elems_push: "invar q \<Longrightarrow> elems (push x q) = add_mset x (elems q)"
    and elems_pop: "invar q \<Longrightarrow> elems q \<noteq> {#} \<Longrightarrow> elems (pop q) = elems q - {#top q#}"
    and top_in: "invar q \<Longrightarrow> elems q \<noteq> {#} \<Longrightarrow> top q \<in># elems q"
    and top_max: "invar q \<Longrightarrow> x \<in># elems q \<Longrightarrow> \<not> cmp (top q) x"
    and invar_push: "invar q \<Longrightarrow> invar (push x q)"
    and invar_pop: "invar q \<Longrightarrow> elems q \<noteq> {#} \<Longrightarrow> invar (pop q)"

section \<open>The heap of the library\<close>

text \<open>\<open>__push_heap(first, hole, 0, value)\<close>: move the hole up while its parent is below the value.\<close>

function sift_up :: "('a \<Rightarrow> 'a \<Rightarrow> bool) \<Rightarrow> 'a list \<Rightarrow> nat \<Rightarrow> 'a \<Rightarrow> 'a list" where
  "sift_up cmp v hole x =
     (let p = (hole - 1) div 2 in
      if 0 < hole \<and> cmp (v ! p) x then sift_up cmp (v[hole := v ! p]) p x
      else v[hole := x])"
  by pat_completeness auto
termination by (relation "measure (\<lambda>(_, _, hole, _). hole)") auto

declare sift_up.simps [simp del]

text \<open>
  The loop of \<open>__adjust_heap(first, hole, len, value)\<close>: move the hole down to a leaf, always to
  the child that is not below the other. It returns the vector and the leaf.
\<close>

function sift_down :: "('a \<Rightarrow> 'a \<Rightarrow> bool) \<Rightarrow> 'a list \<Rightarrow> nat \<Rightarrow> 'a list \<times> nat" where
  "sift_down cmp v hole =
     (let len = length v; r = 2 * hole + 2 in
      if r < len then
        (let c = (if cmp (v ! r) (v ! (r - 1)) then r - 1 else r)
         in sift_down cmp (v[hole := v ! c]) c)
      else if r = len then (v[hole := v ! (r - 1)], r - 1)
      else (v, hole))"
  by pat_completeness auto
termination by (relation "measure (\<lambda>(_, v, hole). length v - hole)") (auto split: if_splits)

declare sift_down.simps [simp del]

definition pq_push :: "('a \<Rightarrow> 'a \<Rightarrow> bool) \<Rightarrow> 'a \<Rightarrow> 'a list \<Rightarrow> 'a list" where
  "pq_push cmp x v = sift_up cmp (v @ [x]) (length v) x"

text \<open>\<open>pop_heap\<close> and \<open>pop_back\<close>: the last element is put in place of the first.\<close>

definition pq_pop :: "('a \<Rightarrow> 'a \<Rightarrow> bool) \<Rightarrow> 'a list \<Rightarrow> 'a list" where
  "pq_pop cmp v =
     (if length v \<le> 1 then []
      else (let (w, hole) = sift_down cmp (butlast v) 0 in sift_up cmp w hole (last v)))"

abbreviation pq_top :: "'a list \<Rightarrow> 'a" where "pq_top \<equiv> hd"

definition is_heap :: "('a \<Rightarrow> 'a \<Rightarrow> bool) \<Rightarrow> 'a list \<Rightarrow> bool" where
  "is_heap cmp v \<longleftrightarrow> (\<forall>i. 0 < i \<and> i < length v \<longrightarrow> \<not> cmp (v ! ((i - 1) div 2)) (v ! i))"

lemma length_sift_up [simp]: "length (sift_up cmp v hole x) = length v"
proof (induction cmp v hole x rule: sift_up.induct)
  case (1 cmp v hole x)
  then show ?case by (subst sift_up.simps) (auto simp: Let_def)
qed

lemma mset_sift_up: "hole < length v \<Longrightarrow> mset (sift_up cmp v hole x) = mset (v[hole := x])"
proof (induction cmp v hole x rule: sift_up.induct)
  case (1 cmp v hole x)
  let ?p = "(hole - 1) div 2"
  show ?case
  proof (cases "0 < hole \<and> cmp (v ! ?p) x")
    case True
    then have "mset (sift_up cmp v hole x) = mset (v[hole := v ! ?p, ?p := x])"
      using 1 by (subst sift_up.simps) (simp add: Let_def)
    then show ?thesis using 1(2) by (simp add: mset_update_swap)
  next
    case False
    then show ?thesis by (subst sift_up.simps) (auto simp: Let_def)
  qed
qed

lemma sift_down_spec:
  assumes "sift_down cmp v hole = (w, h)" "hole < length v"
  shows "length w = length v \<and> h < length v \<and> length v \<le> 2 * h + 1
    \<and> mset (w[h := x]) = mset (v[hole := x])"
  using assms
proof (induction cmp v hole arbitrary: w h rule: sift_down.induct)
  case (1 cmp v hole)
  let ?r = "2 * hole + 2"
  let ?c = "if cmp (v ! ?r) (v ! (?r - 1)) then ?r - 1 else ?r"
  consider (two) "?r < length v" | (one) "?r = length v" | (leaf) "length v < ?r" by linarith
  then show ?case
  proof cases
    case two
    then have eq: "sift_down cmp (v[hole := v ! ?c]) ?c = (w, h)"
      using 1(2) by (subst (asm) sift_down.simps) (simp only: Let_def two if_True)
    have c: "?c < length v" using two by simp
    have "mset (v[hole := v ! ?c, ?c := x]) = mset (v[hole := x])"
      by (rule mset_update_swap) (use 1(3) c in auto)
    moreover have "?c < length (v[hole := v ! ?c])" using c by simp
    ultimately show ?thesis using 1(1) [OF refl refl two refl eq] by (simp only: length_list_update)
  next
    case one
    then have "sift_down cmp v hole = (v[hole := v ! (?r - 1)], ?r - 1)"
      by (subst sift_down.simps) (simp add: Let_def)
    then have "w = v[hole := v ! (?r - 1)]" "h = ?r - 1"
      using 1(2) by simp_all
    moreover have "mset (v[hole := v ! (?r - 1), ?r - 1 := x]) = mset (v[hole := x])"
      by (rule mset_update_swap) (use one 1(3) in auto)
    ultimately show ?thesis using one by simp
  next
    case leaf
    then have "sift_down cmp v hole = (v, hole)"
      by (subst sift_down.simps) (simp add: Let_def)
    then show ?thesis using leaf 1(2,3) by simp
  qed
qed

section \<open>The heap satisfies the contract\<close>

context weak_order
begin

text \<open>A heap but for the value \<open>x\<close> at \<open>hole\<close>, which may be too large for its place.\<close>

definition heap_hole :: "'a list \<Rightarrow> nat \<Rightarrow> 'a \<Rightarrow> bool" where
  "heap_hole v hole x \<longleftrightarrow>
     (\<forall>i. 0 < i \<and> i < length v \<and> i \<noteq> hole \<longrightarrow>
        \<not> cmp (v[hole := x] ! ((i - 1) div 2)) (v[hole := x] ! i)) \<and>
     (\<forall>c. 0 < hole \<and> 0 < c \<and> c < length v \<and> (c - 1) div 2 = hole \<longrightarrow>
        \<not> cmp (v ! ((hole - 1) div 2)) (v ! c))"

lemma heap_hole_step:
  assumes hole: "0 < hole" "hole < length v" and cmp: "cmp (v ! ((hole - 1) div 2)) x"
    and hh: "heap_hole v hole x"
  shows "heap_hole (v[hole := v ! ((hole - 1) div 2)]) ((hole - 1) div 2) x"
proof -
  define p where "p = (hole - 1) div 2"
  have p: "p < hole" "p < length v" using hole by (auto simp: p_def)
  have H1: "\<not> cmp (v[hole := x] ! ((i - 1) div 2)) (v[hole := x] ! i)"
    if "0 < i" "i < length v" "i \<noteq> hole" for i
    using hh that by (auto simp: heap_hole_def)
  have H2: "\<not> cmp (v ! p) (v ! c)" if "0 < c" "c < length v" "(c - 1) div 2 = hole" for c
    using hh that hole by (auto simp: heap_hole_def p_def)
  have up: "\<not> cmp x (v ! p)" using cmp by (auto simp: p_def dest: cmp_asym)
  have sib: "\<not> cmp (v ! p) (v ! i)" if "0 < i" "i < length v" "i \<noteq> hole" "(i - 1) div 2 = p" for i
    using H1 [OF that(1-3)] that p by simp
  have A: "\<not> cmp (v[hole := v ! p, p := x] ! ((i - 1) div 2)) (v[hole := v ! p, p := x] ! i)"
    if i: "0 < i" "i < length v" "i \<noteq> p" for i
  proof -
    consider (h) "i = hole" | (ch) "i \<noteq> hole" "(i - 1) div 2 = hole"
      | (sb) "i \<noteq> hole" "(i - 1) div 2 = p" | (other) "i \<noteq> hole" "(i - 1) div 2 \<noteq> hole" "(i - 1) div 2 \<noteq> p"
      by blast
    then show ?thesis
    proof cases
      case h
      then have "(i - 1) div 2 = p" by (simp add: p_def)
      then show ?thesis using h up p hole by simp
    next
      case ch
      then show ?thesis using H2 [of i] i p hole by simp
    next
      case sb
      then have "\<not> cmp x (v ! i)" using up sib [of i] i cmp_neg_trans by blast
      then show ?thesis using sb i p hole by simp
    next
      case other
      then show ?thesis using H1 [of i] i by simp
    qed
  qed
  have B: "\<not> cmp (v[hole := v ! p] ! ((p - 1) div 2)) (v[hole := v ! p] ! c)"
    if c: "0 < p" "0 < c" "c < length v" "(c - 1) div 2 = p" for c
  proof -
    have pp: "(p - 1) div 2 < p" using c(1) by auto
    have "\<not> cmp (v ! ((p - 1) div 2)) (v ! p)"
      using H1 [of p] c p pp by simp
    then have "\<not> cmp (v ! ((p - 1) div 2)) (v ! c)" if "c \<noteq> hole"
      using sib [of c] c that cmp_neg_trans by blast
    then show ?thesis
      using \<open>\<not> cmp (v ! ((p - 1) div 2)) (v ! p)\<close> pp p hole by (cases "c = hole") auto
  qed
  show ?thesis
    unfolding heap_hole_def p_def [symmetric] length_list_update
    by (intro conjI allI impI; elim conjE) (erule (2) A, erule (3) B)
qed

lemma is_heap_sift_up:
  "hole < length v \<Longrightarrow> heap_hole v hole x \<Longrightarrow> is_heap cmp (sift_up cmp v hole x)"
proof (induction hole arbitrary: v rule: less_induct)
  case (less hole)
  let ?p = "(hole - 1) div 2"
  show ?case
  proof (cases "0 < hole \<and> cmp (v ! ?p) x")
    case True
    then have "?p < hole" by auto
    moreover have "heap_hole (v[hole := v ! ?p]) ?p x"
      using True less.prems heap_hole_step by blast
    ultimately have "is_heap cmp (sift_up cmp (v[hole := v ! ?p]) ?p x)"
      using less.IH [of ?p "v[hole := v ! ?p]"] less.prems(1) by auto
    then show ?thesis using True by (subst sift_up.simps) (simp add: Let_def)
  next
    case False
    have "\<not> cmp (v[hole := x] ! ((i - 1) div 2)) (v[hole := x] ! i)" if "0 < i" "i < length v" for i
    proof (cases "i = hole")
      case True
      then have "?p \<noteq> hole" using that by auto
      then show ?thesis using False True that by simp
    next
      case False
      then show ?thesis using less.prems(2) that by (auto simp: heap_hole_def)
    qed
    moreover have "sift_up cmp v hole x = v[hole := x]"
      using False by (subst sift_up.simps) (auto simp: Let_def)
    ultimately show ?thesis by (simp add: is_heap_def)
  qed
qed

lemma is_heap_push: "is_heap cmp v \<Longrightarrow> is_heap cmp (pq_push cmp x v)"
proof -
  assume v: "is_heap cmp v"
  have upd: "(v @ [x])[length v := x] = v @ [x]" by simp
  have "\<not> cmp ((v @ [x]) ! ((i - 1) div 2)) ((v @ [x]) ! i)"
    if "0 < i" "i < length (v @ [x])" "i \<noteq> length v" for i
  proof -
    have "i < length v" "(i - 1) div 2 < length v" using that by auto
    then show ?thesis using v that(1) by (simp add: is_heap_def nth_append)
  qed
  moreover have "(c - 1) div 2 \<noteq> length v" if "0 < c" "c < length (v @ [x])" for c
    using that by auto
  ultimately have "heap_hole (v @ [x]) (length v) x"
    unfolding heap_hole_def upd by blast
  then show ?thesis unfolding pq_push_def by (intro is_heap_sift_up) simp_all
qed

text \<open>Copying the greater child into its parent keeps a heap a heap.\<close>

lemma is_heap_copy_child:
  assumes v: "is_heap cmp v" and c: "0 < c" "c < length v" "(c - 1) div 2 = h"
    and sib: "\<And>d. 0 < d \<Longrightarrow> d < length v \<Longrightarrow> (d - 1) div 2 = h \<Longrightarrow> \<not> cmp (v ! c) (v ! d)"
  shows "is_heap cmp (v[h := v ! c])"
  unfolding is_heap_def
proof (intro allI impI)
  fix i assume i: "0 < i \<and> i < length (v[h := v ! c])"
  have h: "h < c" "h < length v" using c by auto
  have up: "\<not> cmp (v ! ((j - 1) div 2)) (v ! j)" if "0 < j" "j < length v" for j
    using v that by (auto simp: is_heap_def)
  consider (h) "i = h" | (ch) "i \<noteq> h" "(i - 1) div 2 = h" | (other) "i \<noteq> h" "(i - 1) div 2 \<noteq> h"
    by blast
  then show "\<not> cmp (v[h := v ! c] ! ((i - 1) div 2)) (v[h := v ! c] ! i)"
  proof cases
    case h
    then have ne: "(h - 1) div 2 \<noteq> h" using i by auto
    have "\<not> cmp (v ! ((h - 1) div 2)) (v ! h)" using h i up [of h] by simp
    moreover have "\<not> cmp (v ! h) (v ! c)" using up [of c] c by simp
    ultimately have "\<not> cmp (v ! ((h - 1) div 2)) (v ! c)" by (rule cmp_neg_trans)
    then show ?thesis using h i ne by simp
  next
    case ch
    then show ?thesis using sib [of i] i h by simp
  next
    case other
    then show ?thesis using up [of i] i by simp
  qed
qed

lemma is_heap_sift_down:
  "is_heap cmp v \<Longrightarrow> hole < length v \<Longrightarrow> sift_down cmp v hole = (w, h) \<Longrightarrow> is_heap cmp w"
proof (induction "length v - hole" arbitrary: v hole rule: less_induct)
  case less
  let ?r = "2 * hole + 2"
  let ?c = "if cmp (v ! ?r) (v ! (?r - 1)) then ?r - 1 else ?r"
  have child: "d = ?r \<or> d = ?r - 1" if "0 < d" "(d - 1) div 2 = hole" for d
    using that by auto
  consider (two) "?r < length v" | (one) "?r = length v" | (leaf) "length v < ?r" by linarith
  then show ?case
  proof cases
    case two
    then have eq: "sift_down cmp (v[hole := v ! ?c]) ?c = (w, h)"
      using less.prems(3) by (subst (asm) sift_down.simps) (simp only: Let_def two if_True)
    have "is_heap cmp (v[hole := v ! ?c])"
    proof (rule is_heap_copy_child [OF less.prems(1)])
      show "\<not> cmp (v ! ?c) (v ! d)" if "0 < d" "d < length v" "(d - 1) div 2 = hole" for d
        using child [OF that(1,3)] cmp_asym by auto
    qed (use two in auto)
    note h = this
    show ?thesis by (rule less.hyps [OF _ h _ eq]) (use two in auto)
  next
    case one
    then have "w = v[hole := v ! (?r - 1)]"
      using less.prems(3) by (subst (asm) sift_down.simps) (auto simp: Let_def)
    moreover have "is_heap cmp (v[hole := v ! (?r - 1)])"
    proof (rule is_heap_copy_child [OF less.prems(1)])
      show "\<not> cmp (v ! (?r - 1)) (v ! d)" if "0 < d" "d < length v" "(d - 1) div 2 = hole" for d
        using child [OF that(1,3)] that(2) one by (metis cmp_irrefl less_irrefl)
    qed (use one in auto)
    ultimately show ?thesis by simp
  next
    case leaf
    then show ?thesis using less.prems(1,3) by (subst (asm) sift_down.simps) (simp add: Let_def)
  qed
qed

lemma is_heap_pop: "is_heap cmp v \<Longrightarrow> v \<noteq> [] \<Longrightarrow> is_heap cmp (pq_pop cmp v)"
proof -
  assume v: "is_heap cmp v" "v \<noteq> []"
  show ?thesis
  proof (cases "length v = 1")
    case True
    then show ?thesis by (cases v) (auto simp: pq_pop_def is_heap_def)
  next
    case False
    then have len: "0 < length (butlast v)" using v(2) by (cases v) auto
    obtain w h where wh: "sift_down cmp (butlast v) 0 = (w, h)" by fastforce
    have "is_heap cmp (butlast v)" using v(1) by (auto simp: is_heap_def nth_butlast)
    then have w: "is_heap cmp w" using len wh by (rule is_heap_sift_down)
    have h: "length w = length (butlast v)" "h < length w" "length w \<le> 2 * h + 1"
      using sift_down_spec [OF wh len] by auto
    have "heap_hole w h (last v)"
    proof -
      have "h \<noteq> (i - 1) div 2" if "0 < i" "i < length w" for i
        using that h by auto
      then show ?thesis using w by (auto simp: heap_hole_def is_heap_def)
    qed
    then have "is_heap cmp (sift_up cmp w h (last v))" using h by (intro is_heap_sift_up)
    moreover have "pq_pop cmp v = sift_up cmp w h (last v)"
      using len by (simp add: pq_pop_def wh)
    ultimately show ?thesis by simp
  qed
qed

end

lemma mset_push: "mset (pq_push cmp x v) = add_mset x (mset v)"
  by (simp add: pq_push_def mset_sift_up)

lemma length_push [simp]: "length (pq_push cmp x v) = Suc (length v)"
  by (simp add: pq_push_def)

lemma mset_pop: "v \<noteq> [] \<Longrightarrow> mset (pq_pop cmp v) = mset v - {#pq_top v#}"
proof (cases "length v = 1")
  case True
  then show ?thesis by (cases v) (auto simp: pq_pop_def)
next
  case False
  assume v: "v \<noteq> []"
  then have len: "0 < length (butlast v)" using False by (cases v) auto
  obtain w h where wh: "sift_down cmp (butlast v) 0 = (w, h)" by fastforce
  have "pq_pop cmp v = sift_up cmp w h (last v)"
    using len by (simp add: pq_pop_def wh)
  then have "mset (pq_pop cmp v) = mset ((butlast v)[0 := last v])"
    using sift_down_spec [OF wh len] by (simp add: mset_sift_up)
  also have "\<dots> = mset v - {#pq_top v#}"
  proof -
    obtain a u where "butlast v = a # u" using len by (cases "butlast v") auto
    then have "v = a # u @ [last v]" using append_butlast_last_id [OF v] by simp
    then obtain l where "v = a # u @ [l]" by blast
    then show ?thesis by (simp add: butlast_append)
  qed
  finally show ?thesis .
qed

context weak_order
begin

lemma heap_top_max: "is_heap cmp v \<Longrightarrow> i < length v \<Longrightarrow> \<not> cmp (v ! 0) (v ! i)"
proof (induction i rule: less_induct)
  case (less i)
  show ?case
  proof (cases "i = 0")
    case False
    then have p: "(i - 1) div 2 < i" by auto
    then have "\<not> cmp (v ! 0) (v ! ((i - 1) div 2))" using less by simp
    moreover have "\<not> cmp (v ! ((i - 1) div 2)) (v ! i)" using less.prems False by (simp add: is_heap_def)
    ultimately show ?thesis by (rule cmp_neg_trans)
  qed simp
qed

end

sublocale weak_order \<subseteq> heap: prio_queue cmp "pq_push cmp" "pq_pop cmp" pq_top mset "is_heap cmp"
proof
  fix q x assume q: "is_heap cmp q" "x \<in># mset q"
  then obtain i where "i < length q" "q ! i = x" by (auto simp: in_set_conv_nth)
  then show "\<not> cmp (pq_top q) x" using heap_top_max [OF q(1)] by (cases q) fastforce+
qed (auto simp: mset_push mset_pop is_heap_push is_heap_pop)

section \<open>Keeping the k best and draining\<close>

text \<open>
  The selection every analysis loop uses: push while fewer than \<open>k\<close> elements are held, otherwise
  replace the top when the new element beats it. \<open>top()\<close> of an empty queue (\<open>k = 0\<close>) is undefined.
\<close>

definition pq_offer :: "('a \<Rightarrow> 'a \<Rightarrow> bool) \<Rightarrow> ('a \<Rightarrow> 'a \<Rightarrow> bool) \<Rightarrow> nat \<Rightarrow> 'a \<Rightarrow> 'a list \<Rightarrow> 'a list res" where
  "pq_offer cmp beats k x v =
     (if length v < k then Ok (pq_push cmp x v)
      else if v = [] then Err Undefined
      else if beats x (pq_top v) then Ok (pq_push cmp x (pq_pop cmp v))
      else Ok v)"

lemma length_pop: "v \<noteq> [] \<Longrightarrow> Suc (length (pq_pop cmp v)) = length v"
proof -
  assume v: "v \<noteq> []"
  have "size (mset (pq_pop cmp v)) = length v - 1"
    using mset_pop [OF v, of cmp] v by (simp add: size_Diff_singleton)
  then show ?thesis using v by simp
qed

text \<open>\<open>while (!pq.empty()) { out.push(pq.top()); pq.pop(); }\<close>: the elements in pop order.\<close>

function pq_drain :: "('a \<Rightarrow> 'a \<Rightarrow> bool) \<Rightarrow> 'a list \<Rightarrow> 'a list" where
  "pq_drain cmp v = (if v = [] then [] else pq_top v # pq_drain cmp (pq_pop cmp v))"
  by pat_completeness auto
termination
proof (relation "measure (\<lambda>(_, v). length v)")
  fix cmp :: "'a \<Rightarrow> 'a \<Rightarrow> bool" and v :: "'a list"
  assume "v \<noteq> []"
  then show "((cmp, pq_pop cmp v), cmp, v) \<in> measure (\<lambda>(_, v). length v)"
    using length_pop [of v cmp] by simp
qed simp

declare pq_drain.simps [simp del]

lemma mset_drain: "mset (pq_drain cmp v) = mset v"
proof (induction cmp v rule: pq_drain.induct)
  case (1 cmp v)
  then show ?case by (subst pq_drain.simps) (auto simp: mset_pop)
qed

lemma length_drain [simp]: "length (pq_drain cmp v) = length v"
  using mset_drain [of cmp v] by (metis size_mset)

lemma set_drain [simp]: "set (pq_drain cmp v) = set v"
  using mset_drain [of cmp v] by (metis set_mset_mset)

text \<open>\<open>S\<close>: everything offered so far. \<open>v\<close> holds \<open>k\<close> of them and nothing left out beats a kept one.\<close>

definition best_of :: "('a \<Rightarrow> 'a \<Rightarrow> bool) \<Rightarrow> nat \<Rightarrow> 'a multiset \<Rightarrow> 'a multiset \<Rightarrow> bool" where
  "best_of cmp k S V \<longleftrightarrow>
     V \<subseteq># S \<and> size V = min k (size S) \<and> (\<forall>a \<in># V. \<forall>b \<in># S - V. \<not> cmp b a)"

context weak_order
begin

lemma best_of_offer:
  assumes k: "0 < k" and v: "is_heap cmp v" and best: "best_of cmp k S (mset v)"
  shows "\<exists>v'. pq_offer cmp cmp k x v = Ok v' \<and> is_heap cmp v' \<and> best_of cmp k (add_mset x S) (mset v')"
proof (cases "length v < k")
  case True
  then have "size (mset v) = size S" and sub: "mset v \<subseteq># S"
    using best by (auto simp: best_of_def min_def split: if_splits)
  then have "\<not> mset v \<subset># S" using mset_subset_size [of "mset v" S] by auto
  then have "mset v = S" using sub by (simp add: subset_mset.le_less)
  then show ?thesis
    using True v by (auto simp: pq_offer_def mset_push heap.invar_push best_of_def)
next
  case False
  have sub: "mset v \<subseteq># S" and sz: "length v = min k (size S)"
    and dom: "\<And>a b. a \<in># mset v \<Longrightarrow> b \<in># S - mset v \<Longrightarrow> \<not> cmp b a"
    using best by (auto simp: best_of_def)
  have len: "length v = k" using False sz by simp
  then have ne: "v \<noteq> []" "mset v \<noteq> {#}" using k by auto
  let ?t = "pq_top v"
  have t: "?t \<in># mset v" using heap.top_in [OF v ne(2)] .
  have tmax: "\<not> cmp ?t a" if "a \<in># mset v" for a using heap.top_max [OF v that] .
  show ?thesis
  proof (cases "cmp x ?t")
    case True
    have V: "mset (pq_push cmp x (pq_pop cmp v)) = add_mset x (mset v - {#?t#})"
      by (simp add: mset_push mset_pop ne)
    have drop: "add_mset x S - add_mset x (mset v - {#?t#}) = add_mset ?t (S - mset v)"
    proof -
      obtain V0 where "mset v = add_mset ?t V0" using t by (metis multi_member_split)
      moreover obtain R where "S = mset v + R" using sub by (metis subset_mset.le_iff_add)
      ultimately show ?thesis by simp
    qed
    have A: "\<not> cmp b a" if "a \<in># add_mset x (mset v - {#?t#})" "b \<in># add_mset ?t (S - mset v)" for a b
    proof -
      have tx: "\<not> cmp ?t x" using True cmp_asym by blast
      have "a = x \<or> a \<in># mset v" using that(1) by (auto dest: in_diffD)
      moreover have "b = ?t \<or> b \<in># S - mset v" using that(2) by auto
      ultimately show ?thesis
        by (elim disjE) (simp_all only: tx tmax dom cmp_neg_trans [OF dom [OF t] tx] not_False_eq_True)
    qed
    have B: "add_mset x (mset v - {#?t#}) \<subseteq># add_mset x S"
      using sub by (simp add: subset_mset.order_trans [OF diff_subset_eq_self])
    have C: "size (add_mset x (mset v - {#?t#})) = min k (size (add_mset x S))"
      using t len sz k by (simp add: size_Diff_singleton)
    have "best_of cmp k (add_mset x S) (mset (pq_push cmp x (pq_pop cmp v)))"
      unfolding V best_of_def drop by (intro conjI ballI A B C)
    then show ?thesis
      using False ne v True heap.invar_push heap.invar_pop [OF v ne(2)]
      by (simp add: pq_offer_def)
  next
    case nx: False
    have D: "add_mset x S - mset v = add_mset x (S - mset v)"
    proof -
      obtain R where "S = mset v + R" using sub by (metis subset_mset.le_iff_add)
      then show ?thesis by simp
    qed
    have "best_of cmp k (add_mset x S) (mset v)"
      unfolding best_of_def D
    proof (intro conjI ballI)
      show "mset v \<subseteq># add_mset x S" by (rule subset_mset.order_trans [OF sub]) simp
      show "size (mset v) = min k (size (add_mset x S))" using len sz by simp
      fix a b assume a: "a \<in># mset v" and b: "b \<in># add_mset x (S - mset v)"
      have "\<not> cmp x a" by (rule cmp_neg_trans [OF nx tmax [OF a]])
      then show "\<not> cmp b a" using b dom [OF a] by auto
    qed
    then show ?thesis using False ne v nx by (simp add: pq_offer_def)
  qed
qed

text \<open>Offering a whole list to an empty queue keeps the best \<open>k\<close> of it.\<close>

lemma best_of_fold:
  assumes "0 < k" "is_heap cmp v" "best_of cmp k S (mset v)"
  shows "\<exists>v'. res_fold (pq_offer cmp cmp k) xs v = Ok v' \<and> is_heap cmp v'
    \<and> best_of cmp k (S + mset xs) (mset v')"
  using assms(2,3)
proof (induction xs arbitrary: S v)
  case (Cons x xs)
  obtain v1 where "pq_offer cmp cmp k x v = Ok v1" "is_heap cmp v1" "best_of cmp k (add_mset x S) (mset v1)"
    using best_of_offer [OF assms(1) Cons.prems] by blast
  with Cons.IH [of v1 "add_mset x S"] show ?case by auto
qed simp

lemma best_of_fold_empty:
  assumes "0 < k"
  obtains v where "res_fold (pq_offer cmp cmp k) xs [] = Ok v" "is_heap cmp v"
    "best_of cmp k (mset xs) (mset v)"
  using best_of_fold [OF assms, of "[]" "{#}" xs] by (auto simp: is_heap_def best_of_def)

lemma drain_sorted: "is_heap cmp v \<Longrightarrow> sorted_wrt (\<lambda>a b. \<not> cmp a b) (pq_drain cmp v)"
proof (induction "length v" arbitrary: v rule: less_induct)
  case less
  show ?case
  proof (cases "v = []")
    case True
    then show ?thesis by (simp add: pq_drain.simps)
  next
    case False
    then have "is_heap cmp (pq_pop cmp v)" using less.prems by (simp add: is_heap_pop)
    then have "sorted_wrt (\<lambda>a b. \<not> cmp a b) (pq_drain cmp (pq_pop cmp v))"
      using less.hyps length_pop [OF False, of cmp] by simp
    moreover have "\<not> cmp (pq_top v) b" if "b \<in> set (pq_pop cmp v)" for b
    proof -
      have "b \<in># mset v" using that False by (metis in_diffD mset_pop set_mset_mset)
      then show ?thesis by (rule heap.top_max [OF less.prems])
    qed
    ultimately show ?thesis using False by (subst pq_drain.simps) simp
  qed
qed

end

end
