(* ===== verification/BasicAttack.thy ===== *)
theory BasicAttack
  imports BasicCount PQueue
begin

text \<open>
  \<open>attack/basic/basic_attack.cc\<close>: classical frequency analysis. Two frequency databases, the
  auxiliary (training) one and the target, are read into priority queues; the queues are then
  popped in parallel, and an inference is correct when the two tops are the same fingerprint.
\<close>

record bnode =
  hash_name :: bytes
  bcount :: "64 word"

text \<open>\<open>Node::operator<\<close>\<close>

definition bnode_less :: "bnode \<Rightarrow> bnode \<Rightarrow> bool" where
  "bnode_less a b \<longleftrightarrow> bcount a < bcount b"

interpretation bq: weak_order bnode_less
  by unfold_locales (auto simp: bnode_less_def)

text \<open>\<open>memcpy(dst, s.c_str(), FP_SIZE)\<close>\<close>

definition memcpy_fp :: "bytes \<Rightarrow> bytes res" where
  "memcpy_fp s = (if FP_SIZE \<le> length s then Ok (take FP_SIZE s) else Err Undefined)"

text \<open>
  \<open>ReadDbs\<close>: for every entry in key order, \<open>Get\<close> the count again, then push the node or, when
  \<open>Max_lenth\<close> nodes are held, replace the top if the new count is larger.
\<close>

definition ReadDbs :: "nat \<Rightarrow> kvdb \<Rightarrow> bnode list res" where
  "ReadDbs Max_lenth db =
     res_fold (\<lambda>(k, _) que.
        let (st, val) = db_get db k [] in
        if \<not> is_ok st then Err Assert_failed
        else res_bind (u64_at val 0) (\<lambda>temp_count.
             res_bind (memcpy_fp k) (\<lambda>h.
               pq_offer bnode_less (\<lambda>x t. bcount t < bcount x) Max_lenth
                 \<lparr>hash_name = h, bcount = temp_count\<rparr> que)))
      (entries db) []"

text \<open>The loop of \<open>Fre_Analysis\<close>, \<open>size\<close> rounds: the correctly inferred nodes, in order.\<close>

fun fre_loop :: "nat \<Rightarrow> bnode list \<Rightarrow> bnode list \<Rightarrow> bnode list" where
  "fre_loop 0 training target = []"
| "fre_loop (Suc n) training target =
     (if memcmp (hash_name (pq_top training)) (hash_name (pq_top target)) = 0
      then [pq_top training] else [])
     @ fre_loop n (pq_pop bnode_less training) (pq_pop bnode_less target)"

definition Fre_Analysis :: "bnode list \<Rightarrow> bnode list \<Rightarrow> bnode list \<times> nat" where
  "Fre_Analysis training target =
     (let ansq = fre_loop (min (length training) (length target)) training target
      in (ansq, length ansq))"

record basic_report =
  br_unique :: nat
  br_correct :: nat
  br_inferred :: "bytes list"

text \<open>\<open>main\<close>: the inferred fingerprints are printed from the back of \<open>ansq\<close>.\<close>

definition basic_attack :: "nat \<Rightarrow> kvdb \<Rightarrow> kvdb \<Rightarrow> basic_report res" where
  "basic_attack Max_lenth Trainingdb Targetdb =
     res_bind (ReadDbs Max_lenth Trainingdb) (\<lambda>training.
     res_bind (ReadDbs Max_lenth Targetdb) (\<lambda>target.
       let Unique = length target; (ansq, Correct) = Fre_Analysis training target
       in Ok \<lparr>br_unique = Unique, br_correct = Correct, br_inferred = map hash_name (rev ansq)\<rparr>))"

definition MAX_LENTH :: nat where "MAX_LENTH = 99999999"

section \<open>Reading a database\<close>

definition db_nodes :: "kvdb \<Rightarrow> bnode list" where
  "db_nodes db = map (\<lambda>(k, v). \<lparr>hash_name = take FP_SIZE k, bcount = u64_read v\<rparr>) (entries db)"

definition fp_keys :: "kvdb \<Rightarrow> bool" where
  "fp_keys db \<longleftrightarrow> (\<forall>k \<in> dom (db_lookup db). is_fp k)"

lemma res_fold_cong:
  "(\<And>x s. x \<in> set xs \<Longrightarrow> f x s = g x s) \<Longrightarrow> res_fold f xs s = res_fold g xs s"
  by (induction xs arbitrary: s) (auto intro!: res_bind_cong)

lemma res_fold_map: "res_fold f (map g xs) s = res_fold (\<lambda>x. f (g x)) xs s"
  by (induction xs arbitrary: s) (auto intro!: res_bind_cong)

lemma ReadDbs_fold:
  assumes "freq_wf db" "fp_keys db"
  shows "ReadDbs m db = res_fold (pq_offer bnode_less (\<lambda>x t. bcount t < bcount x) m) (db_nodes db) []"
proof -
  have "(let (st, val) = db_get db k [] in
        if \<not> is_ok st then Err Assert_failed
        else res_bind (u64_at val 0) (\<lambda>temp_count.
             res_bind (memcpy_fp k) (\<lambda>h.
               pq_offer bnode_less (\<lambda>x t. bcount t < bcount x) m
                 \<lparr>hash_name = h, bcount = temp_count\<rparr> que)))
      = pq_offer bnode_less (\<lambda>x t. bcount t < bcount x) m
          \<lparr>hash_name = take FP_SIZE k, bcount = u64_read v\<rparr> que"
    if "(k, v) \<in> set (entries db)" for k v que
  proof -
    have lk: "db_lookup db k = Some v"
      using that assms(1) by (simp add: freq_wf_def db_wf_def kv.set_scan)
    then have "length v = 8" "length k = FP_SIZE"
      using assms by (auto simp: freq_wf_def fp_keys_def is_fp_def)
    then show ?thesis
      using lk assms(1) by (simp add: freq_wf_def db_get_reliable is_ok_def u64_at_def memcpy_fp_def)
  qed
  then show ?thesis
    unfolding ReadDbs_def db_nodes_def res_fold_map by (intro res_fold_cong) auto
qed

text \<open>While the database fits, the queue is a heap of all its nodes.\<close>

lemma offer_fits:
  "length v + length xs \<le> m \<Longrightarrow> is_heap bnode_less v \<Longrightarrow>
   \<exists>q. res_fold (pq_offer bnode_less beats m) xs v = Ok q \<and> is_heap bnode_less q \<and> mset q = mset v + mset xs"
proof (induction xs arbitrary: v)
  case (Cons x xs)
  have "is_heap bnode_less (pq_push bnode_less x v)" using Cons.prems by (simp add: bq.heap.invar_push)
  then show ?case
    using Cons.IH [of "pq_push bnode_less x v"] Cons.prems by (auto simp: pq_offer_def mset_push)
qed simp

lemma ReadDbs_fits:
  assumes "freq_wf db" "fp_keys db" "length (entries db) \<le> m"
  obtains q where "ReadDbs m db = Ok q" "is_heap bnode_less q" "mset q = mset (db_nodes db)"
  using offer_fits [of "[]" "db_nodes db" m] assms
  by (auto simp: ReadDbs_fold db_nodes_def is_heap_def)

section \<open>The analysis compares ranks\<close>

definition correct_pairs :: "bnode list \<Rightarrow> bnode list \<Rightarrow> bnode list" where
  "correct_pairs ts cs = map fst (filter (\<lambda>(t, c). hash_name t = hash_name c) (zip ts cs))"

lemma fre_loop_drain:
  "n \<le> length training \<Longrightarrow> n \<le> length target \<Longrightarrow>
   fre_loop n training target
     = correct_pairs (take n (pq_drain bnode_less training)) (take n (pq_drain bnode_less target))"
proof (induction n arbitrary: training target)
  case (Suc n)
  then have ne: "training \<noteq> []" "target \<noteq> []" by auto
  then show ?case
    using Suc length_pop [OF ne(1), of bnode_less] length_pop [OF ne(2), of bnode_less]
    by (simp add: correct_pairs_def pq_drain.simps [of bnode_less training]
        pq_drain.simps [of bnode_less target])
qed (simp add: correct_pairs_def)

lemma Fre_Analysis_drain:
  "Fre_Analysis training target =
     (let a = correct_pairs (pq_drain bnode_less training) (pq_drain bnode_less target) in (a, length a))"
proof -
  let ?n = "min (length training) (length target)"
  have "zip (take ?n (pq_drain bnode_less training)) (take ?n (pq_drain bnode_less target))
      = zip (pq_drain bnode_less training) (pq_drain bnode_less target)"
    by (simp add: take_zip [symmetric])
  then show ?thesis
    by (simp add: Fre_Analysis_def fre_loop_drain correct_pairs_def Let_def)
qed

lemma drain_desc:
  "is_heap bnode_less q \<Longrightarrow> sorted_wrt (\<lambda>a b. bcount b \<le> bcount a) (pq_drain bnode_less q)"
  using bq.drain_sorted [of q] by (auto simp: bnode_less_def not_less elim: sorted_wrt_mono_rel [rotated])

section \<open>The attack\<close>

text \<open>
  C13. Frequency analysis compares ranks: when both databases fit into the queues, there are
  listings of the two databases by non-increasing count such that the correct inferences are
  exactly the positions at which the listings agree; the reported fingerprints are those of these
  positions (last rank first), and the number of unique chunks is the size of the target.
\<close>

theorem basic_attack_ranks:
  assumes "freq_wf T" "fp_keys T" "length (entries T) \<le> m"
    and "freq_wf C" "fp_keys C" "length (entries C) \<le> m"
  shows "\<exists>ts cs. mset ts = mset (db_nodes T) \<and> mset cs = mset (db_nodes C)
    \<and> sorted_wrt (\<lambda>a b. bcount b \<le> bcount a) ts \<and> sorted_wrt (\<lambda>a b. bcount b \<le> bcount a) cs
    \<and> basic_attack m T C = Ok \<lparr>br_unique = length (entries C),
         br_correct = length (filter (\<lambda>(t, c). hash_name t = hash_name c) (zip ts cs)),
         br_inferred = rev (map hash_name (map fst (filter (\<lambda>(t, c). hash_name t = hash_name c) (zip ts cs))))\<rparr>"
proof -
  obtain t where t: "ReadDbs m T = Ok t" "is_heap bnode_less t" "mset t = mset (db_nodes T)"
    by (rule ReadDbs_fits [OF assms(1-3)])
  obtain c where c: "ReadDbs m C = Ok c" "is_heap bnode_less c" "mset c = mset (db_nodes C)"
    by (rule ReadDbs_fits [OF assms(4-6)])
  have "length c = length (entries C)"
    using c(3) by (metis db_nodes_def length_map size_mset)
  then show ?thesis
    using t c drain_desc [OF t(2)] drain_desc [OF c(2)]
    by (intro exI [of _ "pq_drain bnode_less t"] exI [of _ "pq_drain bnode_less c"])
      (simp add: basic_attack_def Fre_Analysis_drain correct_pairs_def mset_drain rev_map Let_def)
qed

definition db_of :: "(bytes \<times> bytes) list \<Rightarrow> kvdb" where
  "db_of es = \<lparr>entries = es, get_err = \<lambda>_. None, write_err = \<lambda>_. None\<rparr>"

lemma db_of_wf:
  "kv_sorted es \<Longrightarrow> \<forall>e \<in> set es. is_fp (fst e) \<and> length (snd e) = 8 \<Longrightarrow> freq_wf (db_of es) \<and> fp_keys (db_of es)"
  by (fastforce simp: freq_wf_def db_of_def reliable_def db_wf_def fp_keys_def dest: map_of_SomeD)

lemma sample_wf:
  "freq_wf (db_of [([1, 2, 3, 4, 5, 6], u64_bytes 3), ([2, 2, 3, 4, 5, 6], u64_bytes 9)])"
  "fp_keys (db_of [([1, 2, 3, 4, 5, 6], u64_bytes 3), ([2, 2, 3, 4, 5, 6], u64_bytes 9)])"
  using db_of_wf [of "[([1, 2, 3, 4, 5, 6], u64_bytes 3), ([2, 2, 3, 4, 5, 6], u64_bytes 9)]"]
  by (simp_all add: kv_sorted_def is_fp_def)

theorem basic_attack_ranks_witness:
  "\<exists>r. basic_attack 2 (db_of [([1, 2, 3, 4, 5, 6], u64_bytes 3), ([2, 2, 3, 4, 5, 6], u64_bytes 9)])
        (db_of [([1, 2, 3, 4, 5, 6], u64_bytes 3), ([2, 2, 3, 4, 5, 6], u64_bytes 9)]) = Ok r
    \<and> br_unique r = 2 \<and> br_correct r = length (br_inferred r)"
  using basic_attack_ranks [OF sample_wf, of 2, OF _ sample_wf] by (auto simp: db_of_def)



end
