(* ===== verification/LocalityAttack.thy ===== *)
theory LocalityAttack
  imports LocalityCount PQueue BasicAttack
begin

text \<open>
  \<open>attack/locality/locality_attack.cc\<close>: the locality-based attack. Starting from a set of inferred
  ciphertext-plaintext pairs (leaked ones, or the pairs of the most frequent chunks), it pairs the
  most frequent left and right neighbours of every inferred pair and adds the pairs whose
  ciphertext chunk is new, until the queue of inferred pairs is exhausted. The same main loop,
  with another test of correctness, is that of \<open>locality_attack_e.cc\<close>.
\<close>

section \<open>State\<close>

record node =
  nkey :: bytes
  ncount :: "64 word"

text \<open>\<open>struct cmp\<close>: the queue's top is a node of least count.\<close>

definition node_cmp :: "node \<Rightarrow> node \<Rightarrow> bool" where
  "node_cmp a b \<longleftrightarrow> ncount a > ncount b"

interpretation nq: weak_order node_cmp
  by unfold_locales (auto simp: node_cmp_def)

text \<open>
  The command line: \<open>u\<close>, \<open>v\<close>, \<open>w\<close>, and the leakage rate. The rate is a \<open>double\<close> the code uses in two
  ways only: whether it is 0, and the product with 10000 (or \<open>INT_MAX\<close>) as a bound for an integer;
  \<open>leak_bound\<close> is the integer part of that product.
\<close>

record params =
  INIT :: nat
  TH_K :: nat
  QUEUE_LIMIT :: nat
  leak_on :: bool
  leak_bound :: int

record attack_dbs =
  origin :: kvdb
  left_o :: kvdb
  right_o :: kvdb
  target :: kvdb
  left_t :: kvdb
  right_t :: kvdb

record attack_state =
  uniq :: kvdb
  q_o :: "node list"
  q_t :: "node list"
  ansq :: "(node \<times> node) list"
  total :: nat
  common :: nat
  correct :: nat
  involve :: nat
  leak :: nat

definition attack_init :: "kvdb \<Rightarrow> attack_state" where
  "attack_init u = \<lparr>uniq = u, q_o = [], q_t = [], ansq = [], total = 0, common = 0,
     correct = 0, involve = 0, leak = 0\<rparr>"

section \<open>Operations\<close>

text \<open>
  \<open>char buf[32]; memset(buf, 0, 32); sprintf(buf, "%lu", count); Slice(buf, sizeof(uint64_t))\<close>:
  the first eight bytes of the decimal representation.
\<close>

definition count_slice :: "64 word \<Rightarrow> bytes" where
  "count_slice c = take 8 (map (\<lambda>ch. word_of_nat (of_char ch)) (dec (unat c)) @ replicate 32 0)"

text \<open>The body of the loop of \<open>stat_db\<close> for one entry of the target database; \<open>r\<close> is what \<open>rand()\<close> returns.\<close>

definition stat_entry :: "params \<Rightarrow> attack_dbs \<Rightarrow> nat \<Rightarrow> bytes \<times> bytes \<Rightarrow> attack_state \<Rightarrow> attack_state res" where
  "stat_entry P D r e s =
     (let (k, v) = e; s = s\<lparr>total := total s + 1\<rparr>;
          (st, existing_value) = db_get (origin D) k [] in
      if leak_on P \<and> int (r mod 10000) \<le> leak_bound P then
        (let s = s\<lparr>common := common s + 1\<rparr> in
         if is_ok st then
           res_bind (memcpy_fp k) (\<lambda>h.
           res_bind (u64_at existing_value 0) (\<lambda>c_o.
           res_bind (u64_at v 0) (\<lambda>c_t.
             Ok (s\<lparr>q_o := q_o s @ [\<lparr>nkey = h, ncount = c_o\<rparr>],
                   uniq := snd (db_put (uniq s) h (count_slice c_t)),
                   q_t := q_t s @ [\<lparr>nkey = h, ncount = c_t\<rparr>],
                   leak := leak s + 1\<rparr>))))
         else if is_not_found st then Ok s
         else Err (Exit 1))
      else Ok s)"

text \<open>\<open>stat_db\<close>; \<open>rnd i\<close> is the value of the \<open>i\<close>-th call of \<open>rand()\<close>.\<close>

definition stat_db :: "params \<Rightarrow> attack_dbs \<Rightarrow> (nat \<Rightarrow> nat) \<Rightarrow> attack_state \<Rightarrow> attack_state res" where
  "stat_db P D rnd s =
     res_fold (\<lambda>e s. stat_entry P D (rnd (total s)) e s) (entries (target D)) s"

text \<open>The loop of \<open>left_insert\<close> and \<open>right_insert\<close> over the 14-byte records of a table.\<close>

function nb_insert :: "nat \<Rightarrow> bytes \<Rightarrow> nat \<Rightarrow> node list \<Rightarrow> node list res" where
  "nb_insert k existing_value len pt =
     (if len < length existing_value then
        (if len + FP_SIZE \<le> length existing_value then
           res_bind (u64_at existing_value (len + FP_SIZE)) (\<lambda>tmp.
           res_bind (pq_offer node_cmp (\<lambda>x t. ncount x > ncount t) k
             \<lparr>nkey = take FP_SIZE (drop len existing_value), ncount = tmp\<rparr> pt) (\<lambda>pt'.
             nb_insert k existing_value (len + REC) pt'))
         else Err Undefined)
      else Ok pt)"
  by pat_completeness auto
termination by (relation "measure (\<lambda>(_, v, len, _). length v - len)") auto

declare nb_insert.simps [simp del]

definition table_insert :: "kvdb \<Rightarrow> bytes \<Rightarrow> nat \<Rightarrow> node list \<Rightarrow> node list res" where
  "table_insert db fp k pt =
     (let (st, existing_value) = db_get db fp [] in
      if is_ok st then nb_insert k existing_value 0 pt
      else if is_not_found st then Ok pt
      else Err (Exit 1))"

text \<open>\<open>left_insert(type, fp, k)\<close>: type 0 fills \<open>pq\<close> from \<open>left_o\<close>, any other type \<open>pc\<close> from \<open>left_t\<close>.\<close>

definition left_insert :: "attack_dbs \<Rightarrow> nat \<Rightarrow> bytes \<Rightarrow> nat \<Rightarrow> node list \<Rightarrow> node list res" where
  "left_insert D type fp k pt = table_insert (if type = 0 then left_o D else left_t D) fp k pt"

definition right_insert :: "attack_dbs \<Rightarrow> nat \<Rightarrow> bytes \<Rightarrow> nat \<Rightarrow> node list \<Rightarrow> node list res" where
  "right_insert D type fp k pt = table_insert (if type = 0 then right_o D else right_t D) fp k pt"

text \<open>\<open>db_insert(db, k)\<close>: the \<open>k\<close> most frequent chunks of a frequency database.\<close>

definition db_insert :: "kvdb \<Rightarrow> nat \<Rightarrow> node list \<Rightarrow> node list res" where
  "db_insert db k pq =
     res_fold (\<lambda>(key, v) pq.
        res_bind (u64_at v 0) (\<lambda>val.
        res_bind (memcpy_fp key) (\<lambda>h.
          pq_offer node_cmp (\<lambda>x t. ncount x > ncount t) k \<lparr>nkey = h, ncount = val\<rparr> pq)))
      (entries db) pq"

text \<open>The initial part of \<open>main_loop\<close>, run when nothing has leaked.\<close>

definition seed_queues :: "params \<Rightarrow> attack_dbs \<Rightarrow> attack_state \<Rightarrow> attack_state res" where
  "seed_queues P D s =
     (if leak_on P then Ok s
      else
        res_bind (db_insert (origin D) (INIT P) []) (\<lambda>pq.
        let s = s\<lparr>q_o := q_o s @ rev (pq_drain node_cmp pq)\<rparr> in
        res_bind (db_insert (target D) (INIT P) []) (\<lambda>pq.
        let ns = rev (pq_drain node_cmp pq) in
        Ok (s\<lparr>uniq := fold (\<lambda>n u. snd (db_put u (nkey n) (count_slice (ncount n)))) ns (uniq s),
              q_t := q_t s @ ns\<rparr>))))"

text \<open>
  \<open>while (!pq.empty() && !pc.empty())\<close>: both tops go onto the stacks \<open>omp\<close> and \<open>tmp\<close> until one
  queue is empty. The result lists the pairs from the tops of the stacks down.
\<close>

definition pair_up :: "node list \<Rightarrow> node list \<Rightarrow> (node \<times> node) list" where
  "pair_up pq pc = rev (zip (pq_drain node_cmp pq) (pq_drain node_cmp pc))"

text \<open>The loop over the stacks; it breaks when the queue of inferred pairs is full.\<close>

fun enqueue_pairs :: "nat \<Rightarrow> (node \<times> node) list \<Rightarrow> attack_state \<Rightarrow> attack_state" where
  "enqueue_pairs limit [] s = s"
| "enqueue_pairs limit ((o', t) # ps) s =
     (if is_ok (fst (db_get (uniq s) (nkey t) [])) then enqueue_pairs limit ps s
      else if length (q_o s) + 1 > limit then s
      else enqueue_pairs limit ps
        (s\<lparr>uniq := snd (db_put (uniq s) (nkey t) (count_slice (ncount t))),
           q_o := q_o s @ [o'], q_t := q_t s @ [t]\<rparr>))"

text \<open>
  One round of the main loop on nonempty queues; \<open>judge\<close> is the test whether the front pair is a
  correct inference.
\<close>

definition attack_round ::
  "(node \<Rightarrow> node \<Rightarrow> bool res) \<Rightarrow> params \<Rightarrow> attack_dbs \<Rightarrow> attack_state \<Rightarrow> attack_state res" where
  "attack_round judge P D s =
     (let o' = hd (q_o s); t = hd (q_t s) in
      res_bind (judge o' t) (\<lambda>ok.
      let s = (if ok then s\<lparr>ansq := ansq s @ [(o', t)], correct := correct s + 1\<rparr> else s) in
      res_bind (left_insert D 0 (nkey o') (TH_K P) []) (\<lambda>pq.
      res_bind (left_insert D 1 (nkey t) (TH_K P) []) (\<lambda>pc.
      let s = enqueue_pairs (QUEUE_LIMIT P) (pair_up pq pc) s in
      res_bind (right_insert D 0 (nkey o') (TH_K P) []) (\<lambda>pq.
      res_bind (right_insert D 1 (nkey t) (TH_K P) []) (\<lambda>pc.
      let s = enqueue_pairs (QUEUE_LIMIT P) (pair_up pq pc) s in
      Ok (s\<lparr>q_o := tl (q_o s), q_t := tl (q_t s), involve := involve s + 1\<rparr>)))))))"

fun attack_loop ::
  "nat \<Rightarrow> (node \<Rightarrow> node \<Rightarrow> bool res) \<Rightarrow> params \<Rightarrow> attack_dbs \<Rightarrow> attack_state \<Rightarrow> attack_state res" where
  "attack_loop fuel judge P D s =
     (if q_o s = [] \<or> q_t s = [] then Ok s
      else case fuel of
        0 \<Rightarrow> Err Out_of_fuel
      | Suc n \<Rightarrow> res_bind (attack_round judge P D s) (attack_loop n judge P D))"

declare attack_loop.simps [simp del]

text \<open>\<open>memcmp(q_o.front().key, q_t.front().key, FP_SIZE) == 0\<close>\<close>

definition judge_same :: "node \<Rightarrow> node \<Rightarrow> bool res" where
  "judge_same o' t = Ok (memcmp (nkey o') (nkey t) = 0)"

definition main_loop :: "nat \<Rightarrow> params \<Rightarrow> attack_dbs \<Rightarrow> attack_state \<Rightarrow> attack_state res" where
  "main_loop fuel P D s = res_bind (seed_queues P D s) (attack_loop fuel judge_same P D)"

text \<open>\<open>main\<close>: the numbers printed, and the inferred fingerprints from the back of \<open>ansq\<close>.\<close>

record attack_report =
  ar_total :: nat
  ar_correct :: nat
  ar_inferred :: "bytes list"

definition attack_report_of :: "attack_state \<Rightarrow> attack_report" where
  "attack_report_of s = \<lparr>ar_total = total s, ar_correct = correct s + common s - leak s,
     ar_inferred = map (\<lambda>(o', t). nkey o') (rev (ansq s))\<rparr>"

definition locality_attack ::
  "nat \<Rightarrow> params \<Rightarrow> attack_dbs \<Rightarrow> kvdb \<Rightarrow> (nat \<Rightarrow> nat) \<Rightarrow> attack_report res" where
  "locality_attack fuel P D u rnd =
     res_bind (stat_db P D rnd (attack_init u)) (\<lambda>s.
     res_bind (main_loop fuel P D s) (\<lambda>s. Ok (attack_report_of s)))"

section \<open>Selecting neighbours\<close>

lemma beats_node_cmp [simp]: "(\<lambda>x t. ncount t < ncount x) = node_cmp"
  by (simp add: node_cmp_def fun_eq_iff)

definition nb_nodes :: "(bytes \<times> 64 word) list \<Rightarrow> node list" where
  "nb_nodes es = map (\<lambda>(k, c). \<lparr>nkey = k, ncount = c\<rparr>) es"

lemma nb_nodes_simps [simp]:
  "nb_nodes [] = []" "nb_nodes ((k, c) # es) = \<lparr>nkey = k, ncount = c\<rparr> # nb_nodes es"
  by (simp_all add: nb_nodes_def)

lemma nkey_nb_nodes: "nkey ` set (nb_nodes es) = fst ` set es"
  by (force simp: nb_nodes_def)

lemma nb_insert_encode:
  "nb_recs es \<Longrightarrow> nb_insert k (pre @ nb_encode es) (length pre) pt
     = res_fold (pq_offer node_cmp node_cmp k) (nb_nodes es) pt"
proof (induction es arbitrary: pre pt)
  case Nil
  then show ?case by (subst nb_insert.simps) simp
next
  case (Cons e es)
  obtain h c where e: "e = (h, c)" by (cases e)
  have "nb_insert k ((pre @ h @ u64_bytes c) @ nb_encode es) (length (pre @ h @ u64_bytes c)) pt'
      = res_fold (pq_offer node_cmp node_cmp k) (nb_nodes es) pt'" for pt'
    by (rule Cons.IH) (use Cons.prems e in simp)
  then show ?case
    using Cons.prems e
    by (subst nb_insert.simps) (auto simp: u64_at_def ac_simps intro!: res_bind_cong)
qed

lemma table_insert_wf:
  assumes "nb_wf db" "0 < k"
  shows "\<exists>pt. table_insert db fp k [] = Ok pt \<and> is_heap node_cmp pt
    \<and> best_of node_cmp k (mset (nb_nodes (nb_table db fp))) (mset pt)"
proof (cases "db_lookup db fp")
  case None
  then show ?thesis
    using assms by (simp add: table_insert_def nb_wf_def db_get_reliable is_ok_def is_not_found_def
        nb_table_def best_of_def is_heap_def)
next
  case (Some v)
  let ?es = "nb_table db fp"
  have es: "nb_recs ?es" "v = nb_encode ?es"
    using nb_wf_table [OF assms(1)] Some by auto
  have "table_insert db fp k [] = nb_insert k ([] @ nb_encode ?es) (length ([] :: bytes)) []"
    using assms(1) Some es(2)
    by (simp add: table_insert_def nb_wf_def db_get_reliable is_ok_def)
  also have "\<dots> = res_fold (pq_offer node_cmp node_cmp k) (nb_nodes ?es) []"
    by (rule nb_insert_encode [OF es(1)])
  finally have "table_insert db fp k [] = res_fold (pq_offer node_cmp node_cmp k) (nb_nodes ?es) []" .
  then show ?thesis
    using nq.best_of_fold_empty [OF assms(2), of "nb_nodes ?es"] by (metis (no_types, lifting))
qed

text \<open>All fingerprints recorded as neighbours in a database.\<close>

definition nb_keys :: "kvdb \<Rightarrow> bytes set" where
  "nb_keys db = (\<Union>k \<in> dom (db_lookup db). fst ` set (nb_table db k))"

lemma finite_nb_keys [simp]: "finite (nb_keys db)"
  by (simp add: nb_keys_def finite_dom_map_of)

lemma table_in_nb_keys: "fst ` set (nb_table db k) \<subseteq> nb_keys db"
proof (cases "db_lookup db k")
  case None
  then show ?thesis by (simp add: nb_table_def)
next
  case (Some v)
  then have "k \<in> dom (db_lookup db)" by blast
  then show ?thesis unfolding nb_keys_def by blast
qed

lemma best_of_keys:
  assumes "best_of node_cmp k (mset (nb_nodes (nb_table db fp))) (mset pt)"
  shows "nkey ` set pt \<subseteq> nb_keys db"
proof -
  have "set pt \<subseteq> set (nb_nodes (nb_table db fp))"
    using assms by (auto simp: best_of_def dest: mset_subset_eqD)
  then have "nkey ` set pt \<subseteq> fst ` set (nb_table db fp)"
    using nkey_nb_nodes by blast
  then show ?thesis using table_in_nb_keys by blast
qed

lemma table_insert_keys:
  assumes "nb_wf db" "0 < k"
  shows "\<exists>pt. table_insert db fp k [] = Ok pt \<and> nkey ` set pt \<subseteq> nb_keys db"
proof -
  obtain pt where pt: "table_insert db fp k [] = Ok pt"
      "best_of node_cmp k (mset (nb_nodes (nb_table db fp))) (mset pt)"
    using table_insert_wf [OF assms, of fp] by blast
  from pt(2) have "nkey ` set pt \<subseteq> nb_keys db" by (rule best_of_keys)
  with pt(1) show ?thesis by blast
qed

lemma pair_up_keys:
  assumes "(a, b) \<in> set (pair_up pq pc)"
  shows "a \<in> set pq" "b \<in> set pc"
  using assms by (auto simp: pair_up_def dest: set_zip_leftD set_zip_rightD)

section \<open>Adding pairs\<close>

definition t_key :: "node \<times> node \<Rightarrow> bytes" where "t_key p = nkey (snd p)"

text \<open>What a round may change: pairs with fresh ciphertext keys are appended to both queues.\<close>

definition grown :: "(node \<times> node) list \<Rightarrow> attack_state \<Rightarrow> attack_state \<Rightarrow> bool" where
  "grown new s s' \<longleftrightarrow>
     q_o s' = q_o s @ map fst new \<and> q_t s' = q_t s @ map snd new \<and>
     distinct (map t_key new) \<and> t_key ` set new \<inter> dom (db_lookup (uniq s)) = {} \<and>
     dom (db_lookup (uniq s')) = dom (db_lookup (uniq s)) \<union> t_key ` set new \<and>
     reliable (uniq s') \<and> ansq s' = ansq s \<and> correct s' = correct s \<and> total s' = total s \<and>
     common s' = common s \<and> leak s' = leak s \<and> involve s' = involve s"

lemma grown_refl: "reliable (uniq s) \<Longrightarrow> grown [] s s"
  by (simp add: grown_def)

lemma grown_trans: "grown xs s s1 \<Longrightarrow> grown ys s1 s2 \<Longrightarrow> grown (xs @ ys) s s2"
  by (auto simp: grown_def)

lemma enqueue_pairs_grown:
  assumes "reliable (uniq s)"
  shows "\<exists>new. grown new s (enqueue_pairs limit ps s) \<and> set new \<subseteq> set ps
    \<and> length (q_o (enqueue_pairs limit ps s)) \<le> max limit (length (q_o s))"
  using assms
proof (induction limit ps s rule: enqueue_pairs.induct)
  case (1 limit s)
  then show ?case using grown_refl by fastforce
next
  case (2 limit o' t ps s)
  let ?s1 = "s\<lparr>uniq := snd (db_put (uniq s) (nkey t) (count_slice (ncount t))),
           q_o := q_o s @ [o'], q_t := q_t s @ [t]\<rparr>"
  consider (known) "db_lookup (uniq s) (nkey t) \<noteq> None"
    | (full) "db_lookup (uniq s) (nkey t) = None" "limit < length (q_o s) + 1"
    | (add) "db_lookup (uniq s) (nkey t) = None" "\<not> limit < length (q_o s) + 1" by blast
  then show ?case
  proof cases
    case known
    then have ok: "is_ok (fst (db_get (uniq s) (nkey t) []))"
      using 2(3) by (auto simp: db_get_reliable is_ok_def)
    then obtain new where "grown new s (enqueue_pairs limit ps s)" "set new \<subseteq> set ps"
      "length (q_o (enqueue_pairs limit ps s)) \<le> max limit (length (q_o s))"
      using 2 by blast
    then show ?thesis using ok by (intro exI [of _ new]) auto
  next
    case full
    then show ?thesis
      using 2(3) grown_refl by (intro exI [of _ "[]"]) (auto simp: db_get_reliable is_ok_def)
  next
    case add
    then have nok: "\<not> is_ok (fst (db_get (uniq s) (nkey t) []))"
      using 2(3) by (auto simp: db_get_reliable is_ok_def)
    have "reliable (uniq ?s1)" using 2(3) by simp
    then obtain new where new: "grown new ?s1 (enqueue_pairs limit ps ?s1)" "set new \<subseteq> set ps"
      "length (q_o (enqueue_pairs limit ps ?s1)) \<le> max limit (length (q_o ?s1))"
      using 2(2) [OF nok add(2)] by blast
    have "grown [(o', t)] s ?s1"
      using add(1) 2(3) by (auto simp: grown_def t_key_def)
    then have "grown ((o', t) # new) s (enqueue_pairs limit ps ?s1)"
      using grown_trans [OF _ new(1)] by force
    moreover have "enqueue_pairs limit ((o', t) # ps) s = enqueue_pairs limit ps ?s1"
      using nok add(2) by simp
    ultimately show ?thesis
      using new(2,3) add(2) by (intro exI [of _ "(o', t) # new"]) auto
  qed
qed

section \<open>A round\<close>

text \<open>Databases as the counter leaves them (\<open>lc_wf\<close>), and a positive \<open>v\<close>.\<close>

definition attack_wf :: "params \<Rightarrow> attack_dbs \<Rightarrow> bool" where
  "attack_wf P D \<longleftrightarrow> 0 < TH_K P \<and> nb_wf (left_o D) \<and> nb_wf (right_o D) \<and> nb_wf (left_t D) \<and> nb_wf (right_t D)"

definition t_universe :: "attack_dbs \<Rightarrow> bytes set" where
  "t_universe D = nb_keys (left_t D) \<union> nb_keys (right_t D)"

definition o_universe :: "attack_dbs \<Rightarrow> bytes set" where
  "o_universe D = nb_keys (left_o D) \<union> nb_keys (right_o D)"

lemma finite_t_universe [simp]: "finite (t_universe D)"
  by (simp add: t_universe_def)

lemma insert_pair:
  assumes "nb_wf dbo" "nb_wf dbt" "0 < k"
  obtains pq pc where "table_insert dbo a k [] = Ok pq" "table_insert dbt b k [] = Ok pc"
    "\<And>p. p \<in> set (pair_up pq pc) \<Longrightarrow> nkey (fst p) \<in> nb_keys dbo \<and> t_key p \<in> nb_keys dbt"
proof -
  obtain pq where pq: "table_insert dbo a k [] = Ok pq" "nkey ` set pq \<subseteq> nb_keys dbo"
    using table_insert_keys [OF assms(1,3)] by blast
  obtain pc where pc: "table_insert dbt b k [] = Ok pc" "nkey ` set pc \<subseteq> nb_keys dbt"
    using table_insert_keys [OF assms(2,3)] by blast
  show thesis
    by (rule that [OF pq(1) pc(1)]) (use pq(2) pc(2) pair_up_keys in \<open>fastforce simp: t_key_def\<close>)
qed

text \<open>
  A round drops the front pair and appends pairs whose ciphertext keys are fresh neighbours; it
  records the front pair when it was judged correct.
\<close>

lemma attack_round_spec:
  assumes wf: "attack_wf P D" and rel: "reliable (uniq s)"
    and ne: "q_o s \<noteq> []" "q_t s \<noteq> []" and j: "judge (hd (q_o s)) (hd (q_t s)) = Ok ok"
  shows "\<exists>new s1 s'. attack_round judge P D s = Ok s'
    \<and> s' = s1\<lparr>q_o := tl (q_o s1), q_t := tl (q_t s1), involve := involve s1 + 1\<rparr>
    \<and> grown new (if ok then s\<lparr>ansq := ansq s @ [(hd (q_o s), hd (q_t s))], correct := correct s + 1\<rparr> else s) s1
    \<and> t_key ` set new \<subseteq> t_universe D \<and> (\<lambda>p. nkey (fst p)) ` set new \<subseteq> o_universe D
    \<and> length (q_o s1) \<le> max (QUEUE_LIMIT P) (length (q_o s))"
proof -
  let ?o = "hd (q_o s)" and ?t = "hd (q_t s)" and ?k = "TH_K P" and ?L = "QUEUE_LIMIT P"
  let ?s0 = "if ok then s\<lparr>ansq := ansq s @ [(?o, ?t)], correct := correct s + 1\<rparr> else s"
  have k: "0 < ?k" and nb: "nb_wf (left_o D)" "nb_wf (left_t D)" "nb_wf (right_o D)" "nb_wf (right_t D)"
    using wf by (auto simp: attack_wf_def)
  obtain pq pc where l: "table_insert (left_o D) (nkey ?o) ?k [] = Ok pq"
      "table_insert (left_t D) (nkey ?t) ?k [] = Ok pc"
      "\<And>p. p \<in> set (pair_up pq pc) \<Longrightarrow> nkey (fst p) \<in> nb_keys (left_o D) \<and> t_key p \<in> nb_keys (left_t D)"
    using insert_pair [OF nb(1,2) k] by blast
  obtain pq' pc' where r: "table_insert (right_o D) (nkey ?o) ?k [] = Ok pq'"
      "table_insert (right_t D) (nkey ?t) ?k [] = Ok pc'"
      "\<And>p. p \<in> set (pair_up pq' pc') \<Longrightarrow> nkey (fst p) \<in> nb_keys (right_o D) \<and> t_key p \<in> nb_keys (right_t D)"
    using insert_pair [OF nb(3,4) k] by blast
  let ?sl = "enqueue_pairs ?L (pair_up pq pc) ?s0"
  have "reliable (uniq ?s0)" using rel by simp
  then obtain nl where nl: "grown nl ?s0 ?sl" "set nl \<subseteq> set (pair_up pq pc)"
      "length (q_o ?sl) \<le> max ?L (length (q_o ?s0))"
    using enqueue_pairs_grown by blast
  let ?sr = "enqueue_pairs ?L (pair_up pq' pc') ?sl"
  have "reliable (uniq ?sl)" using nl(1) by (simp add: grown_def)
  then obtain nr where nr: "grown nr ?sl ?sr" "set nr \<subseteq> set (pair_up pq' pc')"
      "length (q_o ?sr) \<le> max ?L (length (q_o ?sl))"
    using enqueue_pairs_grown by blast
  have "attack_round judge P D s
      = Ok (?sr\<lparr>q_o := tl (q_o ?sr), q_t := tl (q_t ?sr), involve := involve ?sr + 1\<rparr>)"
    using l(1,2) r(1,2) j
    by (cases ok) (simp_all add: attack_round_def left_insert_def right_insert_def Let_def)
  moreover have "grown (nl @ nr) ?s0 ?sr" by (rule grown_trans [OF nl(1) nr(1)])
  moreover have "t_key ` set (nl @ nr) \<subseteq> t_universe D" "(\<lambda>p. nkey (fst p)) ` set (nl @ nr) \<subseteq> o_universe D"
    using nl(2) nr(2) l(3) r(3) by (auto simp: t_universe_def o_universe_def)
  moreover have "length (q_o ?sr) \<le> max ?L (length (q_o s))" using nl(3) nr(3) by auto
  ultimately show ?thesis by blast
qed

section \<open>The main loop\<close>

text \<open>
  Every ciphertext key that was ever queued is recorded in \<open>uniq\<close> and was queued once: the keys of
  the recorded inferences and of the waiting pairs are distinct.
\<close>

definition attack_inv :: "attack_state \<Rightarrow> bool" where
  "attack_inv s \<longleftrightarrow> reliable (uniq s) \<and>
     distinct (map t_key (ansq s) @ map nkey (q_t s)) \<and>
     set (map t_key (ansq s) @ map nkey (q_t s)) \<subseteq> dom (db_lookup (uniq s)) \<and>
     correct s = length (ansq s)"

text \<open>The work left: waiting pairs and ciphertext keys not yet inferred.\<close>

definition work :: "attack_dbs \<Rightarrow> attack_state \<Rightarrow> nat" where
  "work D s = length (q_t s) + card (t_universe D - dom (db_lookup (uniq s)))"

text \<open>One round, in the terms of the invariant.\<close>

definition round_rel :: "(node \<Rightarrow> node \<Rightarrow> bool res) \<Rightarrow> params \<Rightarrow> attack_dbs \<Rightarrow> attack_state \<Rightarrow> attack_state \<Rightarrow> bool" where
  "round_rel judge P D s s' \<longleftrightarrow>
     (\<exists>more. ansq s' = ansq s @ more \<and>
        (\<forall>p \<in> set more. judge (fst p) (snd p) = Ok True) \<and>
        set (map t_key more @ map nkey (q_t s')) \<subseteq> set (map nkey (q_t s)) \<union> t_universe D \<and>
        set (map (\<lambda>p. nkey (fst p)) more @ map nkey (q_o s')) \<subseteq> set (map nkey (q_o s)) \<union> o_universe D) \<and>
     total s' = total s \<and> common s' = common s \<and> leak s' = leak s \<and>
     length (q_o s') \<le> max (QUEUE_LIMIT P) (length (q_o s)) \<and>
     involve s' + work D s' \<le> involve s + work D s"

lemma round_rel_refl: "round_rel judge P D s s"
  by (simp add: round_rel_def)

lemma round_rel_trans:
  assumes "round_rel judge P D s s1" "round_rel judge P D s1 s2"
  shows "round_rel judge P D s s2"
proof -
  obtain m1 where m1: "ansq s1 = ansq s @ m1" "\<forall>p \<in> set m1. judge (fst p) (snd p) = Ok True"
      "set (map t_key m1 @ map nkey (q_t s1)) \<subseteq> set (map nkey (q_t s)) \<union> t_universe D"
      "set (map (\<lambda>p. nkey (fst p)) m1 @ map nkey (q_o s1)) \<subseteq> set (map nkey (q_o s)) \<union> o_universe D"
    using assms(1) by (auto simp: round_rel_def)
  obtain m2 where m2: "ansq s2 = ansq s1 @ m2" "\<forall>p \<in> set m2. judge (fst p) (snd p) = Ok True"
      "set (map t_key m2 @ map nkey (q_t s2)) \<subseteq> set (map nkey (q_t s1)) \<union> t_universe D"
      "set (map (\<lambda>p. nkey (fst p)) m2 @ map nkey (q_o s2)) \<subseteq> set (map nkey (q_o s1)) \<union> o_universe D"
    using assms(2) by (auto simp: round_rel_def)
  have "ansq s2 = ansq s @ (m1 @ m2)" using m1(1) m2(1) by simp
  moreover have "\<forall>p \<in> set (m1 @ m2). judge (fst p) (snd p) = Ok True" using m1(2) m2(2) by auto
  moreover have "set (map t_key (m1 @ m2) @ map nkey (q_t s2)) \<subseteq> set (map nkey (q_t s)) \<union> t_universe D"
    using m1(3) m2(3) by (simp only: map_append set_append) blast
  moreover have "set (map (\<lambda>p. nkey (fst p)) (m1 @ m2) @ map nkey (q_o s2)) \<subseteq> set (map nkey (q_o s)) \<union> o_universe D"
    using m1(4) m2(4) by (simp only: map_append set_append) blast
  ultimately show ?thesis
    using assms unfolding round_rel_def by (intro conjI) (blast, auto)
qed

lemma distinct_shift:
  "distinct (A @ k # T) \<Longrightarrow> set (A @ k # T) \<subseteq> U \<Longrightarrow> distinct N \<Longrightarrow> set N \<inter> U = {} \<Longrightarrow>
   distinct ((A @ (if b then [k] else [])) @ T @ N) \<and>
   set ((A @ (if b then [k] else [])) @ T @ N) \<subseteq> U \<union> set N"
  by auto

lemma attack_round_inv:
  assumes wf: "attack_wf P D" and inv: "attack_inv s" and ne: "q_o s \<noteq> []" "q_t s \<noteq> []"
    and j: "judge (hd (q_o s)) (hd (q_t s)) = Ok ok"
  shows "\<exists>s'. attack_round judge P D s = Ok s' \<and> attack_inv s' \<and> work D s' < work D s
    \<and> round_rel judge P D s s'"
proof -
  let ?o = "hd (q_o s)" and ?t = "hd (q_t s)"
  let ?m = "if ok then [(?o, ?t)] else []"
  have rel: "reliable (uniq s)" using inv by (simp add: attack_inv_def)
  obtain new s1 s' where s': "attack_round judge P D s = Ok s'"
      "s' = s1\<lparr>q_o := tl (q_o s1), q_t := tl (q_t s1), involve := involve s1 + 1\<rparr>"
    and g: "grown new (if ok then s\<lparr>ansq := ansq s @ [(?o, ?t)], correct := correct s + 1\<rparr> else s) s1"
    and u: "t_key ` set new \<subseteq> t_universe D" "(\<lambda>p. nkey (fst p)) ` set new \<subseteq> o_universe D"
    and len: "length (q_o s1) \<le> max (QUEUE_LIMIT P) (length (q_o s))"
    using attack_round_spec [of P D s judge ok, OF wf rel ne j] by blast
  obtain o1 os t1 ts where q: "q_o s = o1 # os" "q_t s = t1 # ts" using ne by (meson list.exhaust)
  have mk: "map (\<lambda>p. nkey (snd p)) new = map t_key new" by (simp add: t_key_def)
  have F: "ansq s' = ansq s @ ?m" "q_o s' = os @ map fst new" "q_t s' = ts @ map snd new"
      "correct s' = correct s + length ?m" "reliable (uniq s')"
      "dom (db_lookup (uniq s')) = dom (db_lookup (uniq s)) \<union> t_key ` set new"
      "total s' = total s" "common s' = common s" "leak s' = leak s" "involve s' = Suc (involve s)"
    using g q s'(2) by (auto simp: grown_def)
  have G: "distinct (map t_key new)" "t_key ` set new \<inter> dom (db_lookup (uniq s)) = {}"
    using g by (auto simp: grown_def split: if_splits)
  have card: "card (t_key ` set new) = length new"
    using G(1) by (metis distinct_card length_map list.set_map)
  have "t_universe D - dom (db_lookup (uniq s)) = (t_universe D - dom (db_lookup (uniq s'))) \<union> t_key ` set new"
    using F(6) G(2) u(1) by auto
  moreover have "(t_universe D - dom (db_lookup (uniq s'))) \<inter> t_key ` set new = {}"
    using F(6) by auto
  ultimately have W: "card (t_universe D - dom (db_lookup (uniq s)))
      = card (t_universe D - dom (db_lookup (uniq s'))) + length new"
    using card by (metis card_Un_disjoint finite_Diff finite_imageI finite_set finite_t_universe)
  then have work: "Suc (work D s') = work D s"
    using F(3) q(2) by (simp add: work_def)
  have keys: "map t_key (ansq s') @ map nkey (q_t s')
      = (map t_key (ansq s) @ (if ok then [nkey t1] else [])) @ map nkey ts @ map t_key new"
    using F(1,3) q by (simp add: t_key_def)
  have "distinct (map t_key (ansq s) @ nkey t1 # map nkey ts)"
      "set (map t_key (ansq s) @ nkey t1 # map nkey ts) \<subseteq> dom (db_lookup (uniq s))"
    using inv q(2) by (simp_all add: attack_inv_def)
  note shift = distinct_shift [OF this G(1), of ok, unfolded list.set_map, OF G(2)]
  have inv': "attack_inv s'"
    using inv F(1,4-6) shift unfolding attack_inv_def keys by auto
  have "round_rel judge P D s s'"
    unfolding round_rel_def
  proof (intro conjI)
    show "\<exists>more. ansq s' = ansq s @ more \<and> (\<forall>p \<in> set more. judge (fst p) (snd p) = Ok True) \<and>
        set (map t_key more @ map nkey (q_t s')) \<subseteq> set (map nkey (q_t s)) \<union> t_universe D \<and>
        set (map (\<lambda>p. nkey (fst p)) more @ map nkey (q_o s')) \<subseteq> set (map nkey (q_o s)) \<union> o_universe D"
      using F(1-3) q u j by (intro exI [of _ ?m]) (auto simp: t_key_def)
    show "length (q_o s') \<le> max (QUEUE_LIMIT P) (length (q_o s))"
      using len s'(2) by simp
    show "involve s' + work D s' \<le> involve s + work D s" using F(10) work by simp
  qed (use F in simp_all)
  then show ?thesis using s'(1) inv' work by auto
qed

text \<open>With fuel for the work left, the main loop ends with an empty queue.\<close>

lemma attack_loop_total:
  assumes wf: "attack_wf P D" and judge: "\<And>a b. \<exists>ok. judge a b = Ok ok"
  shows "attack_inv s \<Longrightarrow> work D s \<le> fuel \<Longrightarrow>
    \<exists>s'. attack_loop fuel judge P D s = Ok s' \<and> attack_inv s' \<and> (q_o s' = [] \<or> q_t s' = [])
      \<and> round_rel judge P D s s'"
proof (induction fuel arbitrary: s)
  case 0
  then have "q_t s = []" by (simp add: work_def)
  then show ?case using 0 by (simp add: attack_loop.simps round_rel_refl)
next
  case (Suc n)
  show ?case
  proof (cases "q_o s = [] \<or> q_t s = []")
    case True
    then show ?thesis using Suc.prems by (simp add: attack_loop.simps round_rel_refl)
  next
    case False
    obtain ok where "judge (hd (q_o s)) (hd (q_t s)) = Ok ok" using judge by blast
    then obtain s1 where s1: "attack_round judge P D s = Ok s1" "attack_inv s1" "work D s1 < work D s"
        "round_rel judge P D s s1"
      using attack_round_inv [of P D s judge ok, OF wf Suc.prems(1)] False by blast
    then have "work D s1 \<le> n" using Suc.prems(2) by simp
    then obtain s2 where s2: "attack_loop n judge P D s1 = Ok s2" "attack_inv s2"
        "q_o s2 = [] \<or> q_t s2 = []" "round_rel judge P D s1 s2"
      using Suc.IH [OF s1(2)] by blast
    have "attack_loop (Suc n) judge P D s = Ok s2"
      using False s1(1) s2(1) by (simp add: attack_loop.simps [of "Suc n"])
    then show ?thesis using s2 round_rel_trans [OF s1(4) s2(4)] by blast
  qed
qed

section \<open>Leaked pairs\<close>

text \<open>
  What \<open>stat_db\<close> adds, for \<open>pl\<close> the plaintext fingerprint of a ciphertext fingerprint (the identity in
  \<open>locality_attack.cc\<close>): a leaked pair carries a key of the target and its plaintext, the keys are
  distinct, and leaked keys whose plaintext the auxiliary database lacks are only counted.
\<close>

definition stat_rel :: "params \<Rightarrow> attack_dbs \<Rightarrow> (bytes \<Rightarrow> bytes) \<Rightarrow> bytes list \<Rightarrow> attack_state \<Rightarrow> attack_state \<Rightarrow> bool" where
  "stat_rel P D pl ks s s' \<longleftrightarrow>
     (\<exists>os ts. q_o s' = q_o s @ os \<and> q_t s' = q_t s @ ts \<and> map nkey os = map (\<lambda>n. pl (nkey n)) ts \<and>
        distinct (map nkey ts) \<and> nkey ` set ts \<subseteq> {k \<in> set ks. pl k \<in> dom (db_lookup (origin D))} \<and>
        dom (db_lookup (uniq s')) = dom (db_lookup (uniq s)) \<union> nkey ` set ts \<and>
        leak s' = leak s + length ts \<and>
        common s' \<le> common s + length ts + card {k \<in> set ks. pl k \<notin> dom (db_lookup (origin D))} \<and>
        common s + length ts \<le> common s' \<and>
        (\<not> leak_on P \<longrightarrow> ts = [] \<and> common s' = common s)) \<and>
     total s' = total s + length ks \<and> ansq s' = ansq s \<and> correct s' = correct s \<and>
     involve s' = involve s \<and> reliable (uniq s')"

lemma card_single: "P k \<Longrightarrow> card {x. x = k \<and> P x} = 1"
proof -
  assume "P k"
  then have "{x. x = k \<and> P x} = {k}" by auto
  then show ?thesis by simp
qed

lemma stat_entry_step:
  assumes org: "freq_wf (origin D)" and rel: "reliable (uniq s)" and k: "is_fp k" "length v = 8"
  shows "\<exists>s'. stat_entry P D r (k, v) s = Ok s' \<and> stat_rel P D (\<lambda>k. k) [k] s s'"
proof -
  have g: "db_get (origin D) k [] = (case db_lookup (origin D) k of None \<Rightarrow> (NotFound, []) | Some x \<Rightarrow> (OK, x))"
    using org by (simp add: freq_wf_def db_get_reliable)
  have len: "length x = 8" if "db_lookup (origin D) k = Some x" for x
    using org that by (simp add: freq_wf_def)
  show ?thesis
    using rel k len card_single [of "\<lambda>k. k \<notin> dom (db_lookup (origin D))" k]
    by (auto simp: stat_entry_def g stat_rel_def is_ok_def is_not_found_def memcpy_fp_def is_fp_def
        u64_at_def Let_def domIff split: option.split)
qed

lemma stat_rel_append:
  assumes "stat_rel P D pl ks s s1" "stat_rel P D pl ls s1 s2" "set ks \<inter> set ls = {}"
  shows "stat_rel P D pl (ks @ ls) s s2"
proof -
  let ?O = "dom (db_lookup (origin D))"
  obtain os1 ts1 where 1: "q_o s1 = q_o s @ os1" "q_t s1 = q_t s @ ts1" "map nkey os1 = map (\<lambda>n. pl (nkey n)) ts1"
      "distinct (map nkey ts1)" "nkey ` set ts1 \<subseteq> {k \<in> set ks. pl k \<in> ?O}"
      "dom (db_lookup (uniq s1)) = dom (db_lookup (uniq s)) \<union> nkey ` set ts1"
      "leak s1 = leak s + length ts1" "common s1 \<le> common s + length ts1 + card {k \<in> set ks. pl k \<notin> ?O}"
      "common s + length ts1 \<le> common s1" "\<not> leak_on P \<longrightarrow> ts1 = [] \<and> common s1 = common s"
    using assms(1) by (auto simp: stat_rel_def)
  obtain os2 ts2 where 2: "q_o s2 = q_o s1 @ os2" "q_t s2 = q_t s1 @ ts2" "map nkey os2 = map (\<lambda>n. pl (nkey n)) ts2"
      "distinct (map nkey ts2)" "nkey ` set ts2 \<subseteq> {k \<in> set ls. pl k \<in> ?O}"
      "dom (db_lookup (uniq s2)) = dom (db_lookup (uniq s1)) \<union> nkey ` set ts2"
      "leak s2 = leak s1 + length ts2" "common s2 \<le> common s1 + length ts2 + card {k \<in> set ls. pl k \<notin> ?O}"
      "common s1 + length ts2 \<le> common s2" "\<not> leak_on P \<longrightarrow> ts2 = [] \<and> common s2 = common s1"
    using assms(2) by (auto simp: stat_rel_def)
  have "{k \<in> set (ks @ ls). pl k \<notin> ?O} = {k \<in> set ks. pl k \<notin> ?O} \<union> {k \<in> set ls. pl k \<notin> ?O}" by auto
  moreover have "{k \<in> set ks. pl k \<notin> ?O} \<inter> {k \<in> set ls. pl k \<notin> ?O} = {}" using assms(3) by auto
  ultimately have card: "card {k \<in> set (ks @ ls). pl k \<notin> ?O} = card {k \<in> set ks. pl k \<notin> ?O} + card {k \<in> set ls. pl k \<notin> ?O}"
    by (simp add: card_Un_disjoint)
  have dist: "distinct (map nkey (ts1 @ ts2))"
    using 1(4,5) 2(4,5) assms(3) by (simp, blast)
  have "\<exists>os ts. q_o s2 = q_o s @ os \<and> q_t s2 = q_t s @ ts \<and> map nkey os = map (\<lambda>n. pl (nkey n)) ts \<and>
        distinct (map nkey ts) \<and> nkey ` set ts \<subseteq> {k \<in> set (ks @ ls). pl k \<in> ?O} \<and>
        dom (db_lookup (uniq s2)) = dom (db_lookup (uniq s)) \<union> nkey ` set ts \<and>
        leak s2 = leak s + length ts \<and>
        common s2 \<le> common s + length ts + card {k \<in> set (ks @ ls). pl k \<notin> ?O} \<and>
        common s + length ts \<le> common s2 \<and>
        (\<not> leak_on P \<longrightarrow> ts = [] \<and> common s2 = common s)"
  proof (rule exI [of _ "os1 @ os2"], rule exI [of _ "ts1 @ ts2"], intro conjI)
    show "nkey ` set (ts1 @ ts2) \<subseteq> {k \<in> set (ks @ ls). pl k \<in> ?O}" using 1(5) 2(5) by auto
    show "dom (db_lookup (uniq s2)) = dom (db_lookup (uniq s)) \<union> nkey ` set (ts1 @ ts2)"
      unfolding 1(6) 2(6) by auto
    show "common s2 \<le> common s + length (ts1 @ ts2) + card {k \<in> set (ks @ ls). pl k \<notin> ?O}"
      unfolding card using 1(8) 2(8) by simp
  qed (use 1(1-3,7,9,10) 2(1-3,7,9,10) dist in simp_all)
  then show ?thesis using assms(1,2) unfolding stat_rel_def by simp
qed

lemma stat_fold:
  assumes org: "freq_wf (origin D)"
  shows "\<lbrakk>reliable (uniq s); distinct (map fst es); \<And>k v. (k, v) \<in> set es \<Longrightarrow> is_fp k \<and> length v = 8\<rbrakk> \<Longrightarrow>
    \<exists>s'. res_fold (\<lambda>e s. stat_entry P D (rnd (total s)) e s) es s = Ok s' \<and> stat_rel P D (\<lambda>k. k) (map fst es) s s'"
proof (induction es arbitrary: s)
  case Nil
  then show ?case by (simp add: stat_rel_def)
next
  case (Cons e es)
  obtain k v where e: "e = (k, v)" by (cases e)
  then have "is_fp k" "length v = 8" using Cons.prems(3) by auto
  then obtain s1 where s1: "stat_entry P D (rnd (total s)) (k, v) s = Ok s1" "stat_rel P D (\<lambda>k. k) [k] s s1"
    using stat_entry_step [OF org Cons.prems(1)] by blast
  then have "reliable (uniq s1)" by (simp add: stat_rel_def)
  then obtain s2 where s2: "res_fold (\<lambda>e s. stat_entry P D (rnd (total s)) e s) es s1 = Ok s2"
      "stat_rel P D (\<lambda>k. k) (map fst es) s1 s2"
    using Cons.IH [of s1] Cons.prems(2,3) by auto
  have "stat_rel P D (\<lambda>k. k) ([k] @ map fst es) s s2"
    by (rule stat_rel_append [OF s1(2) s2(2)]) (use Cons.prems(2) e in auto)
  then show ?case using s1(1) s2(1) e by simp
qed

end
