(* ===== verification/LocalityRun.thy ===== *)
theory LocalityRun
  imports LocalityAttack
begin

text \<open>
  Whole runs of the locality-based attack: what the seeding selects, that the run ends, what it
  reports, and the run of counter and attack together on two traces.
\<close>

section \<open>Seeding\<close>

definition freq_nodes :: "kvdb \<Rightarrow> node list" where
  "freq_nodes db = map (\<lambda>(k, v). \<lparr>nkey = take FP_SIZE k, ncount = u64_read v\<rparr>) (entries db)"

text \<open>\<open>ns\<close> lists \<open>k\<close> most frequent nodes of \<open>all\<close>, the most frequent first.\<close>

definition top_nodes :: "nat \<Rightarrow> node list \<Rightarrow> node list \<Rightarrow> bool" where
  "top_nodes k all ns \<longleftrightarrow>
     sorted_wrt (\<lambda>a b. ncount b \<le> ncount a) ns \<and> best_of node_cmp k (mset all) (mset ns)"

lemma top_nodes_drain:
  assumes "is_heap node_cmp v" "best_of node_cmp k (mset all) (mset v)"
  shows "top_nodes k all (rev (pq_drain node_cmp v))"
proof -
  have "sorted_wrt (\<lambda>a b. ncount a \<le> ncount b) (pq_drain node_cmp v)"
    using nq.drain_sorted [OF assms(1)]
    by (auto simp: node_cmp_def not_less elim: sorted_wrt_mono_rel [rotated])
  then show ?thesis
    using assms(2) by (simp add: top_nodes_def sorted_wrt_rev mset_drain)
qed

lemma top_nodes_set: "top_nodes k all ns \<Longrightarrow> set ns \<subseteq> set all"
  by (auto simp: top_nodes_def best_of_def dest: mset_subset_eqD)

lemma top_nodes_distinct:
  assumes "top_nodes k all ns" "distinct (map nkey all)"
  shows "distinct (map nkey ns)"
proof -
  have "mset (map nkey ns) \<subseteq># mset (map nkey all)"
    using assms(1) by (simp add: top_nodes_def best_of_def image_mset_subseteq_mono)
  moreover have "count (mset (map nkey all)) a \<le> 1" for a
    using assms(2) distinct_count_atmost_1 [of "map nkey all"] by auto
  ultimately have le: "count (mset (map nkey ns)) a \<le> 1" for a
    using mset_subset_eq_count le_trans by metis
  show ?thesis
    unfolding distinct_count_atmost_1
  proof
    fix a
    have "a \<in> set (map nkey ns) \<longleftrightarrow> 0 < count (mset (map nkey ns)) a"
      by (simp del: mset_map set_map)
    then show "count (mset (map nkey ns)) a = (if a \<in> set (map nkey ns) then 1 else 0)"
      using le [of a] by (split if_split) linarith
  qed
qed

lemma keys_freq_nodes:
  assumes "freq_wf db" "fp_keys db"
  shows "map nkey (freq_nodes db) = map fst (entries db)"
proof -
  have "take FP_SIZE (fst e) = fst e" if "e \<in> set (entries db)" for e
  proof -
    have "fst e \<in> dom (db_lookup db)" using that by (simp add: dom_map_of_conv_image_fst)
    then show ?thesis using assms(2) by (simp add: fp_keys_def is_fp_def)
  qed
  then show ?thesis by (auto simp: freq_nodes_def)
qed

lemma db_insert_fold:
  assumes "freq_wf db" "fp_keys db"
  shows "db_insert db k pq = res_fold (pq_offer node_cmp node_cmp k) (freq_nodes db) pq"
proof -
  have "length v = 8 \<and> length a = FP_SIZE" if "(a, v) \<in> set (entries db)" for a v
    using that assms kv.set_scan [of "entries db" a v]
    by (auto simp: freq_wf_def db_wf_def fp_keys_def is_fp_def)
  then show ?thesis
    unfolding db_insert_def freq_nodes_def res_fold_map beats_node_cmp
    by (intro res_fold_cong) (auto simp: u64_at_def memcpy_fp_def)
qed

lemma db_insert_top:
  assumes "freq_wf db" "fp_keys db" "0 < k"
  shows "\<exists>pq. db_insert db k [] = Ok pq \<and> top_nodes k (freq_nodes db) (rev (pq_drain node_cmp pq))"
proof -
  obtain pq where "res_fold (pq_offer node_cmp node_cmp k) (freq_nodes db) [] = Ok pq"
    "is_heap node_cmp pq" "best_of node_cmp k (mset (freq_nodes db)) (mset pq)"
    using nq.best_of_fold_empty [OF assms(3)] by blast
  then show ?thesis using db_insert_fold [OF assms(1,2)] top_nodes_drain by force
qed

lemma fold_put:
  assumes "reliable u"
  shows "reliable (fold (\<lambda>n u. snd (db_put u (nkey n) (f n))) ns u)
    \<and> dom (db_lookup (fold (\<lambda>n u. snd (db_put u (nkey n) (f n))) ns u)) = dom (db_lookup u) \<union> nkey ` set ns"
  using assms by (induction ns arbitrary: u) auto

lemma seed_queues_spec:
  assumes "freq_wf (origin D)" "fp_keys (origin D)" "freq_wf (target D)" "fp_keys (target D)"
    and "0 < INIT P" "\<not> leak_on P"
  shows "\<exists>no nt. seed_queues P D s
        = Ok (s\<lparr>q_o := q_o s @ no,
                uniq := fold (\<lambda>n u. snd (db_put u (nkey n) (count_slice (ncount n)))) nt (uniq s),
                q_t := q_t s @ nt\<rparr>)
    \<and> top_nodes (INIT P) (freq_nodes (origin D)) no \<and> top_nodes (INIT P) (freq_nodes (target D)) nt"
proof -
  obtain p1 p2 where
    "db_insert (origin D) (INIT P) [] = Ok p1" "top_nodes (INIT P) (freq_nodes (origin D)) (rev (pq_drain node_cmp p1))"
    "db_insert (target D) (INIT P) [] = Ok p2" "top_nodes (INIT P) (freq_nodes (target D)) (rev (pq_drain node_cmp p2))"
    using db_insert_top assms(1-5) by metis
  then show ?thesis using assms(6) by (auto simp: seed_queues_def Let_def)
qed

section \<open>The start of the main loop\<close>

text \<open>The databases of a run: what the counter writes, and positive limits.\<close>

definition run_wf :: "params \<Rightarrow> attack_dbs \<Rightarrow> bool" where
  "run_wf P D \<longleftrightarrow> attack_wf P D \<and> 0 < INIT P \<and> freq_wf (origin D) \<and> fp_keys (origin D) \<and>
     freq_wf (target D) \<and> fp_keys (target D)"

text \<open>The state before the first round.\<close>

definition start_ok :: "attack_dbs \<Rightarrow> (bytes \<Rightarrow> bytes) \<Rightarrow> attack_state \<Rightarrow> bool" where
  "start_ok D pl s \<longleftrightarrow> attack_inv s \<and> ansq s = [] \<and> involve s = 0 \<and>
     total s = length (entries (target D)) \<and>
     nkey ` set (q_t s) \<subseteq> dom (db_lookup (target D)) \<and>
     nkey ` set (q_o s) \<subseteq> dom (db_lookup (origin D)) \<and>
     leak s \<le> common s \<and>
     common s - leak s \<le> card {k \<in> dom (db_lookup (target D)). pl k \<notin> dom (db_lookup (origin D))}"

lemma stat_db_spec:
  assumes "freq_wf (origin D)" "freq_wf (target D)" "fp_keys (target D)" "reliable (uniq s)"
  shows "\<exists>s'. stat_db P D rnd s = Ok s' \<and> stat_rel P D (\<lambda>k. k) (map fst (entries (target D))) s s'"
  unfolding stat_db_def
proof (rule stat_fold [OF assms(1,4)])
  have srt: "kv_sorted (entries (target D))" using assms(2) by (simp add: freq_wf_def db_wf_def)
  then show "distinct (map fst (entries (target D)))" by (rule kv.scan_distinct)
  fix k v
  assume "(k, v) \<in> set (entries (target D))"
  then have "db_lookup (target D) k = Some v" using kv.set_scan [OF srt] by simp
  then show "is_fp k \<and> length v = 8" using assms(2,3) by (auto simp: freq_wf_def fp_keys_def)
qed

lemma start_leaked:
  assumes "stat_rel P D pl (map fst (entries (target D))) (attack_init u) s" "entries u = []"
  shows "start_ok D pl s" "\<not> leak_on P \<Longrightarrow> q_o s = [] \<and> q_t s = [] \<and> dom (db_lookup (uniq s)) = {}"
proof -
  have dom: "dom (db_lookup (target D)) = set (map fst (entries (target D)))"
    by (simp add: dom_map_of_conv_image_fst)
  obtain os ts where q: "q_o s = os" "q_t s = ts" "map nkey os = map (\<lambda>n. pl (nkey n)) ts" "distinct (map nkey ts)"
      "nkey ` set ts \<subseteq> {k \<in> dom (db_lookup (target D)). pl k \<in> dom (db_lookup (origin D))}"
      "dom (db_lookup (uniq s)) = nkey ` set ts" "leak s = length ts"
      "common s \<le> length ts + card {k \<in> dom (db_lookup (target D)). pl k \<notin> dom (db_lookup (origin D))}"
      "length ts \<le> common s" "\<not> leak_on P \<longrightarrow> ts = []"
    using assms unfolding stat_rel_def dom by (auto simp: attack_init_def)
  have "nkey ` set os = (\<lambda>n. pl (nkey n)) ` set ts" using q(3) by (metis list.set_map)
  moreover have "ansq s = []" "correct s = 0" "involve s = 0" "total s = length (entries (target D))"
      "reliable (uniq s)"
    using assms(1) by (auto simp: stat_rel_def attack_init_def)
  ultimately show "start_ok D pl s"
    using q by (auto simp: start_ok_def attack_inv_def)
  show "\<not> leak_on P \<Longrightarrow> q_o s = [] \<and> q_t s = [] \<and> dom (db_lookup (uniq s)) = {}"
    using q by auto
qed

lemma nkey_top_nodes:
  assumes "top_nodes k (freq_nodes db) ns" "freq_wf db" "fp_keys db"
  shows "nkey ` set ns \<subseteq> dom (db_lookup db)" "distinct (map nkey ns)"
proof -
  have keys: "map nkey (freq_nodes db) = map fst (entries db)" by (rule keys_freq_nodes [OF assms(2,3)])
  have "nkey ` set ns \<subseteq> set (map nkey (freq_nodes db))" using top_nodes_set [OF assms(1)] by auto
  then show "nkey ` set ns \<subseteq> dom (db_lookup db)" unfolding keys by (simp add: dom_map_of_conv_image_fst)
  have "kv_sorted (entries db)" using assms(2) by (simp add: freq_wf_def db_wf_def)
  then have "distinct (map nkey (freq_nodes db))" unfolding keys by (rule kv.scan_distinct)
  then show "distinct (map nkey ns)" using top_nodes_distinct [OF assms(1)] by blast
qed

lemma start_seeded:
  assumes wf: "run_wf P D" and s: "start_ok D pl s" and off: "\<not> leak_on P"
    and e: "q_o s = []" "q_t s = []" "dom (db_lookup (uniq s)) = {}"
  shows "\<exists>s'. seed_queues P D s = Ok s' \<and> start_ok D pl s'
    \<and> top_nodes (INIT P) (freq_nodes (origin D)) (q_o s') \<and> top_nodes (INIT P) (freq_nodes (target D)) (q_t s')"
proof -
  have w: "freq_wf (origin D)" "fp_keys (origin D)" "freq_wf (target D)" "fp_keys (target D)" "0 < INIT P"
    using wf by (simp_all add: run_wf_def)
  obtain no nt where S: "seed_queues P D s
      = Ok (s\<lparr>q_o := q_o s @ no,
              uniq := fold (\<lambda>n u. snd (db_put u (nkey n) (count_slice (ncount n)))) nt (uniq s),
              q_t := q_t s @ nt\<rparr>)" (is "_ = Ok ?s'")
    and t: "top_nodes (INIT P) (freq_nodes (origin D)) no" "top_nodes (INIT P) (freq_nodes (target D)) nt"
    using seed_queues_spec [OF w off, of s] by blast
  have "reliable (uniq s)" using s by (simp add: start_ok_def attack_inv_def)
  note put = fold_put [OF this, of "\<lambda>n. count_slice (ncount n)" nt]
  have "start_ok D pl ?s'"
    using s e put nkey_top_nodes [OF t(1)] nkey_top_nodes [OF t(2)] w
    by (simp add: start_ok_def attack_inv_def)
  then show ?thesis using S t e by auto
qed

text \<open>The state in which the main loop starts, by the two phases before it.\<close>

lemma attack_start:
  assumes wf: "run_wf P D" and u: "reliable u" "entries u = []"
  shows "\<exists>s1 s. stat_db P D rnd (attack_init u) = Ok s1 \<and> seed_queues P D s1 = Ok s \<and> start_ok D (\<lambda>k. k) s
    \<and> (\<not> leak_on P \<longrightarrow> top_nodes (INIT P) (freq_nodes (origin D)) (q_o s)
         \<and> top_nodes (INIT P) (freq_nodes (target D)) (q_t s))"
proof -
  have "reliable (uniq (attack_init u))" using u by (simp add: attack_init_def)
  then obtain s1 where s1: "stat_db P D rnd (attack_init u) = Ok s1"
      "stat_rel P D (\<lambda>k. k) (map fst (entries (target D))) (attack_init u) s1"
    using stat_db_spec wf unfolding run_wf_def by blast
  show ?thesis
  proof (cases "leak_on P")
    case True
    then have "seed_queues P D s1 = Ok s1" by (simp add: seed_queues_def)
    then show ?thesis using s1 start_leaked(1) [OF s1(2) u(2)] True by auto
  next
    case False
    then show ?thesis
      using start_seeded [OF wf start_leaked(1) [OF s1(2) u(2)] False]
        start_leaked(2) [OF s1(2) u(2)] s1(1) by auto
  qed
qed

text \<open>The fuel a run needs.\<close>

definition run_bound :: "attack_dbs \<Rightarrow> nat" where
  "run_bound D = card (dom (db_lookup (target D)) \<union> t_universe D)"

lemma work_start:
  assumes "start_ok D pl s"
  shows "work D s \<le> run_bound D"
proof -
  let ?Q = "set (map nkey (q_t s))" and ?U = "t_universe D - dom (db_lookup (uniq s))"
  have d: "distinct (map nkey (q_t s))" "?Q \<subseteq> dom (db_lookup (uniq s))"
    using assms by (auto simp: start_ok_def attack_inv_def)
  have "card ?Q = length (q_t s)" using distinct_card [OF d(1)] by simp
  moreover have "card (?Q \<union> ?U) = card ?Q + card ?U"
    by (rule card_Un_disjoint) (use d(2) in auto)
  moreover have "card (?Q \<union> ?U) \<le> run_bound D"
    unfolding run_bound_def
    by (rule card_mono) (use assms in \<open>auto simp: start_ok_def finite_dom_map_of\<close>)
  ultimately show ?thesis by (simp add: work_def)
qed

lemma judge_same_Ok [simp]: "judge_same a b = Ok True \<longleftrightarrow> nkey a = nkey b"
  by (simp add: judge_same_def)

text \<open>The end of a run, in terms of the databases.\<close>

definition end_ok :: "(node \<Rightarrow> node \<Rightarrow> bool res) \<Rightarrow> attack_dbs \<Rightarrow> (bytes \<Rightarrow> bytes) \<Rightarrow> attack_state \<Rightarrow> bool" where
  "end_ok judge D pl s \<longleftrightarrow>
     total s = card (dom (db_lookup (target D))) \<and> correct s = length (ansq s) \<and>
     involve s \<le> run_bound D \<and> distinct (map t_key (ansq s)) \<and>
     (\<forall>p \<in> set (ansq s). judge (fst p) (snd p) = Ok True) \<and>
     t_key ` set (ansq s) \<subseteq> dom (db_lookup (target D)) \<union> t_universe D \<and>
     (\<lambda>p. nkey (fst p)) ` set (ansq s) \<subseteq> dom (db_lookup (origin D)) \<union> o_universe D \<and>
     leak s \<le> common s \<and>
     common s - leak s \<le> card {k \<in> dom (db_lookup (target D)). pl k \<notin> dom (db_lookup (origin D))}"

lemma attack_end:
  assumes wf: "run_wf P D" and s: "start_ok D pl s" and judge: "\<And>a b. \<exists>ok. judge a b = Ok ok"
    and fuel: "run_bound D \<le> fuel"
  shows "\<exists>s'. attack_loop fuel judge P D s = Ok s' \<and> end_ok judge D pl s' \<and> (q_o s' = [] \<or> q_t s' = [])"
proof -
  have inv: "attack_inv s" "attack_wf P D" using s wf by (auto simp: start_ok_def run_wf_def)
  have le: "work D s \<le> fuel" using work_start [OF s] fuel by simp
  obtain s' where s': "attack_loop fuel judge P D s = Ok s'" "attack_inv s'" "q_o s' = [] \<or> q_t s' = []"
      "round_rel judge P D s s'"
    using attack_loop_total [of P D judge s fuel, OF inv(2) judge inv(1) le] by blast
  have "kv_sorted (entries (target D))" using wf by (simp add: run_wf_def freq_wf_def db_wf_def)
  then have card: "card (dom (db_lookup (target D))) = length (entries (target D))"
    by (metis distinct_card dom_map_of_conv_image_fst kv.scan_distinct length_map list.set_map)
  have R: "involve s' + work D s' \<le> involve s + work D s" "total s' = total s" "common s' = common s"
      "leak s' = leak s"
    using s'(4) by (simp_all add: round_rel_def)
  have S: "total s = length (entries (target D))" "ansq s = []" "involve s = 0" "leak s \<le> common s"
      "nkey ` set (q_t s) \<subseteq> dom (db_lookup (target D))" "nkey ` set (q_o s) \<subseteq> dom (db_lookup (origin D))"
      "common s - leak s \<le> card {k \<in> dom (db_lookup (target D)). pl k \<notin> dom (db_lookup (origin D))}"
    using s by (simp_all add: start_ok_def)
  have A: "correct s' = length (ansq s')" "distinct (map t_key (ansq s'))"
    using s'(2) by (simp_all add: attack_inv_def)
  have M: "\<forall>p \<in> set (ansq s'). judge (fst p) (snd p) = Ok True"
      "t_key ` set (ansq s') \<subseteq> nkey ` set (q_t s) \<union> t_universe D"
      "(\<lambda>p. nkey (fst p)) ` set (ansq s') \<subseteq> nkey ` set (q_o s) \<union> o_universe D"
    using s'(4) S(2) by (auto simp: round_rel_def)
  have "end_ok judge D pl s'"
    unfolding end_ok_def
  proof (intro conjI)
    show "t_key ` set (ansq s') \<subseteq> dom (db_lookup (target D)) \<union> t_universe D" using M(2) S(5) by blast
    show "(\<lambda>p. nkey (fst p)) ` set (ansq s') \<subseteq> dom (db_lookup (origin D)) \<union> o_universe D"
      using M(3) S(6) by blast
    show "involve s' \<le> run_bound D" using R(1) S(3) work_start [OF s] by simp
  qed (use A M(1) R S card in simp_all)
  then show ?thesis using s'(1,3) by blast
qed

lemma locality_attack_ends:
  assumes wf: "run_wf P D" and u: "reliable u" "entries u = []" and fuel: "run_bound D \<le> fuel"
  shows "\<exists>s. locality_attack fuel P D u rnd = Ok (attack_report_of s) \<and> end_ok judge_same D (\<lambda>k. k) s"
proof -
  obtain s1 s where st: "stat_db P D rnd (attack_init u) = Ok s1" "seed_queues P D s1 = Ok s" "start_ok D (\<lambda>k. k) s"
    using attack_start [OF wf u] by blast
  have "\<exists>ok. judge_same a b = Ok ok" for a b by (simp add: judge_same_def)
  then obtain s' where "attack_loop fuel judge_same P D s = Ok s'" "end_ok judge_same D (\<lambda>k. k) s'"
    using attack_end [OF wf st(3) _ fuel, of judge_same] by blast
  then show ?thesis using st by (auto simp: locality_attack_def main_loop_def)
qed

text \<open>The inferred fingerprints, when the test is equality of the two keys.\<close>

lemma inferred_t_keys:
  assumes "end_ok judge_same D (\<lambda>k. k) s"
  shows "ar_inferred (attack_report_of s) = rev (map t_key (ansq s))"
proof -
  have "\<forall>p \<in> set (ansq s). nkey (fst p) = t_key p"
    using assms by (auto simp: end_ok_def t_key_def)
  then have "map (\<lambda>p. nkey (fst p)) (ansq s) = map t_key (ansq s)" by simp
  then show ?thesis by (simp add: attack_report_of_def rev_map case_prod_beta')
qed

lemma end_bound:
  assumes e: "end_ok judge D pl s" and j: "\<And>a b. judge a b = Ok True \<Longrightarrow> nkey a = pl (nkey b)"
    and closed: "o_universe D \<subseteq> dom (db_lookup (origin D))" "t_universe D \<subseteq> dom (db_lookup (target D))"
  shows "correct s + common s - leak s \<le> total s"
proof -
  let ?T = "dom (db_lookup (target D))" and ?O = "dom (db_lookup (origin D))"
  have k: "\<forall>p \<in> set (ansq s). nkey (fst p) = pl (t_key p)"
    using e j by (auto simp: end_ok_def t_key_def)
  have "t_key ` set (ansq s) \<subseteq> ?T" using e closed(2) unfolding end_ok_def by blast
  moreover have "(\<lambda>p. nkey (fst p)) ` set (ansq s) \<subseteq> ?O" using e closed(1) unfolding end_ok_def by blast
  ultimately have sub: "t_key ` set (ansq s) \<subseteq> {k \<in> ?T. pl k \<in> ?O}" using k by auto
  have fin: "finite ?T" by (simp add: finite_dom_map_of)
  have "distinct (map t_key (ansq s))" using e by (simp add: end_ok_def)
  then have "length (ansq s) = card (t_key ` set (ansq s))"
    by (metis distinct_card length_map list.set_map)
  also have "\<dots> \<le> card {k \<in> ?T. pl k \<in> ?O}" using sub fin by (simp add: card_mono)
  finally have le: "length (ansq s) \<le> card {k \<in> ?T. pl k \<in> ?O}" .
  have "card {k \<in> ?T. pl k \<in> ?O} + card {k \<in> ?T. pl k \<notin> ?O} = card ({k \<in> ?T. pl k \<in> ?O} \<union> {k \<in> ?T. pl k \<notin> ?O})"
    using fin by (intro card_Un_disjoint [symmetric]) auto
  also have "{k \<in> ?T. pl k \<in> ?O} \<union> {k \<in> ?T. pl k \<notin> ?O} = ?T" by auto
  finally have "length (ansq s) + card {k \<in> ?T. pl k \<notin> ?O} \<le> card ?T" using le by simp
  moreover have "total s = card ?T" "correct s = length (ansq s)"
      "common s - leak s \<le> card {k \<in> ?T. pl k \<notin> ?O}"
    using e by (simp_all add: end_ok_def)
  ultimately show ?thesis by linarith
qed

text \<open>
  C9. The attack terminates. On databases as the counter leaves them, with positive \<open>u\<close> and \<open>v\<close> and an
  empty inference database, the main loop ends after at most \<open>run_bound D\<close> rounds (the number of
  ciphertext fingerprints in the target databases). It reports the number of unique ciphertext
  chunks; the inferred fingerprints are pairwise distinct and known to both sides; and when every
  recorded neighbour is itself a counted chunk, the number of correct inferences, which adds the
  leaked chunks that the auxiliary data lack, is at most the number of unique chunks.
\<close>

theorem locality_attack_total:
  assumes "run_wf P D" "reliable u" "entries u = []" "run_bound D \<le> fuel"
  shows "\<exists>r. locality_attack fuel P D u rnd = Ok r
    \<and> ar_total r = card (dom (db_lookup (target D)))
    \<and> distinct (ar_inferred r)
    \<and> set (ar_inferred r) \<subseteq> (dom (db_lookup (origin D)) \<union> o_universe D) \<inter> (dom (db_lookup (target D)) \<union> t_universe D)
    \<and> (o_universe D \<subseteq> dom (db_lookup (origin D)) \<and> t_universe D \<subseteq> dom (db_lookup (target D))
        \<longrightarrow> ar_correct r \<le> ar_total r)"
proof -
  obtain s where s: "locality_attack fuel P D u rnd = Ok (attack_report_of s)" "end_ok judge_same D (\<lambda>k. k) s"
    using locality_attack_ends [OF assms] by blast
  note inf = inferred_t_keys [OF s(2)]
  have keys: "(\<lambda>p. nkey (fst p)) ` set (ansq s) = t_key ` set (ansq s)"
    using s(2) by (intro image_cong) (auto simp: end_ok_def t_key_def)
  show ?thesis
  proof (intro exI [of _ "attack_report_of s"] conjI impI)
    show "set (ar_inferred (attack_report_of s)) \<subseteq> (dom (db_lookup (origin D)) \<union> o_universe D) \<inter>
        (dom (db_lookup (target D)) \<union> t_universe D)"
      unfolding inf using s(2) keys by (simp add: end_ok_def)
    show "ar_correct (attack_report_of s) \<le> ar_total (attack_report_of s)"
      if "o_universe D \<subseteq> dom (db_lookup (origin D)) \<and> t_universe D \<subseteq> dom (db_lookup (target D))"
      using end_bound [OF s(2)] that by (simp add: attack_report_of_def)
    show "distinct (ar_inferred (attack_report_of s))" unfolding inf using s(2) by (simp add: end_ok_def)
    show "ar_total (attack_report_of s) = card (dom (db_lookup (target D)))"
      using s(2) by (simp add: attack_report_of_def end_ok_def)
  qed (rule s(1))
qed

text \<open>A concrete run: one database on both sides, no neighbours recorded.\<close>

definition sample_params :: params where
  "sample_params = \<lparr>INIT = 1, TH_K = 2, QUEUE_LIMIT = 10, leak_on = False, leak_bound = 0\<rparr>"

definition sample_dbs :: attack_dbs where
  "sample_dbs = (let f = db_of [([1, 2, 3, 4, 5, 6], u64_bytes 3), ([2, 2, 3, 4, 5, 6], u64_bytes 9)] in
     \<lparr>origin = f, left_o = db_empty, right_o = db_empty, target = f, left_t = db_empty, right_t = db_empty\<rparr>)"

lemma sample_run_wf: "run_wf sample_params sample_dbs"
  using sample_wf by (simp add: run_wf_def attack_wf_def sample_params_def sample_dbs_def Let_def)

lemma nb_keys_empty [simp]: "nb_keys db_empty = {}"
  by (simp add: nb_keys_def)

lemma sample_dbs_dom:
  "dom (db_lookup (target sample_dbs)) = {[1, 2, 3, 4, 5, 6], [2, 2, 3, 4, 5, 6]}"
  "t_universe sample_dbs = {}" "run_bound sample_dbs = 2"
  by (auto simp: sample_dbs_def db_of_def t_universe_def run_bound_def Let_def)

theorem locality_attack_total_witness:
  "\<exists>r. locality_attack 2 sample_params sample_dbs db_empty (\<lambda>_. 0) = Ok r \<and> ar_total r = 2 \<and> distinct (ar_inferred r)"
proof -
  have "\<exists>r. locality_attack 2 sample_params sample_dbs db_empty (\<lambda>_. 0) = Ok r
      \<and> ar_total r = card (dom (db_lookup (target sample_dbs))) \<and> distinct (ar_inferred r)"
    using locality_attack_total [OF sample_run_wf, of db_empty 2 "\<lambda>_. 0"] sample_dbs_dom db_empty_simps(1)
    by (auto simp: db_empty_def)
  then show ?thesis unfolding sample_dbs_dom(1) by (simp add: numeral_2_eq_2)
qed

section \<open>Counter and attack together\<close>

definition dbs_of :: "lc_state \<Rightarrow> lc_state \<Rightarrow> attack_dbs" where
  "dbs_of so st = \<lparr>origin = lc_db so, left_o = store_left so, right_o = store_right so,
     target = lc_db st, left_t = store_left st, right_t = store_right st\<rparr>"

lemma set_tl: "x \<in> set (tl xs) \<Longrightarrow> x \<in> set xs"
  by (cases xs) auto

lemma adj_set: "(a, b) \<in> set (adj False la fps) \<Longrightarrow> a \<in> set fps \<and> b \<in> set fps"
  by (auto simp: adj_def dest: set_zip_leftD set_zip_rightD set_tl)

text \<open>The databases of a trace without NUL bytes: all keys and neighbours are its fingerprints.\<close>

lemma lc_read_closed:
  assumes "nul_free_trace (trace_fps file)"
  shows "\<exists>s. lc_read_hashes file db_empty db_empty db_empty = Ok s \<and> lc_wf s
    \<and> dom (db_lookup (lc_db s)) = set (trace_fps file)
    \<and> nb_keys (store_left s) \<union> nb_keys (store_right s) \<subseteq> set (trace_fps file)"
proof -
  let ?s0 = "\<lparr>lc_db = db_empty, store_left = db_empty, store_right = db_empty,
       lc_last = replicate FP_SIZE 0, lc_flag = False\<rparr>"
  let ?F = "set (trace_fps file)"
  have "lc_wf ?s0" by (simp add: lc_wf_def)
  then obtain s where s: "lc_read_hashes file db_empty db_empty db_empty = Ok s" "lc_wf s"
      "lc_counts ?s0 (trace_fps file) s"
    using lc_fold_counts [of ?s0 "trace_fps file"] lc_read_hashes_fold by metis
  have id: "assign_resize f = f" if "f \<in> ?F" for f
    using that assms trace_fps_fp [OF that]
    by (auto simp: nul_free_trace_def list_all_iff intro: assign_resize_nul_free)
  note A = adj_set [of _ _ "replicate FP_SIZE 0" "trace_fps file"]
  have "fst ` set (nb_table (store_left s) c) \<subseteq> ?F" for c
  proof -
    have "fst ` set (nb_table (store_left s) c)
        = {assign_resize a | a. (a, c) \<in> set (adj False (replicate FP_SIZE 0) (trace_fps file))}"
      using s(3) by (simp add: lc_counts_def nb_table_def)
    then show ?thesis using id A by auto
  qed
  moreover have "fst ` set (nb_table (store_right s) c) \<subseteq> ?F" for c
  proof -
    have "fst ` set (nb_table (store_right s) c)
        = {assign_resize b | b. (c, b) \<in> set (adj False (replicate FP_SIZE 0) (trace_fps file))}"
      using s(3) by (simp add: lc_counts_def nb_table_def)
    then show ?thesis using id A by auto
  qed
  moreover have "dom (db_lookup (lc_db s)) = ?F" using s(3) by (simp add: lc_counts_def)
  ultimately show ?thesis using s(1,2) unfolding nb_keys_def by blast
qed



section \<open>The target as its own auxiliary data\<close>

definition same_front :: "attack_state \<Rightarrow> bool" where
  "same_front s \<longleftrightarrow> q_o s = q_t s \<and> correct s = involve s"

lemma enqueue_pairs_keeps:
  "correct (enqueue_pairs limit ps s) = correct s \<and> involve (enqueue_pairs limit ps s) = involve s"
  by (induction limit ps s rule: enqueue_pairs.induct) auto

lemma enqueue_pairs_queues:
  "\<forall>p \<in> set ps. fst p = snd p \<Longrightarrow> q_o s = q_t s \<Longrightarrow>
    q_o (enqueue_pairs limit ps s) = q_t (enqueue_pairs limit ps s)"
  by (induction limit ps s rule: enqueue_pairs.induct) auto

lemma pair_up_self: "p \<in> set (pair_up pq pq) \<Longrightarrow> fst p = snd p"
  by (auto simp: pair_up_def in_set_zip)

lemma attack_round_same:
  assumes D: "left_o D = left_t D" "right_o D = right_t D" and s: "same_front s"
    and r: "attack_round judge_same P D s = Ok s'"
  shows "same_front s'"
proof -
  let ?s0 = "s\<lparr>ansq := ansq s @ [(hd (q_o s), hd (q_t s))], correct := correct s + 1\<rparr>"
  have q: "q_o s = q_t s" "correct s = involve s" using s by (simp_all add: same_front_def)
  obtain pl pr where pl: "left_insert D 0 (nkey (hd (q_t s))) (TH_K P) [] = Ok pl"
      "right_insert D 0 (nkey (hd (q_t s))) (TH_K P) [] = Ok pr"
    and s': "s' = (let s2 = enqueue_pairs (QUEUE_LIMIT P) (pair_up pr pr)
            (enqueue_pairs (QUEUE_LIMIT P) (pair_up pl pl) ?s0)
          in s2\<lparr>q_o := tl (q_o s2), q_t := tl (q_t s2), involve := involve s2 + 1\<rparr>)"
    using r q(1) D by (auto simp: attack_round_def judge_same_def left_insert_def right_insert_def Let_def)
  let ?s1 = "enqueue_pairs (QUEUE_LIMIT P) (pair_up pl pl) ?s0"
  let ?s2 = "enqueue_pairs (QUEUE_LIMIT P) (pair_up pr pr) ?s1"
  have "q_o ?s1 = q_t ?s1" using q(1) pair_up_self by (intro enqueue_pairs_queues) auto
  then have "q_o ?s2 = q_t ?s2" by (rule enqueue_pairs_queues [rotated]) (blast intro: pair_up_self)
  moreover have "correct ?s2 = correct s + 1" "involve ?s2 = involve s"
    by (simp_all add: enqueue_pairs_keeps)
  ultimately show ?thesis using q s' by (simp add: same_front_def Let_def)
qed

lemma attack_loop_same:
  assumes "left_o D = left_t D" "right_o D = right_t D"
  shows "same_front s \<Longrightarrow> attack_loop fuel judge_same P D s = Ok s' \<Longrightarrow> same_front s'"
proof (induction fuel arbitrary: s)
  case 0
  then show ?case by (simp add: attack_loop.simps split: if_splits)
next
  case (Suc n)
  show ?case
  proof (cases "q_o s = [] \<or> q_t s = []")
    case True
    then show ?thesis using Suc.prems by (simp add: attack_loop.simps [of "Suc n"])
  next
    case False
    then obtain s1 where "attack_round judge_same P D s = Ok s1" "attack_loop n judge_same P D s1 = Ok s'"
      using Suc.prems(2) by (auto simp: attack_loop.simps [of "Suc n"])
    then show ?thesis using Suc.IH attack_round_same [OF assms Suc.prems(1)] by blast
  qed
qed

lemma stat_db_same:
  assumes "stat_db P D rnd s = Ok s'" "same_front s" "origin D = target D" "freq_wf (target D)"
  shows "same_front s'"
proof (rule res_fold_invariant [of "entries (target D)" same_front])
  show "res_fold (\<lambda>e s. stat_entry P D (rnd (total s)) e s) (entries (target D)) s = Ok s'"
    using assms(1) by (simp add: stat_db_def)
  fix e s1 s2
  assume e: "e \<in> set (entries (target D))" and s1: "same_front s1"
    and s2: "stat_entry P D (rnd (total s1)) e s1 = Ok s2"
  obtain k v where kv: "e = (k, v)" by (cases e)
  have "db_lookup (target D) k = Some v"
    using e kv assms(4) kv.set_scan [of "entries (target D)"] by (simp add: freq_wf_def db_wf_def)
  then have "db_get (origin D) k [] = (OK, v)"
    using assms(3,4) by (simp add: freq_wf_def db_get_reliable)
  then show "same_front s2"
    using s1 s2 kv by (auto simp: stat_entry_def same_front_def is_ok_def Let_def split: if_splits)
qed (rule assms(2))

lemma seed_queues_same:
  assumes "seed_queues P D s = Ok s'" "same_front s" "origin D = target D"
  shows "same_front s'"
  using assms by (auto simp: seed_queues_def same_front_def Let_def split: if_splits)

text \<open>
  C12. The attack is exact when the auxiliary data are the target's own: with equal databases on both
  sides every pair taken from the queues is judged correct, so at the end the number of correct
  inferences is the number of rounds, and both queues are empty.
\<close>

theorem self_attack:
  assumes wf: "run_wf P D" and D: "origin D = target D" "left_o D = left_t D" "right_o D = right_t D"
    and fuel: "run_bound D \<le> fuel"
  shows "\<exists>s1 s. stat_db P D rnd (attack_init db_empty) = Ok s1 \<and> main_loop fuel P D s1 = Ok s
    \<and> correct s = involve s \<and> q_o s = [] \<and> q_t s = []"
proof -
  have u: "reliable db_empty" "entries db_empty = []" by simp (simp add: db_empty_def)
  obtain s1 s where st: "stat_db P D rnd (attack_init db_empty) = Ok s1" "seed_queues P D s1 = Ok s"
      "start_ok D (\<lambda>k. k) s"
    using attack_start [OF wf u] by blast
  have "\<exists>ok. judge_same a b = Ok ok" for a b by (simp add: judge_same_def)
  then obtain s' where s': "attack_loop fuel judge_same P D s = Ok s'" "q_o s' = [] \<or> q_t s' = []"
    using attack_end [OF wf st(3) _ fuel, of judge_same] by blast
  have "same_front (attack_init db_empty)" by (simp add: same_front_def attack_init_def)
  then have "same_front s1" by (rule stat_db_same [OF st(1)]) (use D wf in \<open>simp_all add: run_wf_def\<close>)
  then have "same_front s" by (rule seed_queues_same [OF st(2) _ D(1)])
  then have "same_front s'" by (rule attack_loop_same [OF D(2,3) _ s'(1)])
  then show ?thesis using st s' by (auto simp: same_front_def main_loop_def)
qed

theorem self_attack_witness:
  "\<exists>s1 s. stat_db sample_params sample_dbs (\<lambda>_. 0) (attack_init db_empty) = Ok s1
    \<and> main_loop 2 sample_params sample_dbs s1 = Ok s \<and> correct s = involve s \<and> q_o s = [] \<and> q_t s = []"
  using self_attack [OF sample_run_wf, of 2 "\<lambda>_. 0"] sample_dbs_dom(3)
  by (simp add: sample_dbs_def Let_def)

section \<open>Ranks of paired neighbours\<close>


text \<open>
  With \<open>u = 0\<close> the seeding reads the top of an empty priority queue, which is undefined, as soon as
  the auxiliary database has an entry and nothing has leaked.
\<close>

lemma seed_zero:
  assumes "freq_wf (origin D)" "fp_keys (origin D)" "entries (origin D) \<noteq> []" "\<not> leak_on P" "INIT P = 0"
  shows "seed_queues P D s = Err Undefined"
proof -
  obtain e es where e: "entries (origin D) = e # es" using assms(3) by (meson list.exhaust)
  have "db_insert (origin D) 0 [] = Err Undefined"
    unfolding db_insert_fold [OF assms(1,2)] using e
    by (cases e) (simp add: freq_nodes_def pq_offer_def)
  then show ?thesis using assms(4,5) by (simp add: seed_queues_def)
qed

lemma seed_zero_witness:
  "seed_queues (sample_params\<lparr>INIT := 0\<rparr>) sample_dbs (attack_init db_empty) = Err Undefined"
  by (rule seed_zero) (use sample_wf in \<open>simp_all add: sample_params_def sample_dbs_def db_of_def Let_def\<close>)

end
