(* ===== verification/LocalityAttackE.thy ===== *)
theory LocalityAttackE
  imports LocalityRun
begin

text \<open>
  \<open>defense/combined/locality_attack_e.cc\<close> (and its copy in \<open>defense/minhash\<close>): the locality-based attack
  against an encryption that changes fingerprints. The database \<open>relate\<close> (the ground truth) maps a
  ciphertext fingerprint to its plaintext fingerprint; it decides which inferences are correct and
  which auxiliary entry belongs to a leaked chunk. The selections and the main loop are those of
  \<open>LocalityAttack\<close>.
\<close>

section \<open>Operations\<close>

text \<open>
  The body of the loop of \<open>stat_db\<close>. The status of the first \<open>Get\<close> is not looked at: when it fails,
  \<open>exs\<close> still holds the plaintext of an earlier entry; \<open>Slice(exs.c_str(), FP_SIZE)\<close> on a shorter
  string is undefined. \<open>r\<close> is what \<open>rand()\<close> returns, and \<open>leak_bound\<close> the integer part of
  \<open>LEAK_RATE*INT_MAX\<close>.
\<close>

definition INT_MAX :: nat where "INT_MAX = 2147483647"

definition stat_entry_e ::
  "params \<Rightarrow> attack_dbs \<Rightarrow> kvdb \<Rightarrow> nat \<Rightarrow> bytes \<times> bytes \<Rightarrow> attack_state \<times> bytes \<Rightarrow> (attack_state \<times> bytes) res" where
  "stat_entry_e P D relate r e se =
     (let (k, v) = e; (s, exs) = se; s = s\<lparr>total := total s + 1\<rparr>;
          (cst, exs) = db_get relate k exs in
      res_bind (memcpy_fp exs) (\<lambda>ckey.
      let (st, existing_value) = db_get (origin D) ckey [] in
      if leak_on P \<and> int (r mod INT_MAX) \<le> leak_bound P then
        (let s = s\<lparr>common := common s + 1\<rparr> in
         if is_ok st then
           res_bind (u64_at existing_value 0) (\<lambda>c_o.
           res_bind (memcpy_fp k) (\<lambda>h.
           res_bind (u64_at v 0) (\<lambda>c_t.
             Ok (s\<lparr>q_o := q_o s @ [\<lparr>nkey = ckey, ncount = c_o\<rparr>],
                   uniq := snd (db_put (uniq s) h (count_slice c_t)),
                   q_t := q_t s @ [\<lparr>nkey = h, ncount = c_t\<rparr>],
                   leak := leak s + 1\<rparr>, exs))))
         else if is_not_found st then Ok (s, exs)
         else Err (Exit 1))
      else Ok (s, exs)))"

definition stat_db_e :: "params \<Rightarrow> attack_dbs \<Rightarrow> kvdb \<Rightarrow> (nat \<Rightarrow> nat) \<Rightarrow> attack_state \<Rightarrow> attack_state res" where
  "stat_db_e P D relate rnd s =
     res_bind (res_fold (\<lambda>e se. stat_entry_e P D relate (rnd (total (fst se))) e se)
        (entries (target D)) (s, [])) (\<lambda>se. Ok (fst se))"

text \<open>
  \<open>cst.ok() && memcmp(q_o.front().key, existing_value.c_str(), FP_SIZE) == 0\<close>, and the exit on an
  error other than \<open>NotFound\<close>.
\<close>

definition judge_relate :: "kvdb \<Rightarrow> node \<Rightarrow> node \<Rightarrow> bool res" where
  "judge_relate relate o' t =
     (let (cst, existing_value) = db_get relate (nkey t) [] in
      if is_ok cst then
        res_bind (memcpy_fp existing_value) (\<lambda>p. Ok (memcmp (nkey o') p = 0))
      else if is_not_found cst then Ok False
      else Err (Exit 1))"

definition main_loop_e :: "nat \<Rightarrow> params \<Rightarrow> attack_dbs \<Rightarrow> kvdb \<Rightarrow> attack_state \<Rightarrow> attack_state res" where
  "main_loop_e fuel P D relate s = res_bind (seed_queues P D s) (attack_loop fuel (judge_relate relate) P D)"

text \<open>The numbers \<open>main_loop\<close> and \<open>main\<close> print: also the numbers of leaked chunks.\<close>

record attack_report_e = attack_report +
  ar_leaked :: nat
  ar_leaked_known :: nat

definition attack_report_e_of :: "attack_state \<Rightarrow> attack_report_e" where
  "attack_report_e_of s = \<lparr>ar_total = total s, ar_correct = correct s + common s - leak s,
     ar_inferred = map (\<lambda>(o', t). nkey o') (rev (ansq s)), ar_leaked = common s, ar_leaked_known = leak s\<rparr>"

definition locality_attack_e ::
  "nat \<Rightarrow> params \<Rightarrow> attack_dbs \<Rightarrow> kvdb \<Rightarrow> kvdb \<Rightarrow> (nat \<Rightarrow> nat) \<Rightarrow> attack_report_e res" where
  "locality_attack_e fuel P D relate u rnd =
     res_bind (stat_db_e P D relate rnd (attack_init u)) (\<lambda>s.
     res_bind (main_loop_e fuel P D relate s) (\<lambda>s. Ok (attack_report_e_of s)))"

section \<open>The ground truth\<close>

text \<open>A ground truth for the target: every stored plaintext is a fingerprint, every target key has one.\<close>

definition truth_wf :: "attack_dbs \<Rightarrow> kvdb \<Rightarrow> bool" where
  "truth_wf D relate \<longleftrightarrow> reliable relate \<and> (\<forall>k v. db_lookup relate k = Some v \<longrightarrow> is_fp v) \<and>
     dom (db_lookup (target D)) \<subseteq> dom (db_lookup relate)"

definition plain :: "kvdb \<Rightarrow> bytes \<Rightarrow> bytes" where
  "plain relate k = (case db_lookup relate k of None \<Rightarrow> k | Some v \<Rightarrow> v)"

lemma truth_lookup:
  "truth_wf D relate \<Longrightarrow> k \<in> dom (db_lookup (target D)) \<Longrightarrow>
    db_lookup relate k = Some (plain relate k) \<and> is_fp (plain relate k)"
  by (force simp: truth_wf_def plain_def split: option.splits)

lemma judge_relate_ok:
  assumes "truth_wf D relate"
  shows "judge_relate relate a b = Ok (db_lookup relate (nkey b) = Some (nkey a))"
  using assms
  by (cases "db_lookup relate (nkey b)")
    (auto simp: judge_relate_def truth_wf_def db_get_reliable is_ok_def is_not_found_def memcpy_fp_def is_fp_def)

section \<open>Leaked pairs\<close>

lemma stat_entry_e_step:
  assumes org: "freq_wf (origin D)" and tr: "truth_wf D relate" and rel: "reliable (uniq s)"
    and k: "k \<in> dom (db_lookup (target D))" "is_fp k" "length v = 8"
  shows "\<exists>s' exs'. stat_entry_e P D relate r (k, v) (s, exs) = Ok (s', exs') \<and> stat_rel P D (plain relate) [k] s s'"
proof -
  let ?p = "plain relate k"
  have p: "db_get relate k exs = (OK, ?p)" "memcpy_fp ?p = Ok ?p"
    using truth_lookup [OF tr k(1)] tr by (auto simp: truth_wf_def db_get_reliable memcpy_fp_def is_fp_def)
  have mk: "memcpy_fp k = Ok k" using k(2) by (simp add: memcpy_fp_def is_fp_def)
  have g: "db_get (origin D) ?p [] = (case db_lookup (origin D) ?p of None \<Rightarrow> (NotFound, []) | Some x \<Rightarrow> (OK, x))"
    using org by (simp add: freq_wf_def db_get_reliable)
  have len: "length x = 8" if "db_lookup (origin D) ?p = Some x" for x
    using org that by (simp add: freq_wf_def)
  show ?thesis
    using rel k(3) len card_single [of "\<lambda>k. plain relate k \<notin> dom (db_lookup (origin D))" k]
    by (auto simp: stat_entry_e_def p mk g stat_rel_def is_ok_def is_not_found_def u64_at_def
        Let_def domIff split: option.split)
qed

lemma stat_fold_e:
  assumes org: "freq_wf (origin D)" and tr: "truth_wf D relate"
  shows "\<lbrakk>reliable (uniq s); distinct (map fst es);
      \<And>k v. (k, v) \<in> set es \<Longrightarrow> k \<in> dom (db_lookup (target D)) \<and> is_fp k \<and> length v = 8\<rbrakk> \<Longrightarrow>
    \<exists>s' exs'. res_fold (\<lambda>e se. stat_entry_e P D relate (rnd (total (fst se))) e se) es (s, exs) = Ok (s', exs')
      \<and> stat_rel P D (plain relate) (map fst es) s s'"
proof (induction es arbitrary: s exs)
  case Nil
  then show ?case by (simp add: stat_rel_def)
next
  case (Cons e es)
  obtain k v where e: "e = (k, v)" by (cases e)
  then have "k \<in> dom (db_lookup (target D))" "is_fp k" "length v = 8" using Cons.prems(3) by auto
  then obtain s1 exs1 where s1: "stat_entry_e P D relate (rnd (total s)) (k, v) (s, exs) = Ok (s1, exs1)"
      "stat_rel P D (plain relate) [k] s s1"
    using stat_entry_e_step [OF org tr Cons.prems(1)] by blast
  then have "reliable (uniq s1)" by (simp add: stat_rel_def)
  moreover have "distinct (map fst es)" using Cons.prems(2) by simp
  moreover have "k \<in> dom (db_lookup (target D)) \<and> is_fp k \<and> length v = 8" if "(k, v) \<in> set es" for k v
    by (rule Cons.prems(3)) (use that in simp)
  ultimately obtain s2 exs2 where s2:
      "res_fold (\<lambda>e se. stat_entry_e P D relate (rnd (total (fst se))) e se) es (s1, exs1) = Ok (s2, exs2)"
      "stat_rel P D (plain relate) (map fst es) s1 s2"
    using Cons.IH [of s1 exs1] by blast
  have "stat_rel P D (plain relate) ([k] @ map fst es) s s2"
    by (rule stat_rel_append [OF s1(2) s2(2)]) (use Cons.prems(2) e in auto)
  then show ?case using s1(1) s2(1) e by simp
qed

lemma stat_db_e_spec:
  assumes "freq_wf (origin D)" "freq_wf (target D)" "fp_keys (target D)" "truth_wf D relate" "reliable (uniq s)"
  shows "\<exists>s'. stat_db_e P D relate rnd s = Ok s' \<and> stat_rel P D (plain relate) (map fst (entries (target D))) s s'"
proof -
  have srt: "kv_sorted (entries (target D))" using assms(2) by (simp add: freq_wf_def db_wf_def)
  have ent: "k \<in> dom (db_lookup (target D)) \<and> is_fp k \<and> length v = 8" if "(k, v) \<in> set (entries (target D))" for k v
  proof -
    have "db_lookup (target D) k = Some v" using kv.set_scan [OF srt] that by simp
    then show ?thesis using assms(2,3) by (auto simp: freq_wf_def fp_keys_def)
  qed
  show ?thesis
    using stat_fold_e [OF assms(1,4,5) kv.scan_distinct [OF srt] ent, of P rnd "[]"]
    by (auto simp: stat_db_e_def)
qed

section \<open>The attack\<close>

lemma attack_start_e:
  assumes wf: "run_wf P D" and tr: "truth_wf D relate" and u: "reliable u" "entries u = []"
  shows "\<exists>s1 s. stat_db_e P D relate rnd (attack_init u) = Ok s1 \<and> seed_queues P D s1 = Ok s
    \<and> start_ok D (plain relate) s"
proof -
  have "reliable (uniq (attack_init u))" using u by (simp add: attack_init_def)
  then obtain s1 where s1: "stat_db_e P D relate rnd (attack_init u) = Ok s1"
      "stat_rel P D (plain relate) (map fst (entries (target D))) (attack_init u) s1"
    using stat_db_e_spec wf tr unfolding run_wf_def by blast
  show ?thesis
  proof (cases "leak_on P")
    case True
    then have "seed_queues P D s1 = Ok s1" by (simp add: seed_queues_def)
    then show ?thesis using s1 start_leaked(1) [OF s1(2) u(2)] by auto
  next
    case False
    then show ?thesis
      using start_seeded [OF wf start_leaked(1) [OF s1(2) u(2)] False]
        start_leaked(2) [OF s1(2) u(2)] s1(1) by auto
  qed
qed

text \<open>
  C7. The attack against encrypted fingerprints is sound. With a ground truth for the target and enough
  fuel the run ends; every inferred pair is one of the ground truth, no ciphertext fingerprint is
  inferred twice, and the reported number of correct inferences, leaked chunks the auxiliary data
  lack included, is at most the number of unique ciphertext chunks when all recorded neighbours are
  counted chunks.
\<close>

theorem locality_attack_e_sound:
  assumes wf: "run_wf P D" and tr: "truth_wf D relate" and u: "reliable u" "entries u = []"
    and fuel: "run_bound D \<le> fuel"
  shows "\<exists>s1 s. stat_db_e P D relate rnd (attack_init u) = Ok s1 \<and> main_loop_e fuel P D relate s1 = Ok s
    \<and> locality_attack_e fuel P D relate u rnd = Ok (attack_report_e_of s)
    \<and> (\<forall>(o', t) \<in> set (ansq s). db_lookup relate (nkey t) = Some (nkey o'))
    \<and> distinct (map (\<lambda>(o', t). nkey t) (ansq s))
    \<and> total s = card (dom (db_lookup (target D)))
    \<and> (o_universe D \<subseteq> dom (db_lookup (origin D)) \<and> t_universe D \<subseteq> dom (db_lookup (target D))
        \<longrightarrow> ar_correct (attack_report_e_of s) \<le> total s)"
proof -
  obtain s1 s where st: "stat_db_e P D relate rnd (attack_init u) = Ok s1" "seed_queues P D s1 = Ok s"
      "start_ok D (plain relate) s"
    using attack_start_e [OF wf tr u] by blast
  note judge = judge_relate_ok [OF tr]
  have "\<exists>ok. judge_relate relate a b = Ok ok" for a b using judge by blast
  then obtain s' where s': "attack_loop fuel (judge_relate relate) P D s = Ok s'"
      "end_ok (judge_relate relate) D (plain relate) s'"
    using attack_end [OF wf st(3) _ fuel, of "judge_relate relate"] by blast
  have M: "main_loop_e fuel P D relate s1 = Ok s'" using st(2) s'(1) by (simp add: main_loop_e_def)
  have A: "\<forall>(o', t) \<in> set (ansq s'). db_lookup relate (nkey t) = Some (nkey o')"
    using s'(2) by (auto simp: end_ok_def judge)
  have T: "distinct (map (\<lambda>(o', t). nkey t) (ansq s'))" "total s' = card (dom (db_lookup (target D)))"
    using s'(2) by (simp_all add: end_ok_def t_key_def [abs_def] case_prod_beta')
  have "nkey a = plain relate (nkey b)" if "judge_relate relate a b = Ok True" for a b
    using that by (simp add: judge plain_def)
  then have "ar_correct (attack_report_e_of s') \<le> total s'"
    if "o_universe D \<subseteq> dom (db_lookup (origin D)) \<and> t_universe D \<subseteq> dom (db_lookup (target D))"
    using end_bound [OF s'(2)] that by (auto simp: attack_report_e_of_def)
  then show ?thesis
    using st(1) M A T by (intro exI [of _ s1] exI [of _ s']) (simp add: locality_attack_e_def)
qed

theorem locality_attack_e_sound_witness:
  "\<exists>s1 s. stat_db_e sample_params sample_dbs
        (db_of [([1, 2, 3, 4, 5, 6], [9, 9, 9, 9, 9, 9]), ([2, 2, 3, 4, 5, 6], [1, 2, 3, 4, 5, 6])]) (\<lambda>_. 0)
        (attack_init db_empty) = Ok s1
    \<and> main_loop_e 2 sample_params sample_dbs
        (db_of [([1, 2, 3, 4, 5, 6], [9, 9, 9, 9, 9, 9]), ([2, 2, 3, 4, 5, 6], [1, 2, 3, 4, 5, 6])]) s1 = Ok s
    \<and> total s = card (dom (db_lookup (target sample_dbs)))"
proof -
  let ?r = "db_of [([1, 2, 3, 4, 5, 6], [9, 9, 9, 9, 9, 9]), ([2, 2, 3, 4, 5, 6], [1, 2, 3, 4, 5, 6])]"
  have "truth_wf sample_dbs ?r"
    unfolding truth_wf_def sample_dbs_dom(1) by (auto simp: db_of_def reliable_def is_fp_def split: if_splits)
  moreover have "entries db_empty = []" by (simp add: db_empty_def)
  ultimately show ?thesis
    using locality_attack_e_sound [OF sample_run_wf, of ?r db_empty 2 "\<lambda>_. 0"] sample_dbs_dom(3)
    by auto
qed



end
