(* ===== verification/Segment.thy ===== *)
theory Segment
  imports Trace PQueue BasicCount
begin

text \<open>
  What the three defense programs (\<open>defense/minhash/k_minhash.cc\<close>, \<open>defense/scrambling/scrambling.cc\<close>,
  \<open>defense/combined/combined.cc\<close>) share: chunks with sizes, the variable-size segmentation of a trace,
  the printed output, and the deque that scrambles a segment. Each program keeps its own state and
  \<open>process_seg\<close>; the loop over the trace is the same text.
\<close>

unbundle bit_operations_syntax

section \<open>Chunks and segment boundaries\<close>

record snode =
  skey :: bytes
  ssize :: "64 word"

text \<open>\<open>#define SEG_MIN ((2<<19))\<close> and \<open>#define SEG_MAX ((2<<21))\<close>, converted to \<open>uint64_t\<close> in comparisons.\<close>

definition SEG_MIN :: "64 word" where "SEG_MIN = push_bit 19 2"
definition SEG_MAX :: "64 word" where "SEG_MAX = push_bit 21 2"

text \<open>
  \<open>(hash[5] << 2) >> 2 == 0x3f\<close>: the \<open>char\<close> is promoted to \<open>int\<close> before the shifts.
\<close>

definition cut_byte :: "8 word \<Rightarrow> bool" where
  "cut_byte b \<longleftrightarrow> drop_bit 2 (push_bit 2 (sint b)) = 0x3f"

definition seg_cut :: "64 word \<Rightarrow> snode \<Rightarrow> bool" where
  "seg_cut sq_size c \<longleftrightarrow>
     sq_size + ssize c > SEG_MAX \<or> (sq_size \<ge> SEG_MIN \<and> cut_byte (skey c ! 5))"

text \<open>
  A line of the trace: fingerprint, and \<open>uint64_t size = atoi((const char*)item)\<close>, which extends the
  sign of the \<open>int\<close>.
\<close>

definition parse_chunk :: "string \<Rightarrow> snode res" where
  "parse_chunk l =
     (let (hash, item) = parse_hash l in
      res_bind (parse_size item) (\<lambda>n. Ok \<lparr>skey = hash, ssize = scast n\<rparr>))"

text \<open>The common loop of \<open>read_hashes\<close> over the lines of the file; \<open>step\<close> handles a chunk.\<close>

definition read_chunks :: "(snode \<Rightarrow> 's \<Rightarrow> 's res) \<Rightarrow> string \<Rightarrow> 's \<Rightarrow> 's res" where
  "read_chunks step file s =
     res_fold (\<lambda>l s. if is_title l then Ok s else res_bind (parse_chunk l) (\<lambda>c. step c s))
       (fgets_lines file) s"

text \<open>The line printed for a chunk with fingerprint \<open>k\<close>.\<close>

definition print_chunk :: "bytes \<Rightarrow> snode \<Rightarrow> string" where
  "print_chunk k c = chunk_line k (ssize c)"

text \<open>
  The loop \<open>k = (rand() * rand()) % 2; if (k == 0) push_front else push_back\<close>: two values of \<open>rand()\<close>
  per chunk, \<open>rnd n\<close> being the \<open>n\<close>-th one. \<open>k\<close> is 0 iff the product is even, which wrap-around of
  the product does not change.
\<close>

fun scramble_deq :: "(nat \<Rightarrow> nat) \<Rightarrow> nat \<Rightarrow> snode list \<Rightarrow> snode list \<Rightarrow> snode list" where
  "scramble_deq rnd n [] deq = deq"
| "scramble_deq rnd n (t # sq) deq =
     scramble_deq rnd (n + 2) sq
       (if (word_of_nat (rnd n) * word_of_nat (rnd (n + 1)) :: 32 word) AND 1 = 0 then t # deq else deq @ [t])"

section \<open>The segmentation as a function of the trace\<close>

text \<open>\<open>cur\<close>: the open segment, \<open>n\<close>: its accumulated size. The last segment stays open.\<close>

fun segs :: "snode list \<Rightarrow> 64 word \<Rightarrow> snode list \<Rightarrow> snode list list" where
  "segs cur n [] = [cur]"
| "segs cur n (c # cs) =
     (if seg_cut n c then cur # segs [c] (ssize c) cs else segs (cur @ [c]) (n + ssize c) cs)"

definition segments :: "snode list \<Rightarrow> snode list list" where
  "segments cs = segs [] 0 cs"

text \<open>The chunks of a file, when every line but the titles has all fields.\<close>

definition trace_chunks :: "string \<Rightarrow> snode list res" where
  "trace_chunks file = read_chunks (\<lambda>c cs. Ok (cs @ [c])) file []"

lemma concat_segs: "concat (segs cur n cs) = cur @ cs"
  by (induction cur n cs rule: segs.induct) auto

lemma segs_nonempty: "cur \<noteq> [] \<Longrightarrow> [] \<notin> set (segs cur n cs)"
  by (induction cur n cs rule: segs.induct) auto

text \<open>An empty segment arises only from an empty trace or a first chunk above \<open>SEG_MAX\<close>.\<close>

lemma segments_empty:
  "[] \<in> set (segments cs) \<longleftrightarrow> cs = [] \<or> ssize (hd cs) > SEG_MAX"
proof (cases cs)
  case (Cons c cs')
  have "seg_cut 0 c \<longleftrightarrow> ssize c > SEG_MAX"
    by (simp add: seg_cut_def SEG_MIN_def)
  then show ?thesis
    using Cons segs_nonempty [of "[c]" "ssize c" cs'] by (auto simp: segments_def)
qed (simp add: segments_def)

lemma cut_byte_iff: "cut_byte b \<longleftrightarrow> b = 0x3f"
proof -
  have "cut_byte b \<longleftrightarrow> sint b = sint (0x3f :: 8 word)"
    by (simp add: cut_byte_def drop_bit_eq_div push_bit_eq_mult)
  then show ?thesis by (metis signed_word_eqI)
qed

section \<open>Segment sizes\<close>

definition seg_size :: "snode list \<Rightarrow> nat" where
  "seg_size seg = (\<Sum>c \<leftarrow> seg. unat (ssize c))"

lemma seg_size_simps [simp]:
  "seg_size [] = 0" "seg_size (c # cs) = unat (ssize c) + seg_size cs" "seg_size (a @ b) = seg_size a + seg_size b"
  by (simp_all add: seg_size_def)

lemma SEG_unat: "unat SEG_MAX = 4194304" "unat SEG_MIN = 1048576"
  by (simp_all add: SEG_MAX_def SEG_MIN_def)

definition small_chunks :: "snode list \<Rightarrow> bool" where
  "small_chunks cs \<longleftrightarrow> list_all (\<lambda>c. unat (ssize c) < 2 ^ 31) cs"

lemma small_chunks_simps [simp]:
  "small_chunks []" "small_chunks (c # cs) \<longleftrightarrow> unat (ssize c) < 2 ^ 31 \<and> small_chunks cs"
  by (simp_all add: small_chunks_def)

text \<open>An open segment and the variable \<open>sq_size\<close>.\<close>

definition open_seg :: "snode list \<Rightarrow> 64 word \<Rightarrow> bool" where
  "open_seg cur n \<longleftrightarrow> unat n = seg_size cur \<and> (seg_size cur \<le> 4194304 \<or> length cur = 1 \<and> seg_size cur < 2 ^ 31)"

lemma seg_cut_iff:
  assumes "open_seg cur n" "unat (ssize c) < 2 ^ 31"
  shows "seg_cut n c \<longleftrightarrow> seg_size cur + unat (ssize c) > 4194304
    \<or> seg_size cur \<ge> 1048576 \<and> skey c ! 5 = 0x3f"
    and "\<not> seg_cut n c \<Longrightarrow> open_seg (cur @ [c]) (n + ssize c)"
proof -
  have "unat (n + ssize c) = unat n + unat (ssize c)"
    using assms by (subst unat_add_lem [symmetric]) (auto simp: open_seg_def)
  then show cut: "seg_cut n c \<longleftrightarrow> seg_size cur + unat (ssize c) > 4194304
      \<or> seg_size cur \<ge> 1048576 \<and> skey c ! 5 = 0x3f"
    and "\<not> seg_cut n c \<Longrightarrow> open_seg (cur @ [c]) (n + ssize c)"
    using assms by (auto simp: seg_cut_def cut_byte_iff word_less_nat_alt word_le_nat_alt SEG_unat open_seg_def)
qed

lemma hd_segs: "\<exists>x xs. segs cur n cs = (cur @ x) # xs"
  by (induction cur n cs rule: segs.induct) auto

text \<open>Why a segment ended before the next one begins.\<close>

definition seg_ends :: "snode list \<Rightarrow> snode list \<Rightarrow> bool" where
  "seg_ends a b \<longleftrightarrow> b \<noteq> [] \<and> (seg_size a + unat (ssize (hd b)) > 4194304
     \<or> seg_size a \<ge> 1048576 \<and> skey (hd b) ! 5 = 0x3f)"

lemma segs_sizes:
  "open_seg cur n \<Longrightarrow> small_chunks cs \<Longrightarrow>
    list_all (\<lambda>seg. seg_size seg \<le> 4194304 \<or> length seg = 1) (segs cur n cs)
    \<and> successively seg_ends (segs cur n cs)"
proof (induction cur n cs rule: segs.induct)
  case (1 cur n)
  then show ?case by (auto simp: open_seg_def)
next
  case (2 cur n c cs)
  show ?case
  proof (cases "seg_cut n c")
    case True
    have "open_seg [c] (ssize c)" using 2(4) by (simp add: open_seg_def)
    then have IH: "list_all (\<lambda>seg. seg_size seg \<le> 4194304 \<or> length seg = 1) (segs [c] (ssize c) cs)"
        "successively seg_ends (segs [c] (ssize c) cs)"
      using 2(1) [OF True] 2(4) by auto
    obtain x xs where x: "segs [c] (ssize c) cs = ([c] @ x) # xs" using hd_segs by blast
    have "seg_ends cur ([c] @ x)"
      using True seg_cut_iff(1) [OF 2(3)] 2(4) by (simp add: seg_ends_def)
    then show ?thesis using IH x True 2(3) by (auto simp: open_seg_def)
  next
    case False
    then have "open_seg (cur @ [c]) (n + ssize c)" using seg_cut_iff(2) [OF 2(3)] 2(4) by simp
    then show ?thesis using 2(2) [OF False] 2(4) False by simp
  qed
qed



section \<open>Reading and printing\<close>

text \<open>With all fields present, the loop of \<open>read_hashes\<close> is a loop over the chunks.\<close>

lemma read_lines_fold:
  assumes "res_fold (\<lambda>l cs. if is_title l then Ok cs else res_bind (parse_chunk l) (\<lambda>c. Ok (cs @ [c]))) ls cs0 = Ok (cs0 @ cs)"
  shows "res_fold (\<lambda>l s. if is_title l then Ok s else res_bind (parse_chunk l) (\<lambda>c. step c s)) ls s = res_fold step cs s"
  using assms
proof (induction ls arbitrary: cs0 cs s)
  case (Cons l ls)
  show ?case
  proof (cases "is_title l")
    case True
    then show ?thesis using Cons by simp
  next
    case False
    then obtain c where c: "parse_chunk l = Ok c"
      "res_fold (\<lambda>l cs. if is_title l then Ok cs else res_bind (parse_chunk l) (\<lambda>c. Ok (cs @ [c]))) ls (cs0 @ [c]) = Ok (cs0 @ cs)"
      using Cons.prems by (auto split: if_splits)
    have "\<exists>xs. cs0 @ cs = (cs0 @ [c]) @ xs"
      by (rule res_fold_invariant [OF _ _ c(2)]) (auto split: if_splits)
    then obtain xs where xs: "cs = c # xs" by auto
    then have "res_fold (\<lambda>l cs. if is_title l then Ok cs else res_bind (parse_chunk l) (\<lambda>c. Ok (cs @ [c]))) ls (cs0 @ [c]) = Ok ((cs0 @ [c]) @ xs)"
      using c(2) by simp
    note IH = Cons.IH [OF this]
    then show ?thesis using False c(1) xs by (auto intro!: res_bind_cong)
  qed
qed simp

lemma read_chunks_fold:
  "trace_chunks file = Ok cs \<Longrightarrow> read_chunks step file s = res_fold step cs s"
  unfolding trace_chunks_def read_chunks_def using read_lines_fold [of "fgets_lines file" "[]" cs] by simp

lemma trace_lines_chunks:
  "res_fold (\<lambda>l cs. if is_title l then Ok cs else res_bind (parse_chunk l) (\<lambda>c. Ok (cs @ [c]))) ls cs0 = Ok cs \<Longrightarrow>
    map skey cs = map skey cs0 @ map (\<lambda>l. fst (parse_hash l)) (filter (\<lambda>l. \<not> is_title l) ls)"
  by (induction ls arbitrary: cs0) (auto simp: parse_chunk_def split: if_splits prod.splits)

lemma trace_chunks_keys: "trace_chunks file = Ok cs \<Longrightarrow> map skey cs = trace_fps file"
  unfolding trace_chunks_def read_chunks_def trace_fps_def
  using trace_lines_chunks [of "fgets_lines file" "[]" cs] by simp

lemma trace_chunks_fp: "trace_chunks file = Ok cs \<Longrightarrow> c \<in> set cs \<Longrightarrow> is_fp (skey c)"
  using trace_chunks_keys [of "file" cs] trace_fps_fp by (metis image_eqI list.set_map)

text \<open>A trace printed by a defense program.\<close>

definition printed :: "(bytes \<times> snode) list \<Rightarrow> string" where
  "printed os = concat (map (\<lambda>(k, c). print_chunk k c) os)"

lemma printed_simps [simp]:
  "printed [] = []" "printed (a @ b) = printed a @ printed b"
  by (simp_all add: printed_def)

lemma print_trace_printed: "print_trace (map (\<lambda>(k, c). (k, ssize c)) os) = title_text @ printed os"
  by (induction os) (auto simp: print_trace_def printed_def print_chunk_def)

lemma trace_fps_printed:
  "\<forall>o' \<in> set os. is_fp (fst o') \<Longrightarrow> trace_fps (title_text @ printed os) = map fst os"
  unfolding print_trace_printed [symmetric]
  by (subst trace_fps_print_trace) auto

lemma scast_ucast_small:
  assumes "unat (n :: 64 word) < 2 ^ 31"
  shows "scast (ucast n :: 32 word) = n"
proof -
  have u: "uint n < 2 ^ 31" 
    using assms of_nat_less_iff [of "unat n" "2 ^ 31", where 'a = int] by simp
  have "sint (ucast n :: 32 word) = signed_take_bit 31 (uint n)" by (simp add: signed_ucast_eq)
  also have "\<dots> = uint n" by (rule signed_take_bit_int_eq_self) (use u uint_ge_0 [of n] in linarith)+
  finally have "scast (ucast n :: 32 word) = (word_of_int (uint n) :: 64 word)" by (metis scast_eq)
  then show ?thesis by simp
qed

lemma trace_chunks_print_trace:
  assumes "list_all (\<lambda>(k, n). is_fp k \<and> unat (n :: 64 word) < 2 ^ 31) ps"
  shows "trace_chunks (print_trace ps) = Ok (map (\<lambda>(k, n). \<lparr>skey = k, ssize = n\<rparr>) ps)"
proof -
  have "res_fold (\<lambda>l cs. if is_title l then Ok cs else res_bind (parse_chunk l) (\<lambda>c. Ok (cs @ [c])))
      (map (\<lambda>(h, n). chunk_line h n) ps) cs0 = Ok (cs0 @ map (\<lambda>(k, n). \<lparr>skey = k, ssize = n\<rparr>) ps)" for cs0
    using assms
    by (induction ps arbitrary: cs0)
      (auto simp: not_title_chunk_line parse_chunk_def parse_hash_chunk_line parse_size_chunk_line scast_ucast_small)
  then show ?thesis
    by (simp add: trace_chunks_def read_chunks_def fgets_lines_print_trace is_title_title_text)
qed

section \<open>Scrambling a segment\<close>

lemma mset_scramble: "mset (scramble_deq rnd n sq deq) = mset sq + mset deq"
  by (induction rnd n sq deq rule: scramble_deq.induct) auto

lemma sample_trace:
  "trace_chunks (print_trace [([6, 5, 4, 3, 2, 1], 4096), ([1, 2, 3, 4, 5, 6], 8192)])
   = Ok [\<lparr>skey = [6, 5, 4, 3, 2, 1], ssize = 4096\<rparr>, \<lparr>skey = [1, 2, 3, 4, 5, 6], ssize = 8192\<rparr>]"
  by (subst trace_chunks_print_trace) (simp_all add: is_fp_def)

end
