(* ===== verification/Scrambling.thy ===== *)
theory Scrambling
  imports Segment
begin

text \<open>
  \<open>defense/scrambling/scrambling.cc\<close>: the trace is cut into segments and the chunks of each segment are
  printed in a random order, by pushing each to the front or the back of a deque.
\<close>

record scr_state =
  sc_sq :: "snode list"
  sc_size :: "64 word"
  sc_calls :: nat      \<comment> \<open>calls of \<open>rand()\<close> so far\<close>
  sc_out :: string     \<comment> \<open>standard output\<close>

definition scr_process_seg :: "(nat \<Rightarrow> nat) \<Rightarrow> scr_state \<Rightarrow> scr_state" where
  "scr_process_seg rnd s =
     (let deq = scramble_deq rnd (sc_calls s) (sc_sq s) [] in
      s\<lparr>sc_sq := [], sc_calls := sc_calls s + 2 * length (sc_sq s),
        sc_out := sc_out s @ concat (map (\<lambda>tmp. print_chunk (skey tmp) tmp) deq)\<rparr>)"

definition scr_step :: "(nat \<Rightarrow> nat) \<Rightarrow> snode \<Rightarrow> scr_state \<Rightarrow> scr_state" where
  "scr_step rnd c s =
     (let s = (if seg_cut (sc_size s) c then (scr_process_seg rnd s)\<lparr>sc_sq := [], sc_size := 0\<rparr> else s)
      in s\<lparr>sc_size := sc_size s + ssize c, sc_sq := sc_sq s @ [c]\<rparr>)"

definition scr_read_hashes :: "(nat \<Rightarrow> nat) \<Rightarrow> string \<Rightarrow> scr_state \<Rightarrow> scr_state res" where
  "scr_read_hashes rnd file s = read_chunks (\<lambda>c s. Ok (scr_step rnd c s)) file s"

definition scr_main :: "(nat \<Rightarrow> nat) \<Rightarrow> string \<Rightarrow> string res" where
  "scr_main rnd file =
     res_bind (scr_read_hashes rnd file \<lparr>sc_sq = [], sc_size = 0, sc_calls = 0, sc_out = title_text\<rparr>)
       (\<lambda>s. Ok (sc_out (scr_process_seg rnd s)))"

section \<open>Segment-wise permutation\<close>

definition self_keyed :: "snode list \<Rightarrow> (bytes \<times> snode) list" where
  "self_keyed cs = map (\<lambda>c. (skey c, c)) cs"

lemma res_fold_Ok: "res_fold (\<lambda>x s. Ok (f x s)) xs s = Ok (fold f xs s)"
  by (induction xs arbitrary: s) auto

lemma process_seg_out:
  "\<exists>out. mset out = mset (sc_sq s) \<and> sc_out (scr_process_seg rnd s) = sc_out s @ printed (self_keyed out)"
  by (rule exI [of _ "scramble_deq rnd (sc_calls s) (sc_sq s) []"])
    (simp add: mset_scramble scr_process_seg_def printed_def self_keyed_def comp_def Let_def)

lemma scr_fold:
  "\<exists>outs. sc_out (scr_process_seg rnd (fold (scr_step rnd) cs s)) = sc_out s @ printed (self_keyed (concat outs))
    \<and> list_all2 (\<lambda>seg out. mset out = mset seg) (segs (sc_sq s) (sc_size s) cs) outs"
proof (induction cs arbitrary: s)
  case Nil
  obtain out where "mset out = mset (sc_sq s)" "sc_out (scr_process_seg rnd s) = sc_out s @ printed (self_keyed out)"
    using process_seg_out by blast
  then show ?case by (intro exI [of _ "[out]"]) simp
next
  case (Cons c cs)
  let ?s = "scr_step rnd c s"
  obtain outs where outs: "sc_out (scr_process_seg rnd (fold (scr_step rnd) cs ?s)) = sc_out ?s @ printed (self_keyed (concat outs))"
      "list_all2 (\<lambda>seg out. mset out = mset seg) (segs (sc_sq ?s) (sc_size ?s) cs) outs"
    using Cons.IH by blast
  show ?case
  proof (cases "seg_cut (sc_size s) c")
    case True
    obtain out where out: "mset out = mset (sc_sq s)" "sc_out (scr_process_seg rnd s) = sc_out s @ printed (self_keyed out)"
      using process_seg_out by blast
    have "sc_sq ?s = [c]" "sc_size ?s = ssize c" "sc_out ?s = sc_out (scr_process_seg rnd s)"
      using True by (simp_all add: scr_step_def)
    then show ?thesis
      using outs out True by (intro exI [of _ "out # outs"]) (simp add: self_keyed_def)
  next
    case False
    then have "sc_sq ?s = sc_sq s @ [c]" "sc_size ?s = sc_size s + ssize c" "sc_out ?s = sc_out s"
      by (simp_all add: scr_step_def)
    then show ?thesis using outs False by (intro exI [of _ outs]) simp
  qed
qed

lemma scr_main_outs:
  assumes "trace_chunks file = Ok cs"
  shows "\<exists>outs. scr_main rnd file = Ok (title_text @ printed (self_keyed (concat outs)))
    \<and> list_all2 (\<lambda>seg out. mset out = mset seg) (segments cs) outs"
  using scr_fold [of rnd cs "\<lparr>sc_sq = [], sc_size = 0, sc_calls = 0, sc_out = title_text\<rparr>"]
  by (auto simp: scr_main_def scr_read_hashes_def read_chunks_fold [OF assms] res_fold_Ok segments_def)

lemma mset_concat_all2:
  "list_all2 (\<lambda>seg out. mset out = mset seg) xs ys \<Longrightarrow> mset (concat ys) = mset (concat xs)"
  by (induction rule: list_all2_induct) auto

text \<open>The fingerprints read back from the output are those of the input, in another order.\<close>

lemma scr_main_fps:
  assumes "trace_chunks file = Ok cs" "scr_main rnd file = Ok out"
  shows "mset (trace_fps out) = mset (trace_fps file)"
proof -
  obtain outs where o: "out = title_text @ printed (self_keyed (concat outs))"
      "list_all2 (\<lambda>seg out. mset out = mset seg) (segments cs) outs"
    using scr_main_outs [OF assms(1), of rnd] assms(2) by auto
  have m: "mset (concat outs) = mset cs"
    using mset_concat_all2 [OF o(2)] by (simp add: segments_def concat_segs)
  then have "set (concat outs) = set cs" by (metis set_mset_mset)
  then have "\<forall>p \<in> set (self_keyed (concat outs)). is_fp (fst p)"
    using trace_chunks_fp [OF assms(1)] unfolding self_keyed_def by auto
  then have "trace_fps out = map skey (concat outs)"
    unfolding o(1) by (subst trace_fps_printed) (auto simp: self_keyed_def)
  then show ?thesis using m trace_chunks_keys [OF assms(1)] by (metis mset_map)
qed

text \<open>
  C23. Scrambling permutes within segments: when every line of the trace has all fields, the program
  prints the title and, for each segment in turn, exactly its chunks in some order.
\<close>

theorem scrambling_permutes:
  assumes "trace_chunks file = Ok cs"
  shows "\<exists>outs. scr_main rnd file
        = Ok (title_text @ concat (map (\<lambda>c. chunk_line (skey c) (ssize c)) (concat outs)))
    \<and> list_all2 (\<lambda>seg out. mset out = mset seg) (segments cs) outs"
  using scr_main_outs [OF assms, of rnd]
  by (simp add: printed_def self_keyed_def print_chunk_def comp_def)

theorem scrambling_permutes_witness:
  "\<exists>outs. scr_main (\<lambda>n. n) (print_trace [([1, 2, 3, 4, 5, 6], 4096), ([6, 5, 4, 3, 2, 1], 8192)])
        = Ok (title_text @ concat (map (\<lambda>c. chunk_line (skey c) (ssize c)) (concat outs)))
    \<and> mset (concat outs) = {#\<lparr>skey = [1, 2, 3, 4, 5, 6], ssize = 4096\<rparr>, \<lparr>skey = [6, 5, 4, 3, 2, 1], ssize = 8192\<rparr>#}"
proof -
  let ?f = "print_trace [([1, 2, 3, 4, 5, 6], 4096), ([6, 5, 4, 3, 2, 1], 8192)]"
  let ?cs = "[\<lparr>skey = [1, 2, 3, 4, 5, 6], ssize = 4096\<rparr>, \<lparr>skey = [6, 5, 4, 3, 2, 1], ssize = 8192\<rparr>]"
  have "trace_chunks ?f = Ok ?cs" by (subst trace_chunks_print_trace) (simp_all add: is_fp_def)
  then obtain outs where
    "scr_main (\<lambda>n. n) ?f = Ok (title_text @ concat (map (\<lambda>c. chunk_line (skey c) (ssize c)) (concat outs)))"
    "list_all2 (\<lambda>seg out. mset out = mset seg) (segments ?cs) outs"
    using scrambling_permutes by blast
  moreover from this(2) have "mset (concat outs) = mset ?cs"
    using mset_concat_all2 [of "segments ?cs" outs] by (simp add: segments_def concat_segs)
  ultimately show ?thesis by auto
qed

section \<open>Frequencies\<close>

text \<open>
  Scrambling does not hide frequencies: counting the scrambled trace gives the same frequency
  database, byte for byte, as counting the original one.
\<close>

lemma scrambling_keeps_frequencies:
  assumes "trace_chunks file = Ok cs" "scr_main rnd file = Ok out"
  shows "basic_read_hashes out db_empty = basic_read_hashes file db_empty"
  by (rule basic_count_mset [OF scr_main_fps [OF assms]])

lemma scrambling_keeps_frequencies_witness:
  "\<exists>out. scr_main (\<lambda>n. n) (print_trace [([1, 2, 3, 4, 5, 6], 4096), ([6, 5, 4, 3, 2, 1], 8192)]) = Ok out
    \<and> basic_read_hashes out db_empty
      = basic_read_hashes (print_trace [([1, 2, 3, 4, 5, 6], 4096), ([6, 5, 4, 3, 2, 1], 8192)]) db_empty"
proof -
  let ?f = "print_trace [([1, 2, 3, 4, 5, 6], 4096), ([6, 5, 4, 3, 2, 1], 8192)]"
  have t: "trace_chunks ?f = Ok [\<lparr>skey = [1, 2, 3, 4, 5, 6], ssize = 4096\<rparr>, \<lparr>skey = [6, 5, 4, 3, 2, 1], ssize = 8192\<rparr>]"
    by (subst trace_chunks_print_trace) (simp_all add: is_fp_def)
  then obtain out where "scr_main (\<lambda>n. n) ?f = Ok out" using scr_main_outs by blast
  then show ?thesis using scrambling_keeps_frequencies [OF t] by blast
qed

end
