(* ===== verification/MinHash.thy ===== *)
theory MinHash
  imports Segment
begin

text \<open>
  \<open>defense/minhash/k_minhash.cc\<close>: MinHash encryption of a trace. A chunk is encrypted under a key that
  its segment determines, the smallest fingerprint of the segment; the model of the encryption is
  the first six bytes of the MD5 digest of fingerprint and key. \<open>MD5\<close> (OpenSSL) is the parameter
  \<open>md5\<close> of the definitions. The database \<open>relate\<close> records the plaintext of every ciphertext.
\<close>

definition K_MINHASH :: nat where "K_MINHASH = 1"

text \<open>\<open>struct cmp\<close>: \<open>return memcmp(b.key, a.key, FP_SIZE);\<close>, true whenever the keys differ.\<close>

definition mh_cmp :: "snode \<Rightarrow> snode \<Rightarrow> bool" where
  "mh_cmp a b \<longleftrightarrow> memcmp (skey b) (skey a) \<noteq> 0"

record mh_state =
  mh_relate :: kvdb
  mh_pq :: "snode list"
  mh_sq :: "snode list"
  mh_size :: "64 word"
  mh_calls :: nat
  mh_out :: string

text \<open>\<open>MD5(ft, FP_SIZE*2, md5full); memcpy(ret, md5full, FP_SIZE)\<close> for \<open>ft\<close> = fingerprint, key.\<close>

definition mh_encrypt :: "(bytes \<Rightarrow> bytes) \<Rightarrow> bytes \<Rightarrow> bytes \<Rightarrow> bytes" where
  "mh_encrypt md5 core key = take FP_SIZE (md5 (key @ core))"

text \<open>The loop over the chunks of the segment.\<close>

fun mh_emit :: "(bytes \<Rightarrow> bytes) \<Rightarrow> bytes \<Rightarrow> snode list \<Rightarrow> kvdb \<Rightarrow> string \<Rightarrow> kvdb \<times> string" where
  "mh_emit md5 core [] relate out = (relate, out)"
| "mh_emit md5 core (now # sq) relate out =
     (let ret = mh_encrypt md5 core (skey now)
      in mh_emit md5 core sq (snd (db_put relate ret (skey now))) (out @ print_chunk ret now))"

text \<open>\<open>process_seg\<close>; the top of an empty queue is undefined.\<close>

definition mh_process_seg :: "(bytes \<Rightarrow> bytes) \<Rightarrow> (nat \<Rightarrow> nat) \<Rightarrow> mh_state \<Rightarrow> mh_state res" where
  "mh_process_seg md5 rnd s =
     (let k = rnd (mh_calls s) mod K_MINHASH; pq = (pq_pop mh_cmp ^^ k) (mh_pq s) in
      if pq = [] then Err Undefined
      else (let core = pq_top pq;
                (relate, out) = mh_emit md5 (skey core) (mh_sq s) (mh_relate s) (mh_out s)
            in Ok (s\<lparr>mh_relate := relate, mh_pq := pq, mh_sq := [], mh_calls := mh_calls s + 1, mh_out := out\<rparr>)))"

text \<open>A chunk is queued; the smallest fingerprint of the open segment is kept in \<open>pq\<close>.\<close>

definition mh_enqueue :: "snode \<Rightarrow> mh_state \<Rightarrow> mh_state res" where
  "mh_enqueue entry s =
     res_bind (pq_offer mh_cmp (\<lambda>e max. memcmp (skey max) (skey e) > 0) K_MINHASH entry (mh_pq s)) (\<lambda>pq.
       Ok (s\<lparr>mh_size := mh_size s + ssize entry, mh_sq := mh_sq s @ [entry], mh_pq := pq\<rparr>))"

definition mh_step :: "(bytes \<Rightarrow> bytes) \<Rightarrow> (nat \<Rightarrow> nat) \<Rightarrow> snode \<Rightarrow> mh_state \<Rightarrow> mh_state res" where
  "mh_step md5 rnd c s =
     (if seg_cut (mh_size s) c then
        res_bind (mh_process_seg md5 rnd s) (\<lambda>s. mh_enqueue c (s\<lparr>mh_pq := [], mh_sq := [], mh_size := 0\<rparr>))
      else mh_enqueue c s)"

definition mh_read_hashes :: "(bytes \<Rightarrow> bytes) \<Rightarrow> (nat \<Rightarrow> nat) \<Rightarrow> string \<Rightarrow> mh_state \<Rightarrow> mh_state res" where
  "mh_read_hashes md5 rnd file s = read_chunks (mh_step md5 rnd) file s"

definition mh_init :: "kvdb \<Rightarrow> mh_state" where
  "mh_init relate = \<lparr>mh_relate = relate, mh_pq = [], mh_sq = [], mh_size = 0, mh_calls = 0, mh_out = title_text\<rparr>"

definition mh_main :: "(bytes \<Rightarrow> bytes) \<Rightarrow> (nat \<Rightarrow> nat) \<Rightarrow> string \<Rightarrow> kvdb \<Rightarrow> (kvdb \<times> string) res" where
  "mh_main md5 rnd file relate =
     res_bind (mh_read_hashes md5 rnd file (mh_init relate)) (\<lambda>s.
     res_bind (mh_process_seg md5 rnd s) (\<lambda>s. Ok (mh_relate s, mh_out s)))"

section \<open>The encryption of a segment\<close>

definition seg_core :: "snode list \<Rightarrow> bytes" where
  "seg_core seg = Min (skey ` set seg)"

definition enc_seg :: "(bytes \<Rightarrow> bytes) \<Rightarrow> snode list \<Rightarrow> (bytes \<times> snode) list" where
  "enc_seg md5 seg = map (\<lambda>c. (mh_encrypt md5 (seg_core seg) (skey c), c)) seg"

definition put_all :: "(bytes \<times> snode) list \<Rightarrow> kvdb \<Rightarrow> kvdb" where
  "put_all os relate = fold (\<lambda>(k, c) d. snd (db_put d k (skey c))) os relate"

lemma put_all_simps [simp]:
  "put_all [] d = d" "put_all ((k, c) # os) d = put_all os (snd (db_put d k (skey c)))"
  "put_all (a @ b) d = put_all b (put_all a d)"
  by (simp_all add: put_all_def)

lemma mh_emit_spec:
  "mh_emit md5 core sq relate out
   = (put_all (map (\<lambda>c. (mh_encrypt md5 core (skey c), c)) sq) relate,
      out @ printed (map (\<lambda>c. (mh_encrypt md5 core (skey c), c)) sq))"
  by (induction md5 core sq relate out rule: mh_emit.induct) (auto simp: printed_def Let_def)

text \<open>The queue of capacity one holds a chunk of smallest fingerprint of the open segment.\<close>

definition mh_inv :: "mh_state \<Rightarrow> bool" where
  "mh_inv s \<longleftrightarrow> (if mh_sq s = [] then mh_pq s = []
     else \<exists>m. mh_pq s = [m] \<and> skey m = seg_core (mh_sq s))"

lemma pq_single: "pq_push cmp x [] = [x]" "pq_pop cmp [y] = []"
  by (simp_all add: pq_push_def pq_pop_def sift_up.simps)

lemma mh_enqueue_inv:
  assumes "mh_inv s"
  shows "\<exists>s'. mh_enqueue c s = Ok s' \<and> mh_inv s' \<and> mh_sq s' = mh_sq s @ [c] \<and> mh_size s' = mh_size s + ssize c
    \<and> mh_relate s' = mh_relate s \<and> mh_out s' = mh_out s"
proof (cases "mh_sq s = []")
  case True
  then show ?thesis
    using assms by (simp add: mh_inv_def mh_enqueue_def pq_offer_def K_MINHASH_def pq_single seg_core_def)
next
  case False
  then obtain m where m: "mh_pq s = [m]" "skey m = seg_core (mh_sq s)" using assms by (auto simp: mh_inv_def)
  have core: "seg_core (mh_sq s @ [c]) = min (skey c) (seg_core (mh_sq s))"
    using False by (simp add: seg_core_def)
  show ?thesis
    using m False core
    by (auto simp: mh_inv_def mh_enqueue_def pq_offer_def K_MINHASH_def pq_single min_def not_less)
qed

lemma mh_process_seg_spec:
  assumes "mh_inv s"
  shows "if mh_sq s = [] then mh_process_seg md5 rnd s = Err Undefined
    else \<exists>s'. mh_process_seg md5 rnd s = Ok s' \<and> mh_relate s' = put_all (enc_seg md5 (mh_sq s)) (mh_relate s)
      \<and> mh_out s' = mh_out s @ printed (enc_seg md5 (mh_sq s))"
proof (cases "mh_sq s = []")
  case True
  then show ?thesis using assms by (simp add: mh_inv_def mh_process_seg_def K_MINHASH_def)
next
  case False
  then obtain m where "mh_pq s = [m]" "skey m = seg_core (mh_sq s)" using assms by (auto simp: mh_inv_def)
  then show ?thesis
    using False by (simp add: mh_process_seg_def K_MINHASH_def mh_emit_spec enc_seg_def)
qed

section \<open>The whole trace\<close>

lemma mh_fold:
  "mh_inv s \<Longrightarrow>
   res_bind (res_fold (mh_step md5 rnd) cs s) (\<lambda>s. res_bind (mh_process_seg md5 rnd s) (\<lambda>s. Ok (mh_relate s, mh_out s)))
   = (let S = segs (mh_sq s) (mh_size s) cs in
      if [] \<in> set S then Err Undefined
      else Ok (put_all (concat (map (enc_seg md5) S)) (mh_relate s), mh_out s @ printed (concat (map (enc_seg md5) S))))"
proof (induction cs arbitrary: s)
  case Nil
  then show ?case using mh_process_seg_spec [OF Nil, of md5 rnd] by (auto simp: Let_def split: if_splits)
next
  case (Cons c cs)
  show ?case
  proof (cases "seg_cut (mh_size s) c")
    case False
    obtain s1 where s1: "mh_enqueue c s = Ok s1" "mh_inv s1" "mh_sq s1 = mh_sq s @ [c]" "mh_size s1 = mh_size s + ssize c"
        "mh_relate s1 = mh_relate s" "mh_out s1 = mh_out s"
      using mh_enqueue_inv [OF Cons.prems] by blast
    then show ?thesis using False Cons.IH [OF s1(2)] by (simp add: mh_step_def Let_def)
  next
    case cut: True
    show ?thesis
    proof (cases "mh_sq s = []")
      case True
      then show ?thesis using cut mh_process_seg_spec [OF Cons.prems, of md5 rnd] by (simp add: mh_step_def)
    next
      case False
      obtain s1 where s1: "mh_process_seg md5 rnd s = Ok s1" "mh_relate s1 = put_all (enc_seg md5 (mh_sq s)) (mh_relate s)"
          "mh_out s1 = mh_out s @ printed (enc_seg md5 (mh_sq s))"
        using mh_process_seg_spec [OF Cons.prems, of md5 rnd] False by auto
      let ?s2 = "s1\<lparr>mh_pq := [], mh_sq := [], mh_size := 0\<rparr>"
      have "mh_inv ?s2" by (simp add: mh_inv_def)
      then obtain s3 where s3: "mh_enqueue c ?s2 = Ok s3" "mh_inv s3" "mh_sq s3 = [c]" "mh_size s3 = ssize c"
          "mh_relate s3 = mh_relate s1" "mh_out s3 = mh_out s1"
        using mh_enqueue_inv [of ?s2 c] by auto
      then show ?thesis using cut False s1 Cons.IH [OF s3(2)] by (simp add: mh_step_def Let_def)
    qed
  qed
qed

lemma mh_main_eq:
  assumes "trace_chunks file = Ok cs"
  shows "mh_main md5 rnd file relate =
    (let os = concat (map (enc_seg md5) (segments cs)) in
     if [] \<in> set (segments cs) then Err Undefined else Ok (put_all os relate, title_text @ printed os))"
  using mh_fold [of "mh_init relate" md5 rnd cs]
  by (simp add: mh_main_def mh_read_hashes_def read_chunks_fold [OF assms] mh_init_def mh_inv_def segments_def Let_def)

text \<open>
  C8. What MinHash encryption prints and records. For a trace whose lines have all fields, the run is
  undefined exactly when the trace is empty or its first chunk exceeds 4 MiB (the queue of minima
  is then empty); otherwise every chunk is printed in its place with its size, its fingerprint
  encrypted under the smallest fingerprint of its segment, and the pairs of ciphertext and plaintext
  fingerprints are written to the ground-truth database in this order.
\<close>

theorem minhash_main:
  assumes "trace_chunks file = Ok cs"
  shows "mh_main md5 rnd file relate =
    (if cs = [] \<or> ssize (hd cs) > SEG_MAX then Err Undefined
     else let os = concat (map (\<lambda>seg. map (\<lambda>c. (take 6 (md5 (skey c @ Min (skey ` set seg))), c)) seg) (segments cs)) in
       Ok (fold (\<lambda>(k, c) d. snd (db_put d k (skey c))) os relate,
           title_text @ concat (map (\<lambda>(k, c). chunk_line k (ssize c)) os)))"
  unfolding mh_main_eq [OF assms] segments_empty
  by (simp add: enc_seg_def [abs_def] mh_encrypt_def seg_core_def put_all_def printed_def print_chunk_def Let_def)

lemma sample_segments:
  "segments [\<lparr>skey = [6, 5, 4, 3, 2, 1], ssize = 4096\<rparr>, \<lparr>skey = [1, 2, 3, 4, 5, 6], ssize = 8192\<rparr>]
   = [[\<lparr>skey = [6, 5, 4, 3, 2, 1], ssize = 4096\<rparr>, \<lparr>skey = [1, 2, 3, 4, 5, 6], ssize = 8192\<rparr>]]"
  by (simp add: segments_def seg_cut_def cut_byte_iff SEG_MAX_def SEG_MIN_def)

theorem minhash_main_witness:
  "\<exists>d. mh_main (\<lambda>x. map (\<lambda>b. b + 1) x) (\<lambda>n. n)
       (print_trace [([6, 5, 4, 3, 2, 1], 4096), ([1, 2, 3, 4, 5, 6], 8192)]) db_empty
     = Ok (d, title_text @ chunk_line [7, 6, 5, 4, 3, 2] 4096 @ chunk_line [2, 3, 4, 5, 6, 7] 8192)"
  unfolding minhash_main [OF sample_trace] sample_segments by (simp add: SEG_MAX_def)

section \<open>The ground truth\<close>

lemma put_all_reliable [simp]: "reliable (put_all os d) = reliable d"
proof (induction os arbitrary: d)
  case (Cons o' os)
  then show ?case by (cases o') simp
qed simp

lemma put_all_lookup:
  assumes "reliable d"
  shows "db_lookup (put_all os d) k = (case map_of (rev os) k of None \<Rightarrow> db_lookup d k | Some c \<Rightarrow> Some (skey c))"
  using assms
proof (induction os arbitrary: d)
  case (Cons o' os)
  obtain a c where o: "o' = (a, c)" by (cases o')
  show ?case
    using Cons.IH [of "snd (db_put d a (skey c))"] Cons.prems o
    by (auto simp: map_add_def split: option.splits)
qed simp

lemma set_enc: "set (concat (map (enc_seg md5) S)) = {(mh_encrypt md5 (seg_core seg) (skey c), c) | seg c. seg \<in> set S \<and> c \<in> set seg}"
  by (auto simp: enc_seg_def)



end
