(* ===== verification/Combined.thy ===== *)
theory Combined
  imports MinHash
begin

text \<open>
  \<open>defense/combined/combined.cc\<close> (and its copy in \<open>prototype/\<close>): MinHash encryption together with
  scrambling. \<open>process_seg\<close> scrambles the segment first and then encrypts it under the segment's
  smallest fingerprint; the state and the loop over the trace are those of \<open>k_minhash.cc\<close>.
\<close>

text \<open>One value of \<open>rand()\<close> for \<open>k\<close>, then two per chunk of the segment.\<close>

definition cb_process_seg :: "(bytes \<Rightarrow> bytes) \<Rightarrow> (nat \<Rightarrow> nat) \<Rightarrow> mh_state \<Rightarrow> mh_state res" where
  "cb_process_seg md5 rnd s =
     (let k = rnd (mh_calls s) mod K_MINHASH; pq = (pq_pop mh_cmp ^^ k) (mh_pq s) in
      if pq = [] then Err Undefined
      else (let core = pq_top pq;
                deq = scramble_deq rnd (mh_calls s + 1) (mh_sq s) [];
                (relate, out) = mh_emit md5 (skey core) deq (mh_relate s) (mh_out s)
            in Ok (s\<lparr>mh_relate := relate, mh_pq := pq, mh_sq := [],
                     mh_calls := mh_calls s + 1 + 2 * length (mh_sq s), mh_out := out\<rparr>)))"

definition cb_step :: "(bytes \<Rightarrow> bytes) \<Rightarrow> (nat \<Rightarrow> nat) \<Rightarrow> snode \<Rightarrow> mh_state \<Rightarrow> mh_state res" where
  "cb_step md5 rnd c s =
     (if seg_cut (mh_size s) c then
        res_bind (cb_process_seg md5 rnd s) (\<lambda>s. mh_enqueue c (s\<lparr>mh_pq := [], mh_sq := [], mh_size := 0\<rparr>))
      else mh_enqueue c s)"

definition cb_read_hashes :: "(bytes \<Rightarrow> bytes) \<Rightarrow> (nat \<Rightarrow> nat) \<Rightarrow> string \<Rightarrow> mh_state \<Rightarrow> mh_state res" where
  "cb_read_hashes md5 rnd file s = read_chunks (cb_step md5 rnd) file s"

definition cb_main :: "(bytes \<Rightarrow> bytes) \<Rightarrow> (nat \<Rightarrow> nat) \<Rightarrow> string \<Rightarrow> kvdb \<Rightarrow> (kvdb \<times> string) res" where
  "cb_main md5 rnd file relate =
     res_bind (cb_read_hashes md5 rnd file (mh_init relate)) (\<lambda>s.
     res_bind (cb_process_seg md5 rnd s) (\<lambda>s. Ok (mh_relate s, mh_out s)))"

section \<open>Segment-wise permutations of the MinHash encryption\<close>

definition scrambled :: "(bytes \<Rightarrow> bytes) \<Rightarrow> snode list list \<Rightarrow> (bytes \<times> snode) list list \<Rightarrow> bool" where
  "scrambled md5 S outs \<longleftrightarrow> list_all2 (\<lambda>seg out. mset out = mset (enc_seg md5 seg)) S outs"

lemma cb_process_seg_spec:
  assumes "mh_inv s"
  shows "if mh_sq s = [] then cb_process_seg md5 rnd s = Err Undefined
    else \<exists>s' out. cb_process_seg md5 rnd s = Ok s' \<and> mset out = mset (enc_seg md5 (mh_sq s))
      \<and> mh_relate s' = put_all out (mh_relate s) \<and> mh_out s' = mh_out s @ printed out"
proof (cases "mh_sq s = []")
  case True
  then show ?thesis using assms by (simp add: mh_inv_def cb_process_seg_def K_MINHASH_def)
next
  case False
  then obtain m where m: "mh_pq s = [m]" "skey m = seg_core (mh_sq s)" using assms by (auto simp: mh_inv_def)
  let ?deq = "scramble_deq rnd (mh_calls s + 1) (mh_sq s) []"
  let ?out = "map (\<lambda>c. (mh_encrypt md5 (seg_core (mh_sq s)) (skey c), c)) ?deq"
  have "mset ?out = mset (enc_seg md5 (mh_sq s))"
    using mset_scramble [of rnd "mh_calls s + 1" "mh_sq s" "[]"] by (simp add: enc_seg_def)
  then show ?thesis
    using False m by (auto simp: cb_process_seg_def K_MINHASH_def mh_emit_spec Let_def intro!: exI [of _ ?out])
qed

text \<open>The rest of a run from a state in which \<open>cs\<close> is still to be read, and what it yields.\<close>

definition cb_rest :: "(bytes \<Rightarrow> bytes) \<Rightarrow> (nat \<Rightarrow> nat) \<Rightarrow> snode list \<Rightarrow> mh_state \<Rightarrow> (kvdb \<times> string) res" where
  "cb_rest md5 rnd cs s =
     res_bind (res_fold (cb_step md5 rnd) cs s) (\<lambda>s. res_bind (cb_process_seg md5 rnd s) (\<lambda>s. Ok (mh_relate s, mh_out s)))"

lemma cb_rest_Cons: "cb_rest md5 rnd (c # cs) s = res_bind (cb_step md5 rnd c s) (cb_rest md5 rnd cs)"
  by (cases "cb_step md5 rnd c s") (simp_all add: cb_rest_def)

definition cb_yields :: "(bytes \<Rightarrow> bytes) \<Rightarrow> snode list list \<Rightarrow> kvdb \<Rightarrow> string \<Rightarrow> (kvdb \<times> string) res \<Rightarrow> bool" where
  "cb_yields md5 S relate out r \<longleftrightarrow>
     (if [] \<in> set S then r = Err Undefined
      else \<exists>outs. scrambled md5 S outs \<and> r = Ok (put_all (concat outs) relate, out @ printed (concat outs)))"

lemma cb_yields_Cons:
  assumes "cb_yields md5 S (put_all o' relate) (out @ printed o') r" "mset o' = mset (enc_seg md5 seg)" "seg \<noteq> []"
  shows "cb_yields md5 (seg # S) relate out r"
proof (cases "[] \<in> set S")
  case False
  then obtain outs where "scrambled md5 S outs"
      "r = Ok (put_all (concat outs) (put_all o' relate), (out @ printed o') @ printed (concat outs))"
    using assms(1) by (auto simp: cb_yields_def)
  then show ?thesis
    using False assms(2,3) by (auto simp: cb_yields_def scrambled_def intro!: exI [of _ "o' # outs"])
qed (use assms in \<open>simp add: cb_yields_def\<close>)

lemma cb_rest_yields:
  "mh_inv s \<Longrightarrow> cb_yields md5 (segs (mh_sq s) (mh_size s) cs) (mh_relate s) (mh_out s) (cb_rest md5 rnd cs s)"
proof (induction cs arbitrary: s)
  case Nil
  note P = cb_process_seg_spec [OF Nil, of md5 rnd]
  show ?case
  proof (cases "mh_sq s = []")
    case False
    then obtain s' out where s': "cb_process_seg md5 rnd s = Ok s'" "mset out = mset (enc_seg md5 (mh_sq s))"
        "mh_relate s' = put_all out (mh_relate s)" "mh_out s' = mh_out s @ printed out"
      using P by auto
    have "cb_yields md5 [] (mh_relate s') (mh_out s') (cb_rest md5 rnd [] s)"
      using s'(1) by (simp add: cb_yields_def cb_rest_def scrambled_def)
    then show ?thesis using cb_yields_Cons [OF _ s'(2) False] s'(3,4) by simp
  qed (use P in \<open>simp add: cb_yields_def cb_rest_def\<close>)
next
  case (Cons c cs)
  note P = cb_process_seg_spec [OF Cons.prems, of md5 rnd]
  show ?case
  proof (cases "seg_cut (mh_size s) c")
    case False
    obtain s1 where s1: "mh_enqueue c s = Ok s1" "mh_inv s1" "mh_sq s1 = mh_sq s @ [c]" "mh_size s1 = mh_size s + ssize c"
        "mh_relate s1 = mh_relate s" "mh_out s1 = mh_out s"
      using mh_enqueue_inv [OF Cons.prems] by blast
    then show ?thesis
      using False Cons.IH [OF s1(2)] by (simp add: cb_rest_Cons cb_step_def [of md5 rnd c s])
  next
    case cut: True
    show ?thesis
    proof (cases "mh_sq s = []")
      case False
      then obtain s1 out where s1: "cb_process_seg md5 rnd s = Ok s1" "mset out = mset (enc_seg md5 (mh_sq s))"
          "mh_relate s1 = put_all out (mh_relate s)" "mh_out s1 = mh_out s @ printed out"
        using P by auto
      let ?s2 = "s1\<lparr>mh_pq := [], mh_sq := [], mh_size := 0\<rparr>"
      have "mh_inv ?s2" by (simp add: mh_inv_def)
      then obtain s3 where s3: "mh_enqueue c ?s2 = Ok s3" "mh_inv s3" "mh_sq s3 = [c]" "mh_size s3 = ssize c"
          "mh_relate s3 = mh_relate s1" "mh_out s3 = mh_out s1"
        using mh_enqueue_inv [of ?s2 c] by auto
      have "cb_rest md5 rnd (c # cs) s = cb_rest md5 rnd cs s3"
        using cut s1(1) s3(1) by (simp add: cb_rest_Cons cb_step_def [of md5 rnd c s])
      then show ?thesis
        using cb_yields_Cons [OF _ s1(2) False] Cons.IH [OF s3(2)] s3 s1 cut by simp
    qed (use P cut in \<open>simp add: cb_yields_def cb_rest_Cons cb_step_def [of md5 rnd c s]\<close>)
  qed
qed

lemma cb_main_yields:
  assumes "trace_chunks file = Ok cs"
  shows "cb_yields md5 (segments cs) relate title_text (cb_main md5 rnd file relate)"
  using cb_rest_yields [of "mh_init relate" md5 cs rnd]
  by (simp add: cb_main_def cb_read_hashes_def read_chunks_fold [OF assms] cb_rest_def mh_init_def mh_inv_def segments_def)

text \<open>
  C22. The combined defense is the MinHash encryption with each segment printed in some order: it is
  undefined in the same cases, and otherwise it prints, segment after segment, a permutation of the
  encrypted chunks of that segment and records their plaintexts.
\<close>

theorem combined_main:
  assumes "trace_chunks file = Ok cs"
  shows "if cs = [] \<or> ssize (hd cs) > SEG_MAX then cb_main md5 rnd file relate = Err Undefined
    else \<exists>outs. list_all2 (\<lambda>seg out. mset out = mset (map (\<lambda>c. (take 6 (md5 (skey c @ Min (skey ` set seg))), c)) seg))
           (segments cs) outs
      \<and> cb_main md5 rnd file relate
        = Ok (fold (\<lambda>(k, c) d. snd (db_put d k (skey c))) (concat outs) relate,
              title_text @ concat (map (\<lambda>(k, c). chunk_line k (ssize c)) (concat outs)))"
  using cb_main_yields [OF assms, of md5 relate rnd]
  unfolding cb_yields_def segments_empty scrambled_def enc_seg_def mh_encrypt_def seg_core_def put_all_def printed_def print_chunk_def .

theorem combined_main_witness:
  "\<exists>outs :: (bytes \<times> snode) list list. cb_main (\<lambda>x. map (\<lambda>b. b + 1) x) (\<lambda>n. n)
       (print_trace [([6, 5, 4, 3, 2, 1], 4096), ([1, 2, 3, 4, 5, 6], 8192)]) db_empty
     = Ok (fold (\<lambda>(k, c) d. snd (db_put d k (skey c))) (concat outs) db_empty,
           title_text @ concat (map (\<lambda>(k, c). chunk_line k (ssize c)) (concat outs)))"
proof -
  have n: "\<not> ([\<lparr>skey = [6, 5, 4, 3, 2, 1], ssize = 4096\<rparr>, \<lparr>skey = [1, 2, 3, 4, 5, 6], ssize = 8192\<rparr>] = []
      \<or> ssize (hd [\<lparr>skey = [6, 5, 4, 3, 2, 1], ssize = 4096\<rparr>, \<lparr>skey = [1, 2, 3, 4, 5, 6], ssize = 8192\<rparr>]) > SEG_MAX)"
    by (simp add: SEG_MAX_def)
  from combined_main [OF sample_trace, of "\<lambda>x. map (\<lambda>b. b + 1) x" "\<lambda>n. n" db_empty, unfolded if_not_P [OF n]]
  show ?thesis by blast
qed

section \<open>Frequencies\<close>

lemma mset_scrambled:
  "scrambled md5 S outs \<Longrightarrow> mset (concat outs) = mset (concat (map (enc_seg md5) S))"
  unfolding scrambled_def by (induction rule: list_all2_induct) auto

lemma enc_fp:
  "(\<And>x. 6 \<le> length (md5 x)) \<Longrightarrow> p \<in> set (concat (map (enc_seg md5) S)) \<Longrightarrow> is_fp (fst p)"
  by (auto simp: enc_seg_def mh_encrypt_def is_fp_def)

text \<open>
  Scrambling on top of MinHash encryption leaves all frequencies as they are: with a digest of at
  least six bytes, the frequency database counted from the output of the combined defense equals the
  one counted from the output of MinHash encryption alone.
\<close>

lemma combined_keeps_frequencies:
  assumes "\<And>x. 6 \<le> length (md5 x)" "trace_chunks file = Ok cs"
    and "mh_main md5 rnd file relate = Ok (d, out)" "cb_main md5 rnd' file relate = Ok (d', out')"
  shows "basic_read_hashes out' db_empty = basic_read_hashes out db_empty"
proof (rule basic_count_mset)
  let ?os = "concat (map (enc_seg md5) (segments cs))"
  have ne: "[] \<notin> set (segments cs)" and out: "out = title_text @ printed ?os"
    using assms(3) unfolding mh_main_eq [OF assms(2)] by (auto simp: Let_def split: if_splits)
  obtain outs where outs: "scrambled md5 (segments cs) outs" "out' = title_text @ printed (concat outs)"
    using cb_main_yields [OF assms(2), of md5 relate rnd'] ne assms(4) by (auto simp: cb_yields_def)
  have m: "mset (concat outs) = mset ?os" by (rule mset_scrambled [OF outs(1)])
  then have "set (concat outs) = set ?os" by (metis set_mset_mset)
  then have "trace_fps out' = map fst (concat outs)"
    unfolding outs(2) using enc_fp [of md5, OF assms(1)] by (intro trace_fps_printed) blast
  moreover have "trace_fps out = map fst ?os"
    unfolding out using enc_fp [of md5, OF assms(1)] by (intro trace_fps_printed) blast
  ultimately show "mset (trace_fps out') = mset (trace_fps out)" using m by (simp only: mset_map)
qed

lemma combined_keeps_frequencies_witness:
  "\<exists>d out d' out'. mh_main (\<lambda>x. [1, 2, 3, 4, 5, 6] @ x) (\<lambda>n. n) (print_trace [([6, 5, 4, 3, 2, 1], 4096), ([1, 2, 3, 4, 5, 6], 8192)]) db_empty = Ok (d, out)
    \<and> cb_main (\<lambda>x. [1, 2, 3, 4, 5, 6] @ x) (\<lambda>n. 0) (print_trace [([6, 5, 4, 3, 2, 1], 4096), ([1, 2, 3, 4, 5, 6], 8192)]) db_empty = Ok (d', out')
    \<and> basic_read_hashes out' db_empty = basic_read_hashes out db_empty"
proof -
  let ?f = "print_trace [([6, 5, 4, 3, 2, 1], 4096), ([1, 2, 3, 4, 5, 6], 8192)]"
  let ?m = "\<lambda>x. [1, 2, 3, 4, 5, 6] @ x :: bytes"
  obtain d out where m: "mh_main ?m (\<lambda>n. n) ?f db_empty = Ok (d, out)"
    unfolding mh_main_eq [OF sample_trace] sample_segments by (simp add: Let_def)
  obtain d' out' where c: "cb_main ?m (\<lambda>n. 0) ?f db_empty = Ok (d', out')"
    using cb_main_yields [OF sample_trace, of ?m db_empty "\<lambda>n. 0"] by (auto simp: cb_yields_def sample_segments)
  have "basic_read_hashes out' db_empty = basic_read_hashes out db_empty"
    by (rule combined_keeps_frequencies [OF _ sample_trace m c]) simp
  then show ?thesis using m c by blast
qed

end
