(* ===== verification/Murmur.thy ===== *)
theory Murmur
  imports Prelude
begin

text \<open>
  \<open>prototype/MurmurHash2.c\<close>: the 32-bit MurmurHash2 the Bloom filter of the prototype is built on
  (little-endian machine, \<open>int\<close> of 32 bits).
\<close>

unbundle bit_operations_syntax

definition murmur_m :: "32 word" where "murmur_m = 0x5bd1e995"

text \<open>\<open>k *= m; k ^= k >> r; k *= m\<close>\<close>

definition murmur_mix :: "32 word \<Rightarrow> 32 word" where
  "murmur_mix k = (let k = k * murmur_m; k = k XOR drop_bit 24 k in k * murmur_m)"

text \<open>The loop over four bytes at a time and the \<open>switch\<close> with its fall-through for the rest.\<close>

fun murmur_body :: "32 word \<Rightarrow> bytes \<Rightarrow> 32 word" where
  "murmur_body h (a # b # c # d # data) =
     murmur_body ((h * murmur_m) XOR murmur_mix (le_word [a, b, c, d])) data"
| "murmur_body h [a, b, c] =
     (((h XOR push_bit 16 (ucast c)) XOR push_bit 8 (ucast b)) XOR ucast a) * murmur_m"
| "murmur_body h [a, b] = ((h XOR push_bit 8 (ucast b)) XOR ucast a) * murmur_m"
| "murmur_body h [a] = (h XOR ucast a) * murmur_m"
| "murmur_body h [] = h"

text \<open>\<open>h ^= h >> 13; h *= m; h ^= h >> 15\<close>\<close>

definition murmur_final :: "32 word \<Rightarrow> 32 word" where
  "murmur_final h = (let h = h XOR drop_bit 13 h; h = h * murmur_m in h XOR drop_bit 15 h)"

definition murmurhash2 :: "bytes \<Rightarrow> 32 word \<Rightarrow> 32 word" where
  "murmurhash2 key seed = murmur_final (murmur_body (seed XOR word_of_nat (length key)) key)"

section \<open>The mixing steps lose nothing\<close>

text \<open>The multiplier is odd: multiplication by it is inverted by another constant.\<close>

lemma murmur_m_inverse: "murmur_m * 0xe59b19bd = 1"
  by (simp add: murmur_m_def)

lemma mult_m_inj: "a * murmur_m = b * murmur_m \<Longrightarrow> a = b"
proof -
  assume "a * murmur_m = b * murmur_m"
  then have "a * (murmur_m * 0xe59b19bd) = b * (murmur_m * 0xe59b19bd)"
    by (simp only: mult.assoc [symmetric])
  then show ?thesis by (simp add: murmur_m_inverse)
qed

text \<open>\<open>x ^= x >> r\<close> determines \<open>x\<close>, from the high bits down.\<close>

lemma xorshift_inj:
  assumes "0 < r" and eq: "a XOR drop_bit r a = b XOR drop_bit r (b :: 32 word)"
  shows "a = b"
proof (rule bit_word_eqI)
  have step: "bit a n \<longleftrightarrow> bit b n" if "n < 32" for n
    using that
  proof (induction "32 - n" arbitrary: n rule: less_induct)
    case less
    have "bit (a XOR drop_bit r a) n = bit (b XOR drop_bit r b) n" using eq by simp
    then have "(bit a n \<noteq> bit a (r + n)) = (bit b n \<noteq> bit b (r + n))"
      by (simp add: bit_xor_iff bit_drop_bit_eq)
    moreover have "bit a (r + n) = bit b (r + n)"
    proof (cases "r + n < 32")
      case True
      then show ?thesis using less.hyps [of "r + n"] assms(1) less.prems by simp
    next
      case False
      then show ?thesis by (auto dest: bit_imp_le_length)
    qed
    ultimately show ?case by blast
  qed
  fix n assume "n < LENGTH(32)"
  then show "bit a n = bit b n" using step by simp
qed

lemma murmur_mix_inj: "murmur_mix a = murmur_mix b \<Longrightarrow> a = b"
  unfolding murmur_mix_def Let_def
  by (drule mult_m_inj, drule xorshift_inj [rotated], simp, drule mult_m_inj, assumption)

lemma murmur_final_inj: "murmur_final a = murmur_final b \<Longrightarrow> a = b"
  unfolding murmur_final_def Let_def
  by (drule xorshift_inj [rotated], simp, drule mult_m_inj, drule xorshift_inj [rotated], simp, assumption)

lemma le_word_inj:
  "length a = 4 \<Longrightarrow> length b = 4 \<Longrightarrow> (le_word a :: 32 word) = le_word b \<Longrightarrow> a = b"
  using le_bytes_le_word [of a, where 'a = 32] le_bytes_le_word [of b, where 'a = 32] by simp

lemma xor_cancel: "x XOR a = x XOR b \<Longrightarrow> a = (b :: 32 word)"
  by (metis xor.assoc xor_self_eq xor.left_neutral)

text \<open>
  For a fixed seed the hash of a four-byte key determines the key, and for a fixed key the hash
  determines the seed: the multiplications by the odd constant and the xor-shifts are one-to-one.
\<close>

lemma murmurhash2_inj:
  "(length a = 4 \<and> length b = 4 \<and> murmurhash2 a seed = murmurhash2 b seed \<longrightarrow> a = b)
   \<and> (length a = 4 \<and> murmurhash2 a seed = murmurhash2 a seed' \<longrightarrow> seed = seed')"
proof (intro conjI impI)
  assume h: "length a = 4 \<and> length b = 4 \<and> murmurhash2 a seed = murmurhash2 b seed"
  obtain a1 a2 a3 a4 where a: "a = [a1, a2, a3, a4]" using h by (auto simp: numeral_eq_Suc length_Suc_conv)
  obtain b1 b2 b3 b4 where b: "b = [b1, b2, b3, b4]" using h by (auto simp: numeral_eq_Suc length_Suc_conv)
  have "murmur_body (seed XOR 4) a = murmur_body (seed XOR 4) b"
    using h by (auto simp: murmurhash2_def dest!: murmur_final_inj)
  then have "murmur_mix (le_word a) = murmur_mix (le_word b)"
    unfolding a b by (auto simp del: le_word.simps dest!: xor_cancel)
  then show "a = b" using le_word_inj h murmur_mix_inj by blast
next
  assume h: "length a = 4 \<and> murmurhash2 a seed = murmurhash2 a seed'"
  obtain a1 a2 a3 a4 where a: "a = [a1, a2, a3, a4]" using h by (auto simp: numeral_eq_Suc length_Suc_conv)
  have "(seed XOR 4) * murmur_m = (seed' XOR 4) * murmur_m"
    using h unfolding a
    by (auto simp: murmurhash2_def dest!: murmur_final_inj) (metis xor.commute xor_cancel)
  then show "seed = seed'" by (metis mult_m_inj xor.commute xor_cancel)
qed

lemma murmurhash2_inj_witness:
  "murmurhash2 [1, 2, 3, 4] 7 \<noteq> murmurhash2 [1, 2, 3, 5] 7 \<and> murmurhash2 [1, 2, 3, 4] 7 \<noteq> murmurhash2 [1, 2, 3, 4] 8"
  using murmurhash2_inj [of "[1, 2, 3, 4]" "[1, 2, 3, 5]" 7 8] by auto

end
