(* ===== verification/BitText.thy ===== *)
theory BitText
  imports Prelude
begin

text \<open>
  The textual bit images in which the prototype stores bytes: eight digits per byte, the most
  significant bit first. Three files write and read it: \<open>bloom.c\<close> (\<open>bloom_conf_out\<close>,
  \<open>bloom_init_conf\<close>), \<open>lrucache.cc\<close> (\<open>output_conf\<close>, \<open>init_conf\<close>) and \<open>container_manager.cc\<close>
  (\<open>pocessw\<close>, \<open>loadtonode\<close>).
\<close>

text \<open>\<open>for (j = 7; j >= 0; j--) if ((c & 1<<j) != 0) "1" else "0"\<close>\<close>

definition byte_text :: "8 word \<Rightarrow> string" where
  "byte_text c = map (\<lambda>j. if bit c j then CHR ''1'' else CHR ''0'') [7, 6, 5, 4, 3, 2, 1, 0]"

text \<open>
  Element \<open>i\<close> of a \<open>std::string\<close>: position \<open>size()\<close> holds the terminating NUL, beyond it the access
  is undefined.
\<close>

definition str_at :: "string \<Rightarrow> nat \<Rightarrow> char res" where
  "str_at s i = (if i < length s then Ok (s ! i) else if i = length s then Ok (CHR 0x00) else Err Undefined)"

text \<open>
  \<open>for (j = 0; j < 8; j++) if (s[(i*8)+j] == '1') sum += pow(2,(7-j)); tmp = (char)sum;\<close>
\<close>

fun text_sum :: "string \<Rightarrow> nat \<Rightarrow> nat list \<Rightarrow> int \<Rightarrow> int res" where
  "text_sum s i [] acc = Ok acc"
| "text_sum s i (j # js) acc =
     res_bind (str_at s (i * 8 + j)) (\<lambda>c.
       text_sum s i js (if c = CHR ''1'' then acc + 2 ^ (7 - j) else acc))"

definition text_byte :: "string \<Rightarrow> nat \<Rightarrow> 8 word res" where
  "text_byte s i = res_bind (text_sum s i [0, 1, 2, 3, 4, 5, 6, 7] 0) (\<lambda>acc. Ok (word_of_int acc))"

text \<open>The bytes \<open>0 .. n - 1\<close> read from a text.\<close>

fun text_bytes :: "string \<Rightarrow> nat list \<Rightarrow> bytes res" where
  "text_bytes s [] = Ok []"
| "text_bytes s (i # is) = res_bind (text_byte s i) (\<lambda>b. res_bind (text_bytes s is) (\<lambda>bs. Ok (b # bs)))"

definition bytes_text :: "bytes \<Rightarrow> string" where
  "bytes_text bs = concat (map byte_text bs)"

section \<open>The image is read back\<close>

lemma length_byte_text [simp]: "length (byte_text c) = 8"
  by (simp add: byte_text_def)

lemma bytes_text_simps [simp]:
  "bytes_text [] = []" "bytes_text (c # bs) = byte_text c @ bytes_text bs"
  "bytes_text (as @ bs) = bytes_text as @ bytes_text bs"
  by (simp_all add: bytes_text_def)

lemma length_bytes_text [simp]: "length (bytes_text bs) = 8 * length bs"
  by (induction bs) auto

lemma word_of_int_sum_list: "word_of_int (\<Sum>x \<leftarrow> xs. f x) = (\<Sum>x \<leftarrow> xs. word_of_int (f x) :: 'a::len word)"
  by (induction xs) auto

lemma byte_bits:
  "word_of_int (\<Sum>j \<leftarrow> [0, 1, 2, 3, 4, 5, 6, 7]. if bit c (7 - j) then 2 ^ (7 - j) else 0) = (c :: 8 word)"
proof -
  have "c = horner_sum of_bool 2 (map (bit c) [0..<8])"
    using horner_sum_bit_eq_take_bit [of c 8] by (simp add: take_bit_word_eq_self)
  then have "c = (\<Sum>j = 0..<8. of_bool (bit c j) * 2 ^ j)"
    by (simp add: horner_sum_eq_sum)
  also have "\<dots> = (\<Sum>j = 0..<8. if bit c j then 2 ^ j else 0)"
    by (rule sum.cong) auto
  also have "\<dots> = (\<Sum>j \<leftarrow> [0..<8]. if bit c j then 2 ^ j else 0)"
    by (simp add: sum_list_distinct_conv_sum_set)
  also have "\<dots> = word_of_int (\<Sum>j \<leftarrow> [0..<8]. if bit c j then 2 ^ j else 0)"
    by (simp only: word_of_int_sum_list) (simp add: if_distrib cong: if_cong)
  also have "(\<Sum>j \<leftarrow> [0..<8]. if bit c j then 2 ^ j else 0 :: int)
      = (\<Sum>j \<leftarrow> rev [0..<8]. if bit c j then 2 ^ j else 0)"
    by (simp only: rev_map [symmetric] sum_list_rev)
  also have "rev [0..<8] = map (\<lambda>j. 7 - j) [0, 1, 2, 3, 4, 5, 6, 7 :: nat]" by code_simp
  finally show ?thesis by (simp only: map_map comp_def)
qed

lemma text_sum_eq:
  "(\<And>j. j \<in> set js \<Longrightarrow> str_at s (i * 8 + j) = Ok (f j)) \<Longrightarrow>
    text_sum s i js acc = Ok (acc + (\<Sum>j \<leftarrow> js. if f j = CHR ''1'' then 2 ^ (7 - j) else 0))"
  by (induction js arbitrary: acc) auto

lemma str_at_append:
  "i < length b \<Longrightarrow> str_at (a @ b @ c) (length a + i) = Ok (b ! i)"
  by (simp add: str_at_def nth_append)

lemma text_byte_bytes_text:
  assumes "i < length bs"
  shows "text_byte (bytes_text bs @ rest) i = Ok (bs ! i)"
proof -
  let ?s = "bytes_text bs @ rest" and ?c = "bs ! i"
  have "bytes_text bs = bytes_text (take i bs @ ?c # drop (Suc i) bs)"
    using id_take_nth_drop [OF assms] by (rule arg_cong)
  then have split: "?s = bytes_text (take i bs) @ byte_text ?c @ (bytes_text (drop (Suc i) bs) @ rest)"
    by simp
  have len: "length (bytes_text (take i bs)) = i * 8" using assms by simp
  have at: "str_at ?s (i * 8 + j) = Ok (byte_text ?c ! j)" if "j < 8" for j
    using str_at_append [of j "byte_text ?c" "bytes_text (take i bs)" "bytes_text (drop (Suc i) bs) @ rest"] that
    unfolding split len by simp
  have "text_sum ?s i [0, 1, 2, 3, 4, 5, 6, 7] 0
      = Ok (0 + (\<Sum>j \<leftarrow> [0, 1, 2, 3, 4, 5, 6, 7]. if byte_text ?c ! j = CHR ''1'' then 2 ^ (7 - j) else 0))"
    by (rule text_sum_eq, rule at) auto
  also have "map (\<lambda>j. if byte_text ?c ! j = CHR ''1'' then 2 ^ (7 - j) else 0 :: int) [0, 1, 2, 3, 4, 5, 6, 7]
      = map (\<lambda>j. if bit ?c (7 - j) then 2 ^ (7 - j) else 0) [0, 1, 2, 3, 4, 5, 6, 7]"
    by (simp add: byte_text_def)
  finally have "text_byte ?s i
      = Ok (word_of_int (0 + (\<Sum>j \<leftarrow> [0, 1, 2, 3, 4, 5, 6, 7]. if bit ?c (7 - j) then 2 ^ (7 - j) else 0)))"
    by (simp only: text_byte_def res_bind.simps)
  then show ?thesis by (simp only: byte_bits add_0)
qed

lemma text_bytes_bytes_text:
  "(\<And>i. i \<in> set is \<Longrightarrow> i < length bs) \<Longrightarrow> text_bytes (bytes_text bs @ rest) is = Ok (map ((!) bs) is)"
  by (induction "is") (auto simp: text_byte_bytes_text)

lemma text_bytes_round_trip: "text_bytes (bytes_text bs) [0..<length bs] = Ok bs"
  using text_bytes_bytes_text [of "[0..<length bs]" bs "[]"] by (simp add: map_nth)

end
