(* ===== verification/Bloom.thy ===== *)
theory Bloom
  imports Murmur BitText "HOL-Library.Signed_Division"
begin

text \<open>
  \<open>prototype/bloom.c\<close>: the Bloom filter in front of the fingerprint index. The two quantities that
  \<open>bloom_init\<close> computes in floating point, the number of bits \<open>(int)(dentries * bpe)\<close> and the number of
  hash functions \<open>(int)ceil(0.693147180559945 * bpe)\<close>, are arguments of the model. The contract a
  client uses, no false negatives, is the locale \<open>approx_set\<close>.
\<close>

unbundle bit_operations_syntax

section \<open>The contract\<close>

locale approx_set =
  fixes add :: "'k \<Rightarrow> 's \<Rightarrow> 's"
    and maybe :: "'s \<Rightarrow> 'k \<Rightarrow> bool"
    and invar :: "'s \<Rightarrow> bool"
  assumes maybe_add: "invar s \<Longrightarrow> maybe (add k s) k"
    and maybe_mono: "invar s \<Longrightarrow> maybe s k \<Longrightarrow> maybe (add k' s) k"
    and invar_add: "invar s \<Longrightarrow> invar (add k s)"
begin

lemma invar_fold: "invar s \<Longrightarrow> invar (fold add ks s)"
  by (induction ks arbitrary: s) (auto intro: invar_add)

lemma maybe_fold_mono: "invar s \<Longrightarrow> maybe s k \<Longrightarrow> maybe (fold add ks s) k"
  by (induction ks arbitrary: s) (auto intro: maybe_mono invar_add)

lemma no_false_negatives: "invar s \<Longrightarrow> k \<in> set ks \<Longrightarrow> maybe (fold add ks s) k"
  by (induction ks arbitrary: s) (auto intro: maybe_fold_mono maybe_add invar_add)

end

section \<open>The filter\<close>

record bloom =
  bl_entries :: int
  bl_bits :: int
  bl_bytes :: int
  bl_hashes :: int
  bf :: bytes
  bl_ready :: bool

definition test_bit_set_bit :: "bytes \<Rightarrow> 32 word \<Rightarrow> bool \<Rightarrow> (bytes \<times> bool) res" where
  "test_bit_set_bit buf x setb =
     (let byte = unat (drop_bit 3 x) in
      if byte < length buf then
        (let c = buf ! byte; mask = push_bit (unat (x mod 8)) (1 :: 32 word) in
         if ucast c AND mask \<noteq> 0 then Ok (buf, True)
         else Ok (if setb then buf[byte := ucast (ucast c OR mask)] else buf, False))
      else Err Undefined)"

text \<open>The loop over the hash functions: the buffer and the number of hits.\<close>

fun bloom_loop :: "32 word \<Rightarrow> 32 word \<Rightarrow> 32 word \<Rightarrow> bool \<Rightarrow> nat list \<Rightarrow> bytes \<times> nat \<Rightarrow> (bytes \<times> nat) res" where
  "bloom_loop a b bits add [] bh = Ok bh"
| "bloom_loop a b bits add (i # is) (buf, hits) =
     (if bits = 0 then Err Undefined
      else let x = (a + word_of_nat i * b) mod bits in
        res_bind (test_bit_set_bit buf x add) (\<lambda>(buf, hit).
          bloom_loop a b bits add is (buf, if hit then hits + 1 else hits)))"

definition bloom_check_add :: "bloom \<Rightarrow> bytes \<Rightarrow> bool \<Rightarrow> (bloom \<times> int) res" where
  "bloom_check_add bl key add =
     (if \<not> bl_ready bl then Ok (bl, - 1)
      else let a = murmurhash2 key 0x9747b28c; b = murmurhash2 key a in
        res_bind (bloom_loop a b (word_of_int (bl_bits bl)) add
            [0 ..< unat (word_of_int (bl_hashes bl) :: 32 word)] (bf bl, 0)) (\<lambda>(buf, hits).
          Ok (bl\<lparr>bf := buf\<rparr>, if int hits = bl_hashes bl then 1 else 0)))"

text \<open>
  \<open>bloom_init\<close>: \<open>bits\<close> and \<open>hashes\<close> are the floating-point results, \<open>alloc n\<close> tells whether
  \<open>calloc\<close> of \<open>n\<close> bytes succeeds.
\<close>

definition bloom_init :: "(int \<Rightarrow> bool) \<Rightarrow> int \<Rightarrow> int \<Rightarrow> int \<Rightarrow> bool \<Rightarrow> bloom \<Rightarrow> bloom \<times> int" where
  "bloom_init alloc bits hashes entries error_is_0 bl =
     (let bl = bl\<lparr>bl_ready := False\<rparr> in
      if entries < 1000 \<or> error_is_0 then (bl, 1)
      else
        (let bytes = (if bits smod 8 \<noteq> 0 then bits sdiv 8 + 1 else bits sdiv 8);
             bl = bl\<lparr>bl_entries := entries, bl_bits := bits, bl_bytes := bytes, bl_hashes := hashes\<rparr> in
         if alloc bytes then (bl\<lparr>bf := replicate (nat bytes) 0, bl_ready := True\<rparr>, 0)
         else (bl, 1)))"

definition bloom_check :: "bloom \<Rightarrow> bytes \<Rightarrow> (bloom \<times> int) res" where
  "bloom_check bl key = bloom_check_add bl key False"

definition bloom_add :: "bloom \<Rightarrow> bytes \<Rightarrow> (bloom \<times> int) res" where
  "bloom_add bl key = bloom_check_add bl key True"

definition bloom_free :: "bloom \<Rightarrow> bloom" where
  "bloom_free bl = bl\<lparr>bf := if bl_ready bl then [] else bf bl, bl_ready := False\<rparr>"

text \<open>
  The file \<open>./conf/bloomConf\<close>: \<open>None\<close> when it cannot be opened.
\<close>

definition bloom_init_conf :: "string option \<Rightarrow> bloom \<Rightarrow> (bloom \<times> bool) res" where
  "bloom_init_conf conf bl =
     (case conf of
        None \<Rightarrow> Ok (bl, False)
      | Some contents \<Rightarrow>
          res_bind (text_bytes contents [0 ..< nat (bl_bytes bl)]) (\<lambda>bs.
            Ok (bl\<lparr>bf := bs @ drop (length bs) (bf bl)\<rparr>, True)))"

definition bloom_conf_out :: "bloom \<Rightarrow> string" where
  "bloom_conf_out bl = concat (map (\<lambda>i. byte_text (bf bl ! i)) [0 ..< nat (bl_bytes bl)])"

section \<open>Bits of the field\<close>

definition bloom_wf :: "bloom \<Rightarrow> bool" where
  "bloom_wf bl \<longleftrightarrow> bl_ready bl \<and> 0 < bl_bits bl \<and> bl_bits bl < 2 ^ 31 \<and> 0 \<le> bl_hashes bl \<and> bl_hashes bl < 2 ^ 31
     \<and> bl_bytes bl = (bl_bits bl + 7) div 8 \<and> length (bf bl) = nat (bl_bytes bl)"

definition bf_bit :: "bytes \<Rightarrow> nat \<Rightarrow> bool" where
  "bf_bit buf p = bit (buf ! (p div 8)) (p mod 8)"

definition bf_set :: "bytes \<Rightarrow> nat \<Rightarrow> bytes" where
  "bf_set buf p = buf[p div 8 := buf ! (p div 8) OR push_bit (p mod 8) 1]"

lemma length_bf_set [simp]: "length (bf_set buf p) = length buf"
  by (simp add: bf_set_def)

lemma bf_bit_set:
  assumes "p < 8 * length buf"
  shows "bf_bit (bf_set buf p) q \<longleftrightarrow> bf_bit buf q \<or> q = p"
proof (cases "q div 8 = p div 8")
  case True
  have "p div 8 < length buf" using assms by (simp add: div_less_iff_less_mult mult.commute)
  moreover have "q mod 8 < 8" "p mod 8 < 8" by simp_all
  moreover have "q mod 8 = p mod 8 \<longleftrightarrow> q = p" using True by (metis div_mult_mod_eq)
  ultimately show ?thesis
    using True by (auto simp: bf_bit_def bf_set_def bit_or_iff bit_exp_iff possible_bit_word)
next
  case False
  then have "q \<noteq> p" by auto
  then show ?thesis using False by (simp add: bf_bit_def bf_set_def)
qed

lemma and_mask: "n < 8 \<Longrightarrow> (ucast (c :: 8 word) AND 2 ^ n :: 32 word) = 0 \<longleftrightarrow> \<not> bit c n"
  by (simp add: and_exp_eq_0_iff_not_bit bit_ucast_iff)

lemma or_mask: "n < 8 \<Longrightarrow> ucast (ucast (c :: 8 word) OR 2 ^ n :: 32 word) = c OR (2 ^ n :: 8 word)"
  by (rule bit_word_eqI) (auto simp: bit_simps)

lemma test_bit_set_bit_eq:
  assumes "unat x < 8 * length buf"
  shows "test_bit_set_bit buf x s =
    Ok (if s \<and> \<not> bf_bit buf (unat x) then bf_set buf (unat x) else buf, bf_bit buf (unat x))"
proof -
  have b: "unat (drop_bit 3 x) = unat x div 8" "unat (x mod 8) = unat x mod 8"
    by (simp_all add: drop_bit_eq_div unat_div_distrib unat_mod_distrib)
  have "unat x div 8 < length buf" using assms by (simp add: div_less_iff_less_mult mult.commute)
  then show ?thesis
    by (simp add: test_bit_set_bit_def b and_mask or_mask bf_bit_def bf_set_def Let_def)
qed

section \<open>Checking and adding\<close>

text \<open>The position of hash function \<open>i\<close>.\<close>

definition bloom_pos :: "bloom \<Rightarrow> bytes \<Rightarrow> nat \<Rightarrow> nat" where
  "bloom_pos bl key i =
     unat ((murmurhash2 key 0x9747b28c + word_of_nat i * murmurhash2 key (murmurhash2 key 0x9747b28c))
       mod word_of_int (bl_bits bl))"

definition bloom_maybe :: "bloom \<Rightarrow> bytes \<Rightarrow> bool" where
  "bloom_maybe bl key \<longleftrightarrow> (\<forall>i < nat (bl_hashes bl). bf_bit (bf bl) (bloom_pos bl key i))"

lemma unat_of_int_small:
  assumes "0 \<le> k" "k < 2 ^ 32"
  shows "unat (word_of_int k :: 32 word) = nat k"
proof -
  have "uint (word_of_int k :: 32 word) = k"
    using assms by (simp add: uint_word_of_int_eq take_bit_int_eq_self)
  then have "nat (uint (word_of_int k :: 32 word)) = nat k" by simp
  then show ?thesis by simp
qed

lemma bits_word:
  assumes "bloom_wf bl"
  shows "unat (word_of_int (bl_bits bl) :: 32 word) = nat (bl_bits bl)" "(word_of_int (bl_bits bl) :: 32 word) \<noteq> 0"
    "unat (word_of_int (bl_hashes bl) :: 32 word) = nat (bl_hashes bl)"
proof -
  have b: "0 < bl_bits bl" "bl_bits bl < 2 ^ 32" "0 \<le> bl_hashes bl" "bl_hashes bl < 2 ^ 32"
    using assms by (auto simp: bloom_wf_def)
  show u: "unat (word_of_int (bl_bits bl) :: 32 word) = nat (bl_bits bl)"
    "unat (word_of_int (bl_hashes bl) :: 32 word) = nat (bl_hashes bl)"
    using b unat_of_int_small by simp_all
  show "(word_of_int (bl_bits bl) :: 32 word) \<noteq> 0"
    using u(1) b(1) by (metis nat_0_iff not_le unat_0)
qed

lemma bloom_pos_bound:
  assumes "bloom_wf bl"
  shows "bloom_pos bl key i < 8 * length (bf bl)"
proof -
  have "bloom_pos bl key i < nat (bl_bits bl)"
    unfolding bloom_pos_def unat_mod_distrib bits_word(1) [OF assms]
    by (rule mod_less_divisor) (use assms in \<open>simp add: bloom_wf_def\<close>)
  also have "\<dots> \<le> 8 * length (bf bl)" using assms by (simp add: bloom_wf_def)
  finally show ?thesis .
qed

lemma bloom_loop_eq:
  assumes "bits \<noteq> 0" "\<And>i. i \<in> set is \<Longrightarrow> unat ((a + word_of_nat i * b) mod bits) < 8 * length buf"
  shows "bloom_loop a b bits add is (buf, hits) =
    (let ps = map (\<lambda>i. unat ((a + word_of_nat i * b) mod bits)) is;
         step = (\<lambda>p (buf, hits). (if add \<and> \<not> bf_bit buf p then bf_set buf p else buf,
                                 if bf_bit buf p then hits + 1 else hits))
     in Ok (fold step ps (buf, hits)))"
  using assms(2)
proof (induction "is" arbitrary: buf hits)
  case (Cons i "is")
  have "unat ((a + word_of_nat i * b) mod bits) < 8 * length buf" using Cons.prems by simp
  then show ?case
    using assms(1) Cons.prems
    by (simp add: test_bit_set_bit_eq Cons.IH Let_def)
qed simp

text \<open>The fold over the positions of a key.\<close>

definition visit :: "bool \<Rightarrow> nat \<Rightarrow> bytes \<times> nat \<Rightarrow> bytes \<times> nat" where
  "visit add p bh = (case bh of (buf, hits) \<Rightarrow>
     (if add \<and> \<not> bf_bit buf p then bf_set buf p else buf, if bf_bit buf p then hits + 1 else hits))"

lemma visit_check:
  "fold (visit False) ps (buf, hits) = (buf, hits + length (filter (bf_bit buf) ps))"
  by (induction ps arbitrary: hits) (auto simp: visit_def)

lemma visit_add:
  "\<forall>p \<in> set ps. p < 8 * length buf \<Longrightarrow> fold (visit True) ps (buf, hits) = (buf', hits') \<Longrightarrow>
     length buf' = length buf \<and> (\<forall>q. bf_bit buf' q \<longleftrightarrow> bf_bit buf q \<or> q \<in> set ps) \<and> hits' \<le> hits + length ps
     \<and> (hits' = hits + length ps \<longleftrightarrow> (\<forall>p \<in> set ps. bf_bit buf p))"
proof (induction ps arbitrary: buf hits)
  case (Cons p ps)
  show ?case
  proof (cases "bf_bit buf p")
    case True
    then have "fold (visit True) ps (buf, hits + 1) = (buf', hits')" using Cons.prems(2) by (simp add: visit_def [of True p])
    then show ?thesis using Cons.IH [of buf "hits + 1"] Cons.prems(1) True by auto
  next
    case False
    then have f: "fold (visit True) ps (bf_set buf p, hits) = (buf', hits')" using Cons.prems(2) by (simp add: visit_def [of True p])
    have b: "\<forall>q. bf_bit (bf_set buf p) q \<longleftrightarrow> bf_bit buf q \<or> q = p" using bf_bit_set Cons.prems(1) by simp
    then show ?thesis using Cons.IH [OF _ f] Cons.prems(1) False by auto
  qed
qed auto

lemma bloom_check_add_fold:
  assumes "bloom_wf bl"
  shows "bloom_check_add bl key add =
    (let (buf, hits) = fold (visit add) (map (bloom_pos bl key) [0 ..< nat (bl_hashes bl)]) (bf bl, 0)
     in Ok (bl\<lparr>bf := buf\<rparr>, if int hits = bl_hashes bl then 1 else 0))"
proof -
  have "bl_ready bl" using assms by (simp add: bloom_wf_def)
  then show ?thesis
    using bloom_pos_bound [OF assms, of key] bits_word(2) [OF assms]
    by (simp add: bloom_check_add_def bits_word(3) [OF assms] bloom_loop_eq bloom_pos_def [abs_def]
        visit_def [abs_def] case_prod_beta' Let_def)
qed

lemma length_filter_all: "length (filter P xs) = length xs \<longleftrightarrow> (\<forall>x \<in> set xs. P x)"
  using length_filter_less [of _ xs P] by (metis filter_True less_irrefl)

lemma bloom_check_eq:
  assumes "bloom_wf bl"
  shows "bloom_check bl key = Ok (bl, if bloom_maybe bl key then 1 else 0)"
proof -
  let ?ps = "map (bloom_pos bl key) [0 ..< nat (bl_hashes bl)]"
  have "int (length (filter (bf_bit (bf bl)) ?ps)) = bl_hashes bl \<longleftrightarrow> length (filter (bf_bit (bf bl)) ?ps) = length ?ps"
    using assms by (auto simp: bloom_wf_def)
  also have "\<dots> \<longleftrightarrow> bloom_maybe bl key" unfolding length_filter_all by (auto simp: bloom_maybe_def)
  finally show ?thesis by (simp add: bloom_check_def bloom_check_add_fold [OF assms] visit_check)
qed

lemma bloom_add_spec:
  assumes wf: "bloom_wf bl"
  shows "\<exists>bl'. bloom_add bl key = Ok (bl', if bloom_maybe bl key then 1 else 0) \<and> bloom_wf bl'
    \<and> bl' = bl\<lparr>bf := bf bl'\<rparr> \<and> bloom_maybe bl' key \<and> (\<forall>q. bf_bit (bf bl) q \<longrightarrow> bf_bit (bf bl') q)"
proof -
  let ?ps = "map (bloom_pos bl key) [0 ..< nat (bl_hashes bl)]"
  obtain buf hits where f: "fold (visit True) ?ps (bf bl, 0) = (buf, hits)" by fastforce
  have v: "length buf = length (bf bl)" "\<And>q. bf_bit buf q \<longleftrightarrow> bf_bit (bf bl) q \<or> q \<in> set ?ps"
      "hits = length ?ps \<longleftrightarrow> (\<forall>p \<in> set ?ps. bf_bit (bf bl) p)"
    using visit_add [OF _ f] bloom_pos_bound [OF wf] by auto
  have pos: "bloom_pos (bl\<lparr>bf := buf\<rparr>) key = bloom_pos bl key" by (simp add: bloom_pos_def fun_eq_iff)
  have "int hits = bl_hashes bl \<longleftrightarrow> hits = length ?ps" using wf by (auto simp: bloom_wf_def)
  also have "\<dots> \<longleftrightarrow> bloom_maybe bl key" unfolding v(3) by (auto simp: bloom_maybe_def)
  finally have "bloom_add bl key = Ok (bl\<lparr>bf := buf\<rparr>, if bloom_maybe bl key then 1 else 0)"
    using f by (simp add: bloom_add_def bloom_check_add_fold [OF wf])
  moreover have "bloom_wf (bl\<lparr>bf := buf\<rparr>)" using wf v(1) by (simp add: bloom_wf_def)
  moreover have "bloom_maybe (bl\<lparr>bf := buf\<rparr>) key" by (simp add: bloom_maybe_def pos v(2))
  ultimately show ?thesis using v(2) by (intro exI [of _ "bl\<lparr>bf := buf\<rparr>"]) auto
qed

lemma bloom_maybe_mono:
  "bl' = bl\<lparr>bf := bf bl'\<rparr> \<Longrightarrow> \<forall>q. bf_bit (bf bl) q \<longrightarrow> bf_bit (bf bl') q \<Longrightarrow> bloom_maybe bl key \<Longrightarrow> bloom_maybe bl' key"
proof -
  assume e: "bl' = bl\<lparr>bf := bf bl'\<rparr>" and m: "\<forall>q. bf_bit (bf bl) q \<longrightarrow> bf_bit (bf bl') q" "bloom_maybe bl key"
  have "bl_hashes bl' = bl_hashes bl" "bl_bits bl' = bl_bits bl" by (subst e, simp)+
  then show ?thesis using m by (simp add: bloom_maybe_def bloom_pos_def)
qed

text \<open>The filter after adding a key.\<close>

definition bloom_ins :: "bytes \<Rightarrow> bloom \<Rightarrow> bloom" where
  "bloom_ins key bl = (case bloom_add bl key of Ok (bl', _) \<Rightarrow> bl' | Err _ \<Rightarrow> bl)"

lemma bloom_add_ins:
  "bloom_wf bl \<Longrightarrow> bloom_add bl key = Ok (bloom_ins key bl, if bloom_maybe bl key then 1 else 0)"
  using bloom_add_spec [of bl key] by (auto simp: bloom_ins_def)

lemma bloom_ins_size: "bloom_wf bl \<Longrightarrow> bl_bits (bloom_ins key bl) = bl_bits bl \<and> bl_hashes (bloom_ins key bl) = bl_hashes bl"
  using bloom_add_spec [of bl key] by (auto simp: bloom_add_ins) (metis bloom.select_convs(2,4) bloom.surjective bloom.update_convs(5))+

interpretation bs: approx_set bloom_ins bloom_maybe bloom_wf
proof
  fix s :: bloom and k k'
  assume s: "bloom_wf s"
  then obtain s' where s': "bloom_ins k s = s'" "bloom_wf s'" "s' = s\<lparr>bf := bf s'\<rparr>" "bloom_maybe s' k"
      "\<forall>q. bf_bit (bf s) q \<longrightarrow> bf_bit (bf s') q"
    using bloom_add_spec [OF s, of k] by (auto simp: bloom_ins_def)
  show "bloom_wf (bloom_ins k s)" "bloom_maybe (bloom_ins k s) k" using s' by auto
next
  fix s :: bloom and k k'
  assume s: "bloom_wf s" "bloom_maybe s k"
  then obtain s' where "bloom_ins k' s = s'" "s' = s\<lparr>bf := bf s'\<rparr>" "\<forall>q. bf_bit (bf s) q \<longrightarrow> bf_bit (bf s') q"
    using bloom_add_spec [OF s(1), of k'] by (auto simp: bloom_ins_def)
  then show "bloom_maybe (bloom_ins k' s) k" using bloom_maybe_mono s(2) by metis
qed

section \<open>Properties\<close>

lemma round_up_8: "(b + 7) div 8 = (if b mod 8 \<noteq> 0 then b div 8 + 1 else b div (8 :: int))"
proof -
  have "b + 7 = (b mod 8 + 7) + 8 * (b div 8)" using mod_mult_div_eq [of b 8] by linarith
  then have "(b + 7) div 8 = ((b mod 8 + 7) + 8 * (b div 8)) div 8" by (rule arg_cong)
  also have "\<dots> = b div 8 + (b mod 8 + 7) div 8" by (rule div_mult_self2) simp
  finally have e: "(b + 7) div 8 = b div 8 + (b mod 8 + 7) div 8" .
  have "0 \<le> b mod 8" "b mod 8 < 8" by simp_all
  then have "(b mod 8 + 7) div 8 = (if b mod 8 \<noteq> 0 then 1 else 0)"
    using div_pos_pos_trivial [of "b mod 8 - 1" 8] div_add_self2 [of 8 "b mod 8 - 1"] by auto
  then show ?thesis using e by simp
qed

lemma bloom_init_wf:
  assumes "1000 \<le> entries" "0 < bits" "bits < 2 ^ 31" "0 \<le> hashes" "hashes < 2 ^ 31" "alloc ((bits + 7) div 8)"
  shows "\<exists>bl'. bloom_init alloc bits hashes entries False bl = (bl', 0) \<and> bloom_wf bl'
    \<and> bl_bits bl' = bits \<and> bl_hashes bl' = hashes \<and> bf bl' = replicate (nat ((bits + 7) div 8)) 0"
proof -
  have "(if bits smod 8 \<noteq> 0 then bits sdiv 8 + 1 else bits sdiv 8) = (bits + 7) div 8"
    using assms(2) round_up_8 [of bits] by (simp add: signed_modulo_int_def signed_divide_int_def)
  then show ?thesis using assms by (simp add: bloom_init_def bloom_wf_def Let_def)
qed

text \<open>
  C24. The Bloom filter has no false negatives: starting from any well-formed filter, after adding the
  keys of a list, in any number and order, the check of each of them returns 1; adding and checking
  never fail, and the filter stays well-formed.
\<close>

theorem bloom_no_false_negatives:
  assumes "bloom_wf bl" "key \<in> set keys"
  shows "\<exists>bl'. res_fold (\<lambda>k b. res_bind (bloom_add b k) (\<lambda>r. Ok (fst r))) keys bl = Ok bl'
    \<and> bloom_wf bl' \<and> bloom_check bl' key = Ok (bl', 1)"
proof -
  have "bloom_wf b \<Longrightarrow> res_fold (\<lambda>k b. res_bind (bloom_add b k) (\<lambda>r. Ok (fst r))) ks b = Ok (fold bloom_ins ks b)" for ks b
    by (induction ks arbitrary: b) (auto simp: bloom_add_ins bs.invar_add)
  then show ?thesis
    using assms bs.invar_fold bs.no_false_negatives by (simp add: bloom_check_eq)
qed

lemma sample_bloom: "bloom_wf \<lparr>bl_entries = 1000, bl_bits = 20, bl_bytes = 3, bl_hashes = 7, bf = [0, 0, 0], bl_ready = True\<rparr>"
  by (simp add: bloom_wf_def)

theorem bloom_no_false_negatives_witness:
  "\<exists>bl'. res_fold (\<lambda>k b. res_bind (bloom_add b k) (\<lambda>r. Ok (fst r))) [[1, 2, 3, 4, 5, 6], [6, 5, 4, 3, 2, 1]]
      \<lparr>bl_entries = 1000, bl_bits = 20, bl_bytes = 3, bl_hashes = 7, bf = [0, 0, 0], bl_ready = True\<rparr> = Ok bl'
    \<and> bloom_check bl' [1, 2, 3, 4, 5, 6] = Ok (bl', 1)"
  using bloom_no_false_negatives [OF sample_bloom, of "[1, 2, 3, 4, 5, 6]" "[[1, 2, 3, 4, 5, 6], [6, 5, 4, 3, 2, 1]]"]
  by (metis list.set_intros(1))

lemma bloom_conf_read:
  assumes "bloom_wf bl" "bloom_wf bl'" "bl_bytes bl' = bl_bytes bl"
  shows "bloom_init_conf (Some (bloom_conf_out bl)) bl' = Ok (bl'\<lparr>bf := bf bl\<rparr>, True)"
proof -
  have len: "length (bf bl) = nat (bl_bytes bl)" "length (bf bl') = nat (bl_bytes bl)"
    using assms by (auto simp: bloom_wf_def)
  have "map (\<lambda>i. byte_text (bf bl ! i)) [0 ..< length (bf bl)] = map byte_text (bf bl)"
    by (rule nth_equalityI) simp_all
  then have "bloom_conf_out bl = bytes_text (bf bl)"
    unfolding bloom_conf_out_def bytes_text_def len(1) [symmetric] by simp
  then show ?thesis
    using text_bytes_round_trip [of "bf bl"] assms(3) len by (simp add: bloom_init_conf_def)
qed

text \<open>
  The saved filter is read back: loading the file that \<open>bloom_conf_out\<close> wrote for a well-formed
  filter into another one with the same parameters gives the same bit field.
\<close>

lemma bloom_conf_round_trip:
  assumes "bloom_wf bl" "bloom_wf bl'" "bl_bytes bl' = bl_bytes bl"
  shows "bloom_init_conf (Some (bloom_conf_out bl)) bl' = Ok (bl'\<lparr>bf := bf bl\<rparr>, True)"
  using assms by (rule bloom_conf_read)

lemma bloom_conf_round_trip_witness:
  "bloom_init_conf (Some (bloom_conf_out
      \<lparr>bl_entries = 1000, bl_bits = 20, bl_bytes = 3, bl_hashes = 7, bf = [0, 0, 0], bl_ready = True\<rparr>))
      \<lparr>bl_entries = 1000, bl_bits = 20, bl_bytes = 3, bl_hashes = 7, bf = [0, 0, 0], bl_ready = True\<rparr>
    = Ok (\<lparr>bl_entries = 1000, bl_bits = 20, bl_bytes = 3, bl_hashes = 7, bf = [0, 0, 0], bl_ready = True\<rparr>, True)"
  using bloom_conf_round_trip [OF sample_bloom sample_bloom] by simp

end
