(* ===== verification/Container.thy ===== *)
theory Container
  imports CLib BitText "HOL-Library.Signed_Division"
begin

text \<open>
  \<open>prototype/container_manager.cc\<close>: fingerprints of unique chunks are collected in memory and written
  to numbered container files, one line of 48 binary digits per fingerprint; the file \<open>MAINFEST\<close>
  holds the next number. Files are a map from path names to contents; opening a file for writing is
  taken to succeed.
\<close>

type_synonym files = "string \<Rightarrow> string option"

record container_manager =
  now_id :: int
  now_size :: int
  ctmp :: "bytes list"    \<comment> \<open>\<open>tmp\<close>\<close>

definition MAX_SIZE :: int where "MAX_SIZE = 4 * 1024 * 1024"

text \<open>Addition of two \<open>int\<close>s: overflow is undefined.\<close>

definition int_add :: "int \<Rightarrow> int \<Rightarrow> int res" where
  "int_add a b = (if - (2 ^ 31) \<le> a + b \<and> a + b < 2 ^ 31 then Ok (a + b) else Err Undefined)"

section \<open>Operations\<close>

text \<open>\<open>fscanf(fl, "%d", &now_id)\<close>: \<open>None\<close> when no number is found.\<close>

definition scan_int :: "string \<Rightarrow> int option" where
  "scan_int s =
     (let s1 = dropWhile isspace s;
          s2 = (case s1 of c # r \<Rightarrow> if c = CHR ''-'' \<or> c = CHR ''+'' then r else s1 | [] \<Rightarrow> [])
      in case s2 of c # _ \<Rightarrow> if is_digit 10 c then Some (sint (word_of_int (strtol 10 s) :: 32 word)) else None
         | [] \<Rightarrow> None)"

text \<open>\<open>init\<close>: a missing \<open>MAINFEST\<close> is created.\<close>

definition cm_init :: "string \<Rightarrow> files \<Rightarrow> (container_manager \<times> files \<times> int) res" where
  "cm_init path fs =
     (case fs (path @ ''MAINFEST'') of
        None \<Rightarrow> Ok (\<lparr>now_id = 0, now_size = 0, ctmp = []\<rparr>, fs(path @ ''MAINFEST'' \<mapsto> ''0'' @ [NL]), 0)
      | Some contents \<Rightarrow>
          (case scan_int contents of
             None \<Rightarrow> Err Assert_failed
           | Some n \<Rightarrow> Ok (\<lparr>now_id = n, now_size = 0, ctmp = []\<rparr>, fs, 1)))"

text \<open>
  The digits of the number, lowest first: \<open>fi += (char)((ee % 10) + '0'); ee /= 10\<close>, with the division
  that truncates towards zero.
\<close>

function id_digits :: "int \<Rightarrow> string" where
  "id_digits ee = (if ee = 0 then [] else char_of (nat (ee smod 10 + 48)) # id_digits (ee sdiv 10))"
  by pat_completeness auto
termination
proof (relation "measure (\<lambda>ee. nat \<bar>ee\<bar>)")
  fix ee :: int assume "ee \<noteq> 0"
  then show "(ee sdiv 10, ee) \<in> measure (\<lambda>ee. nat \<bar>ee\<bar>)"
    by (cases "0 < ee") (simp_all add: signed_divide_int_def abs_mult sgn_if)
qed simp

declare id_digits.simps [simp del]

definition id_name :: "int \<Rightarrow> string" where
  "id_name ee = rev (if ee = 0 then ''0'' else id_digits ee)"

text \<open>The decimal image of an \<open>int\<close>: \<open>%d\<close> and \<open>stream << ID\<close>.\<close>

definition dec_int :: "int \<Rightarrow> string" where
  "dec_int n = (if n < 0 then CHR ''-'' # dec (nat (- n)) else dec (nat n))"

text \<open>
  \<open>string temp(it->c_str())\<close> ends at the first NUL; \<open>temp[k]\<close> is the terminating NUL at \<open>size()\<close> and
  undefined beyond.
\<close>

fun temp_text :: "bytes \<Rightarrow> nat list \<Rightarrow> string res" where
  "temp_text temp [] = Ok [NL]"
| "temp_text temp (k # ks) =
     (if k \<le> length temp then
        res_bind (temp_text temp ks) (\<lambda>t. Ok (byte_text (if k < length temp then temp ! k else 0) @ t))
      else Err Undefined)"

definition fp_line :: "bytes \<Rightarrow> string res" where
  "fp_line h = temp_text (takeWhile (\<lambda>b. b \<noteq> 0) h) [0 ..< FP_SIZE]"

fun fp_lines :: "bytes list \<Rightarrow> string res" where
  "fp_lines [] = Ok []"
| "fp_lines (h # hs) = res_bind (fp_line h) (\<lambda>l. res_bind (fp_lines hs) (\<lambda>ls. Ok (l @ ls)))"

definition pocessw :: "string \<Rightarrow> container_manager \<times> files \<Rightarrow> ((container_manager \<times> files) \<times> bool) res" where
  "pocessw path cf =
     (let (c, fs) = cf in
      if ctmp c = [] then Ok ((c, fs), False)
      else res_bind (int_add (now_id c) 1) (\<lambda>next.
        res_bind (fp_lines (ctmp c)) (\<lambda>text.
        Ok ((c\<lparr>now_id := next, ctmp := [], now_size := 0\<rparr>,
             fs(path @ id_name (now_id c) \<mapsto> text,
                path @ ''MAINFEST'' \<mapsto> dec_int next @ [NL])), True))))"

definition cm_insert :: "bytes \<Rightarrow> int \<Rightarrow> string \<Rightarrow> container_manager \<times> files \<Rightarrow> (container_manager \<times> files) res" where
  "cm_insert str sz path cf =
     res_bind (int_add (now_size (fst cf)) sz) (\<lambda>n.
     res_bind (if n > MAX_SIZE then res_bind (pocessw path cf) (\<lambda>r. Ok (fst r)) else Ok cf) (\<lambda>(c, fs).
     res_bind (int_add (now_size c) sz) (\<lambda>n.
       Ok (c\<lparr>now_size := n, ctmp := ctmp c @ [take FP_SIZE str]\<rparr>, fs))))"

text \<open>\<open>while (getline(fr, temp))\<close>\<close>

function getlines :: "string \<Rightarrow> string list" where
  "getlines s =
     (if s = [] then []
      else takeWhile (\<lambda>c. c \<noteq> NL) s # getlines (drop 1 (dropWhile (\<lambda>c. c \<noteq> NL) s)))"
  by pat_completeness auto
termination
proof (relation "measure length")
  fix s :: string assume "s \<noteq> []"
  then show "(drop 1 (dropWhile (\<lambda>c. c \<noteq> NL) s), s) \<in> measure length"
    using length_dropWhile_le [of "\<lambda>c. c \<noteq> NL" s] by (cases s) auto
qed simp

declare getlines.simps [simp del]

text \<open>Every line is read as six bytes.\<close>

fun parse_lines :: "string list \<Rightarrow> bytes list res" where
  "parse_lines [] = Ok []"
| "parse_lines (temp # ls) =
     res_bind (text_bytes temp [0 ..< FP_SIZE]) (\<lambda>data. res_bind (parse_lines ls) (\<lambda>ans. Ok (data # ans)))"

definition loadtonode :: "string \<Rightarrow> int \<Rightarrow> container_manager \<times> files \<Rightarrow> (bytes list \<times> bool) res" where
  "loadtonode path ID cf =
     (let (c, fs) = cf in
      case fs (path @ dec_int ID) of
        None \<Rightarrow> if ID = now_id c then Ok (ctmp c, True) else Ok ([], False)
      | Some contents \<Rightarrow> res_bind (parse_lines (getlines contents)) (\<lambda>ans. Ok (ans, True)))"

section \<open>Written containers are read back\<close>

lemma id_digits_dec: "n \<noteq> 0 \<Longrightarrow> rev (id_digits (int n)) = dec n"
proof (induction n rule: less_induct)
  case (less n)
  have d: "char_of (nat (int n smod 10 + 48)) = digit_char (n mod 10)"
    using less.prems by (simp add: digit_char_def signed_modulo_int_def signed_divide_int_def nat_add_distrib
      minus_div_mult_eq_mod nat_mod_distrib add.commute)
  have q: "int n sdiv 10 = int (n div 10)" using less.prems by (simp add: signed_divide_int_def zdiv_int)
  show ?case
  proof (cases "n < 10")
    case True
    then show ?thesis
      using less.prems d q by (simp add: id_digits.simps [of "int n"] id_digits.simps [of 0] dec.simps [of n])
  next
    case False
    then have "n div 10 \<noteq> 0" by (simp add: div_eq_0_iff)
    then show ?thesis using less d q False by (simp add: id_digits.simps [of "int n"] dec.simps [of n])
  qed
qed

lemma id_name_dec: "0 \<le> n \<Longrightarrow> id_name n = dec (nat n)"
proof -
  assume n: "0 \<le> n"
  have "digit_char 0 = CHR ''0''" by code_simp
  then show ?thesis
    using n id_digits_dec [of "nat n"] by (cases "n = 0") (simp_all add: id_name_def dec.simps [of 0])
qed

text \<open>Fingerprints that survive the detour over C strings: only the last byte may be NUL.\<close>

definition storable :: "bytes \<Rightarrow> bool" where
  "storable h \<longleftrightarrow> is_fp h \<and> 0 \<notin> set (take 5 h)"

lemma storable_nul_free: "is_fp h \<Longrightarrow> nul_free h \<Longrightarrow> storable h"
  by (auto simp: storable_def nul_free_def dest: in_set_takeD)

lemma temp_text_eq:
  "\<forall>k \<in> set ks. k \<le> length temp \<Longrightarrow>
    temp_text temp ks = Ok (bytes_text (map (\<lambda>k. if k < length temp then temp ! k else 0) ks) @ [NL])"
  by (induction temp ks rule: temp_text.induct) auto

lemma fp_line_eq:
  assumes "storable h"
  shows "fp_line h = Ok (bytes_text h @ [NL])"
proof -
  let ?t = "takeWhile (\<lambda>b. b \<noteq> 0) h"
  have "h = take 5 h @ [h ! 5]"
    using assms take_Suc_conv_app_nth [of 5 h] by (simp add: storable_def is_fp_def)
  moreover have "length (take 5 h) = 5" "0 \<notin> set (take 5 h)" using assms by (simp_all add: storable_def is_fp_def)
  ultimately obtain a l where h: "h = a @ [l]" "length a = 5" "0 \<notin> set a" by blast
  have t: "?t = (if l = 0 then a else a @ [l])" 
  proof -
    have "b \<noteq> 0" if "b \<in> set a" for b using h(3) that by auto
    then show ?thesis unfolding h(1) by (simp add: takeWhile_append2)
  qed
  have "\<forall>k \<in> set [0 ..< FP_SIZE]. k \<le> length ?t" using t h(2) by auto
  then have "fp_line h = Ok (bytes_text (map (\<lambda>k. if k < length ?t then ?t ! k else 0) [0 ..< FP_SIZE]) @ [NL])"
    unfolding fp_line_def by (rule temp_text_eq)
  moreover have "map (\<lambda>k. if k < length ?t then ?t ! k else 0) [0 ..< FP_SIZE] = h"
    by (rule nth_equalityI) (use t h(1,2) in \<open>auto simp: nth_append less_Suc_eq numeral_eq_Suc\<close>)
  ultimately show ?thesis by simp
qed

lemma fp_lines_eq:
  "list_all storable hs \<Longrightarrow> fp_lines hs = Ok (concat (map (\<lambda>h. bytes_text h @ [NL]) hs))"
  by (induction hs) (auto simp: fp_line_eq)

lemma NL_bytes_text: "NL \<notin> set (bytes_text h)"
  by (induction h) (auto simp: byte_text_def)

lemma getlines_line:
  assumes "NL \<notin> set l"
  shows "getlines (l @ NL # rest) = l # getlines rest"
proof -
  have "takeWhile (\<lambda>c. c \<noteq> NL) (l @ NL # rest) = l" "dropWhile (\<lambda>c. c \<noteq> NL) (l @ NL # rest) = NL # rest"
    using assms by (auto simp: takeWhile_append dropWhile_append)
  then show ?thesis by (subst getlines.simps) simp
qed

lemma parse_container:
  "list_all storable hs \<Longrightarrow> parse_lines (getlines (concat (map (\<lambda>h. bytes_text h @ [NL]) hs))) = Ok hs"
proof (induction hs)
  case Nil
  then show ?case by (simp add: getlines.simps)
next
  case (Cons h hs)
  have "length h = FP_SIZE" using Cons.prems by (simp add: storable_def is_fp_def)
  then have "text_bytes (bytes_text h) [0 ..< FP_SIZE] = Ok h" using text_bytes_round_trip [of h] by simp
  then show ?case using Cons by (simp add: getlines_line NL_bytes_text)
qed

lemma dec_inj: "dec m = dec n \<Longrightarrow> m = n"
  using digits_val_dec by metis

lemma dec_not_mainfest: "dec n \<noteq> ''MAINFEST''"
proof
  assume "dec n = ''MAINFEST''"
  then have "CHR ''M'' \<in> set (dec n)" by (simp only:) simp
  then show False by simp
qed

text \<open>
  C25. A container is read back as it was written. When the collected fingerprints have no NUL among
  their first five bytes, \<open>pocessw\<close> writes them under the current number, advances the number, and
  \<open>loadtonode\<close> of that number returns exactly them, in order.
\<close>

theorem container_round_trip:
  assumes "list_all storable (ctmp c)" "ctmp c \<noteq> []" "0 \<le> now_id c" "now_id c + 1 < 2 ^ 31"
  shows "\<exists>c' fs'. pocessw path (c, fs) = Ok ((c', fs'), True) \<and> now_id c' = now_id c + 1 \<and> ctmp c' = []
    \<and> loadtonode path (now_id c) (c', fs') = Ok (ctmp c, True)"
proof -
  have "path @ dec (nat (now_id c)) \<noteq> path @ ''MAINFEST''" using dec_not_mainfest by simp
  then show ?thesis
    using assms by (simp add: pocessw_def loadtonode_def int_add_def dec_int_def fp_lines_eq id_name_dec parse_container Let_def)
qed

theorem container_round_trip_witness:
  "\<exists>c' fs'. pocessw ''c/'' (\<lparr>now_id = 12, now_size = 5, ctmp = [[1, 2, 3, 4, 5, 0], [9, 8, 7, 6, 5, 4]]\<rparr>, \<lambda>_. None) = Ok ((c', fs'), True)
    \<and> loadtonode ''c/'' 12 (c', fs') = Ok ([[1, 2, 3, 4, 5, 0], [9, 8, 7, 6, 5, 4]], True)"
  using container_round_trip [of "\<lparr>now_id = 12, now_size = 5, ctmp = [[1, 2, 3, 4, 5, 0], [9, 8, 7, 6, 5, 4]]\<rparr>" "''c/''" "\<lambda>_. None"]
  by (auto simp: storable_def is_fp_def)

text \<open>
  C26. A fingerprint with a NUL among its first five bytes cannot be written: \<open>temp\<close> ends there and
  \<open>pocessw\<close> reads past its end.
\<close>

theorem container_nul_undefined:
  assumes "is_fp h" "0 \<in> set (take 5 h)" "ctmp c = h # hs" "now_id c + 1 < 2 ^ 31" "- (2 ^ 31) \<le> now_id c"
  shows "pocessw path (c, fs) = Err Undefined"
proof -
  let ?t = "takeWhile (\<lambda>b. b \<noteq> 0) h"
  have "length ?t < 5"
  proof (rule ccontr)
    assume "\<not> length ?t < 5"
    then have "take 5 (take (length ?t) h) = take 5 h" by (simp add: min_def)
    moreover have "take 5 ?t = take 5 (take (length ?t) h)"
      by (rule arg_cong [OF takeWhile_eq_take])
    ultimately have "take 5 h = take 5 ?t" by (rule trans [OF sym sym])
    then have "0 \<in> set ?t" using assms(2) by (metis in_set_takeD)
    then show False by (auto dest: set_takeWhileD)
  qed
  then have ex: "\<exists>k \<in> set [0 ..< FP_SIZE]. length ?t < k" by (intro bexI [of _ 5]) auto
  have "\<exists>k \<in> set ks. length temp < k \<Longrightarrow> temp_text temp ks = Err Undefined" for temp ks
  proof (induction ks)
    case (Cons a ks)
    then show ?case by (cases "\<exists>k \<in> set ks. length temp < k") auto
  qed simp
  from this [OF ex] have "fp_line h = Err Undefined" by (simp only: fp_line_def)
  then show ?thesis using assms(3-5) by (simp add: pocessw_def int_add_def Let_def)
qed

theorem container_nul_undefined_witness:
  "pocessw ''c/'' (\<lparr>now_id = 0, now_size = 5, ctmp = [[1, 0, 3, 4, 5, 6]]\<rparr>, \<lambda>_. None) = Err Undefined"
  by (rule container_nul_undefined [where h = "[1, 0, 3, 4, 5, 6]"]) (simp_all add: is_fp_def)

end
