(* ===== verification/LruCache.thy ===== *)
theory LruCache
  imports CLib BitText Container
begin

text \<open>
  \<open>prototype/lrucache.cc\<close>: the in-memory cache of fingerprints, a doubly linked list in order of use
  together with a chained hash table of pointers to the list nodes. List nodes are named by numbers;
  the list is the sequence of nodes from \<open>head\<close> to \<open>back\<close> (the \<open>next\<close> and \<open>front\<close> pointers), a chain of
  the table is the sequence of the node names its hash nodes point to. Following a pointer to a node
  that is not in the list any more is undefined.
\<close>

definition HASH_SIZE :: nat where "HASH_SIZE = 5000000"

record lrucache =
  max_cache_size :: int
  now_cache_size :: int
  lru_nodes :: "(nat \<times> bytes) list"
  hash_table :: "nat \<Rightarrow> nat list"
  lru_new :: nat     \<comment> \<open>name of the next node \<open>new\<close> returns\<close>

section \<open>Operations\<close>

definition lrucache_new :: "int \<Rightarrow> lrucache" where
  "lrucache_new sz = \<lparr>max_cache_size = sz, now_cache_size = 0, lru_nodes = [], hash_table = \<lambda>_. [], lru_new = 0\<rparr>"

text \<open>\<open>key = key * 5 + *(str + i)\<close> on \<open>unsigned long\<close>, the \<open>char\<close> sign-extended; then \<open>% HASH_SIZE\<close>.\<close>

definition str_hash :: "bytes \<Rightarrow> nat" where
  "str_hash str = unat (fold (\<lambda>c key. key * 5 + (scast c :: 64 word)) (take FP_SIZE str) 0) mod HASH_SIZE"

definition insert_hash :: "bytes \<Rightarrow> nat \<Rightarrow> lrucache \<Rightarrow> lrucache" where
  "insert_hash str p s =
     (let pos = str_hash str in s\<lparr>hash_table := (hash_table s)(pos := hash_table s pos @ [p])\<rparr>)"

text \<open>\<open>strncmp(q->list_pos->hash_key, str, FP_SIZE) == 0\<close>\<close>

definition key_matches :: "(nat \<times> bytes) list \<Rightarrow> bytes \<Rightarrow> nat \<Rightarrow> bool res" where
  "key_matches nodes str q =
     (case map_of nodes q of None \<Rightarrow> Err Undefined | Some k \<Rightarrow> Ok (strncmp_eq FP_SIZE k str))"

fun chain_find :: "(nat \<times> bytes) list \<Rightarrow> bytes \<Rightarrow> nat list \<Rightarrow> nat option res" where
  "chain_find nodes str [] = Ok None"
| "chain_find nodes str (q # qs) =
     res_bind (key_matches nodes str q) (\<lambda>m. if m then Ok (Some q) else chain_find nodes str qs)"

text \<open>The chain without its first matching hash node.\<close>

fun chain_delete :: "(nat \<times> bytes) list \<Rightarrow> bytes \<Rightarrow> nat list \<Rightarrow> nat list res" where
  "chain_delete nodes str [] = Ok []"
| "chain_delete nodes str (q # qs) =
     res_bind (key_matches nodes str q) (\<lambda>m.
       if m then Ok qs else res_bind (chain_delete nodes str qs) (\<lambda>qs'. Ok (q # qs')))"

definition delete_hash :: "bytes \<Rightarrow> lrucache \<Rightarrow> lrucache res" where
  "delete_hash str s =
     (let pos = str_hash str in
      res_bind (chain_delete (lru_nodes s) str (hash_table s pos)) (\<lambda>qs.
        Ok (s\<lparr>hash_table := (hash_table s)(pos := qs)\<rparr>)))"

text \<open>
  \<open>delete_node\<close>: the node is unlinked, its hash node deleted, and then the node itself is freed; while
  the chain is searched the node is still readable. \<open>None\<close> is the null pointer.
\<close>

definition delete_node :: "nat option \<Rightarrow> lrucache \<Rightarrow> (lrucache \<times> bool) res" where
  "delete_node p s =
     (let s = s\<lparr>now_cache_size := now_cache_size s - 1\<rparr> in
      case p of
        None \<Rightarrow> Ok (s, False)
      | Some t \<Rightarrow>
          (case map_of (lru_nodes s) t of
             None \<Rightarrow> Err Undefined
           | Some k \<Rightarrow> res_bind (delete_hash k s) (\<lambda>s.
               Ok (s\<lparr>lru_nodes := filter (\<lambda>n. fst n \<noteq> t) (lru_nodes s)\<rparr>, True))))"

definition lru_back :: "lrucache \<Rightarrow> nat option" where
  "lru_back s = (if lru_nodes s = [] then None else Some (fst (last (lru_nodes s))))"

definition add_node_to_head :: "bytes \<Rightarrow> lrucache \<Rightarrow> (lrucache \<times> bool) res" where
  "add_node_to_head str s =
     (let q = lru_new s;
          s = s\<lparr>lru_nodes := (q, take FP_SIZE str) # lru_nodes s, lru_new := q + 1\<rparr>;
          s = insert_hash str q s in
      if now_cache_size s < max_cache_size s then Ok (s\<lparr>now_cache_size := now_cache_size s + 1\<rparr>, True)
      else res_bind (delete_node (lru_back s) s) (\<lambda>(s, _).
        Ok (s\<lparr>now_cache_size := now_cache_size s + 1\<rparr>, True)))"

definition find_hash :: "bytes \<Rightarrow> lrucache \<Rightarrow> (lrucache \<times> bool) res" where
  "find_hash str s =
     res_bind (chain_find (lru_nodes s) str (hash_table s (str_hash str))) (\<lambda>r.
       case r of
         None \<Rightarrow> Ok (s, False)
       | Some p \<Rightarrow> res_bind (delete_node (Some p) s) (\<lambda>(s, _).
           res_bind (add_node_to_head str s) (\<lambda>(s, _). Ok (s, True))))"

definition lru_find :: "bytes \<Rightarrow> lrucache \<Rightarrow> (lrucache \<times> bool) res" where
  "lru_find str s = find_hash str s"

definition putdata :: "bytes \<Rightarrow> lrucache \<Rightarrow> (lrucache \<times> bool) res" where
  "putdata str s =
     res_bind (lru_find str s) (\<lambda>(s, found).
       if found then Ok (s, False) else add_node_to_head str s)"

definition set_max_size :: "int \<Rightarrow> lrucache \<Rightarrow> lrucache" where
  "set_max_size sz s = s\<lparr>max_cache_size := sz\<rparr>"

text \<open>The file \<open>./conf/LCPconf\<close>: one line per node, from the head.\<close>

definition output_conf :: "lrucache \<Rightarrow> string \<times> bool" where
  "output_conf s =
     (concat (map (\<lambda>(_, k). concat (map (\<lambda>i. byte_text (k ! i)) [0 ..< FP_SIZE]) @ [NL]) (lru_nodes s)),
      lru_nodes s \<noteq> [])"

definition lru_init_conf :: "string option \<Rightarrow> lrucache \<Rightarrow> (lrucache \<times> bool) res" where
  "lru_init_conf conf s =
     (case conf of
        None \<Rightarrow> Ok (s, False)
      | Some contents \<Rightarrow>
          res_bind (res_fold (\<lambda>temp s.
             res_bind (text_bytes temp [0 ..< FP_SIZE]) (\<lambda>data.
             res_bind (add_node_to_head data s) (\<lambda>(s, _). Ok s)))
           (getlines contents) s) (\<lambda>s. Ok (s, True)))"

text \<open>The destructor: every node is deleted from the head on; a failing deletion exits.\<close>

fun delete_nodes :: "nat list \<Rightarrow> lrucache \<Rightarrow> lrucache res" where
  "delete_nodes [] s = Ok s"
| "delete_nodes (p # ps) s =
     res_bind (delete_node (Some p) s) (\<lambda>(s, ok). if ok then delete_nodes ps s else Err (Exit 1))"

definition lrucache_delete :: "lrucache \<Rightarrow> lrucache res" where
  "lrucache_delete s =
     res_bind (delete_nodes (map fst (lru_nodes s)) s) (\<lambda>s.
       Ok (s\<lparr>max_cache_size := 0, now_cache_size := 0, lru_nodes := [], hash_table := \<lambda>_. []\<rparr>))"

section \<open>Invariant\<close>

text \<open>Two keys the cache does not tell apart.\<close>

definition same_key :: "bytes \<Rightarrow> bytes \<Rightarrow> bool" where
  "same_key a b \<longleftrightarrow> str_hash a = str_hash b \<and> strncmp_eq FP_SIZE a b"

definition lru_keys :: "lrucache \<Rightarrow> bytes list" where
  "lru_keys s = map snd (lru_nodes s)"

text \<open>
  \<open>table_ok\<close>: the chain of a bucket lists, each once, the nodes whose key hashes to it; \<open>keys_ok\<close>: no two
  nodes carry keys the cache does not tell apart.
\<close>

definition table_ok :: "(nat \<times> bytes) list \<Rightarrow> (nat \<Rightarrow> nat list) \<Rightarrow> bool" where
  "table_ok nodes tab \<longleftrightarrow>
     (\<forall>h. distinct (tab h) \<and> set (tab h) = {i. \<exists>k. (i, k) \<in> set nodes \<and> str_hash k = h})"

definition keys_ok :: "(nat \<times> bytes) list \<Rightarrow> bool" where
  "keys_ok nodes \<longleftrightarrow> distinct (map fst nodes) \<and> sorted_wrt (\<lambda>a b. \<not> same_key (snd a) (snd b)) nodes
     \<and> (\<forall>n \<in> set nodes. is_fp (snd n))"

definition lru_core :: "lrucache \<Rightarrow> bool" where
  "lru_core s \<longleftrightarrow> table_ok (lru_nodes s) (hash_table s) \<and> keys_ok (lru_nodes s)
     \<and> (\<forall>n \<in> set (lru_nodes s). fst n < lru_new s)"

definition lru_inv :: "lrucache \<Rightarrow> bool" where
  "lru_inv s \<longleftrightarrow> lru_core s \<and> now_cache_size s = int (length (lru_nodes s)) \<and> now_cache_size s \<le> max_cache_size s"

lemma same_key_refl [simp]: "same_key a a"
  by (simp add: same_key_def)

lemma same_key_sym: "same_key a b \<longleftrightarrow> same_key b a"
  unfolding same_key_def using strncmp_sym by metis

lemma same_key_trans: "same_key a b \<Longrightarrow> same_key b c \<Longrightarrow> same_key a c"
  unfolding same_key_def using strncmp_trans by metis

lemma same_key_nul_free: "is_fp a \<Longrightarrow> is_fp b \<Longrightarrow> nul_free a \<Longrightarrow> same_key a b \<longleftrightarrow> a = b"
  using strncmp_nul_free [of a FP_SIZE b] by (auto simp: same_key_def is_fp_def)

section \<open>Chains\<close>

lemma node_unique:
  assumes "keys_ok nodes" "(i, k) \<in> set nodes" "(j, l) \<in> set nodes"
  shows "map_of nodes i = Some k" "same_key k l \<Longrightarrow> i = j \<and> k = l" "i = j \<Longrightarrow> k = l"
proof -
  have d: "distinct (map fst nodes)" using assms(1) by (simp add: keys_ok_def)
  show 1: "map_of nodes i = Some k" using d assms(2) by simp
  have 2: "map_of nodes j = Some l" using d assms(3) by simp
  show "i = j \<Longrightarrow> k = l" using 1 2 by simp
  assume s: "same_key k l"
  obtain a b where ab: "a < length nodes" "nodes ! a = (i, k)" "b < length nodes" "nodes ! b = (j, l)"
    using assms(2,3) by (auto simp: in_set_conv_nth)
  have nl: "\<not> same_key (snd (nodes ! x)) (snd (nodes ! y))" if "x < y" "y < length nodes" for x y
    using assms(1) that by (simp add: keys_ok_def sorted_wrt_iff_nth_less)
  have "\<not> a < b" "\<not> b < a"
    using nl [of a b] nl [of b a] ab s same_key_sym [of k l] by auto
  then show "i = j \<and> k = l" using ab by simp
qed

lemma chain_nodes:
  assumes "table_ok nodes tab" "keys_ok nodes" "q \<in> set (tab h)"
  shows "\<exists>k. (q, k) \<in> set nodes \<and> str_hash k = h \<and> map_of nodes q = Some k"
  using assms node_unique(1) unfolding table_ok_def by blast

lemma chain_find_eq:
  "\<forall>q \<in> set qs. map_of nodes q \<noteq> None \<Longrightarrow>
    chain_find nodes str qs = Ok (List.find (\<lambda>q. strncmp_eq FP_SIZE (the (map_of nodes q)) str) qs)"
proof (induction qs)
  case (Cons q qs)
  then obtain k where "map_of nodes q = Some k" by auto
  then show ?case using Cons by (simp add: key_matches_def)
qed simp

lemma chain_delete_eq:
  assumes "\<forall>q \<in> set qs. \<exists>k. map_of nodes q = Some k \<and> (strncmp_eq FP_SIZE k str \<longleftrightarrow> q = t)" "distinct qs"
  shows "chain_delete nodes str qs = Ok (filter (\<lambda>q. q \<noteq> t) qs)"
  using assms
proof (induction qs)
  case (Cons q qs)
  obtain k where k: "map_of nodes q = Some k" "strncmp_eq FP_SIZE k str \<longleftrightarrow> q = t" using Cons.prems(1) by auto
  have IH: "chain_delete nodes str qs = Ok (filter (\<lambda>q. q \<noteq> t) qs)" using Cons by simp
  show ?case
  proof (cases "q = t")
    case True
    then have "filter (\<lambda>q. q \<noteq> t) qs = qs" using Cons.prems(2) by (auto simp: filter_id_conv)
    then show ?thesis using k True by (simp add: key_matches_def)
  next
    case False
    then show ?thesis using k IH by (simp add: key_matches_def)
  qed
qed simp

text \<open>A search in a bucket finds the node, if any, whose key is not told apart from the argument.\<close>

lemma find_in_bucket:
  assumes "table_ok nodes tab" "keys_ok nodes"
  shows "(\<forall>n \<in> set nodes. \<not> same_key (snd n) str) \<and> chain_find nodes str (tab (str_hash str)) = Ok None
    \<or> (\<exists>t k. (t, k) \<in> set nodes \<and> same_key k str \<and> chain_find nodes str (tab (str_hash str)) = Ok (Some t))"
proof -
  let ?qs = "tab (str_hash str)" and ?P = "\<lambda>q. strncmp_eq FP_SIZE (the (map_of nodes q)) str"
  note ch = chain_nodes [OF assms]
  have f: "chain_find nodes str ?qs = Ok (List.find ?P ?qs)"
    by (rule chain_find_eq) (use ch in fastforce)
  show ?thesis
  proof (cases "List.find ?P ?qs")
    case None
    have "\<not> same_key k str" if "(i, k) \<in> set nodes" for i k
    proof
      assume sk: "same_key k str"
      then have "i \<in> set ?qs" using assms(1) that by (auto simp: table_ok_def same_key_def)
      moreover have "?P i" using sk node_unique(1) [OF assms(2) that that] by (simp add: same_key_def)
      ultimately show False using None by (auto simp: find_None_iff)
    qed
    then show ?thesis using f None by auto
  next
    case (Some t)
    then have t: "t \<in> set ?qs" "?P t" by (auto simp: find_Some_iff)
    then obtain k where "(t, k) \<in> set nodes" "str_hash k = str_hash str" "map_of nodes t = Some k" using ch by blast
    then show ?thesis using t f Some by (auto simp: same_key_def)
  qed
qed

section \<open>Deleting and adding nodes\<close>

lemma keys_ok_filter: "keys_ok nodes \<Longrightarrow> keys_ok (filter P nodes)"
  by (auto simp: keys_ok_def distinct_map_filter sorted_wrt_filter)

lemma table_ok_delete:
  assumes "table_ok nodes tab" "keys_ok nodes" "(t, k) \<in> set nodes"
  shows "table_ok (filter (\<lambda>n. fst n \<noteq> t) nodes) (tab(str_hash k := filter (\<lambda>q. q \<noteq> t) (tab (str_hash k))))"
proof -
  have t: "l = k" if "(t, l) \<in> set nodes" for l
    using node_unique(3) [OF assms(2,3) that] by simp
  show ?thesis using assms(1) t unfolding table_ok_def by auto
qed

lemma delete_node_spec:
  assumes "lru_core s" "(t, k) \<in> set (lru_nodes s)"
  shows "\<exists>s'. delete_node (Some t) s = Ok (s', True) \<and> lru_core s'
    \<and> lru_nodes s' = filter (\<lambda>n. fst n \<noteq> t) (lru_nodes s) \<and> now_cache_size s' = now_cache_size s - 1
    \<and> max_cache_size s' = max_cache_size s"
proof -
  let ?nodes = "lru_nodes s" and ?tab = "hash_table s" and ?h = "str_hash k"
  have ok: "table_ok ?nodes ?tab" "keys_ok ?nodes" using assms(1) by (simp_all add: lru_core_def)
  have "\<exists>l. map_of ?nodes q = Some l \<and> (strncmp_eq FP_SIZE l k \<longleftrightarrow> q = t)" if q: "q \<in> set (?tab ?h)" for q
  proof -
    obtain l where l: "(q, l) \<in> set ?nodes" "str_hash l = ?h" "map_of ?nodes q = Some l"
      using chain_nodes [OF ok q] by blast
    have "strncmp_eq FP_SIZE l k \<longleftrightarrow> same_key l k" using l(2) by (simp add: same_key_def)
    also have "\<dots> \<longleftrightarrow> q = t"
      using node_unique(2,3) [OF ok(2) l(1) assms(2)] by auto
    finally show ?thesis using l(3) by auto
  qed
  then have "chain_delete ?nodes k (?tab ?h) = Ok (filter (\<lambda>q. q \<noteq> t) (?tab ?h))"
    using ok(1) by (intro chain_delete_eq) (auto simp: table_ok_def)
  then have "delete_node (Some t) s = Ok (s\<lparr>now_cache_size := now_cache_size s - 1,
      hash_table := ?tab(?h := filter (\<lambda>q. q \<noteq> t) (?tab ?h)), lru_nodes := filter (\<lambda>n. fst n \<noteq> t) ?nodes\<rparr>, True)"
    using node_unique(1) [OF ok(2) assms(2,2)] by (simp add: delete_node_def delete_hash_def Let_def)
  moreover have "\<forall>n \<in> set ?nodes. fst n < lru_new s" using assms(1) by (simp add: lru_core_def)
  ultimately show ?thesis
    using table_ok_delete [OF ok assms(2)] keys_ok_filter [OF ok(2)] by (simp add: lru_core_def)
qed

lemma lru_core_add:
  assumes "lru_core s" "\<forall>n \<in> set (lru_nodes s). \<not> same_key (snd n) str" "is_fp str"
  shows "lru_core (insert_hash str (lru_new s)
    (s\<lparr>lru_nodes := (lru_new s, str) # lru_nodes s, lru_new := lru_new s + 1\<rparr>))"
proof -
  have new: "(lru_new s, k) \<notin> set (lru_nodes s)" for k using assms(1) by (auto simp: lru_core_def)
  have "table_ok ((lru_new s, str) # lru_nodes s)
      ((hash_table s)(str_hash str := hash_table s (str_hash str) @ [lru_new s]))"
    using assms(1) new unfolding lru_core_def table_ok_def by (auto 0 3)
  moreover have "keys_ok ((lru_new s, str) # lru_nodes s)"
    using assms new same_key_sym by (auto simp: lru_core_def keys_ok_def)
  moreover have "\<forall>n \<in> set (lru_nodes s). fst n < lru_new s + 1" using assms(1) by (auto simp: lru_core_def)
  ultimately show ?thesis by (simp add: lru_core_def insert_hash_def Let_def)
qed

lemma filter_last:
  assumes "distinct (map fst xs)" "xs \<noteq> []"
  shows "filter (\<lambda>n. fst n \<noteq> fst (last xs)) xs = butlast xs"
proof -
  have x: "xs = butlast xs @ [last xs]" using assms(2) by simp
  then have "distinct (map fst (butlast xs) @ [fst (last xs)])" using assms(1) by (metis map_append list.simps(8,9))
  then have "fst (last xs) \<notin> fst ` set (butlast xs)" by simp
  then have "\<forall>n \<in> set (butlast xs). fst n \<noteq> fst (last xs)" by (metis image_eqI)
  then have "filter (\<lambda>n. fst n \<noteq> fst (last xs)) (butlast xs @ [last xs]) = butlast xs" by simp
  then show ?thesis using x by simp
qed

lemma add_node_spec:
  assumes inv: "lru_inv s" and "\<forall>n \<in> set (lru_nodes s). \<not> same_key (snd n) str" "is_fp str"
  shows "\<exists>s'. add_node_to_head str s = Ok (s', True) \<and> lru_inv s' \<and> max_cache_size s' = max_cache_size s
    \<and> lru_keys s' = take (nat (max_cache_size s)) (str # lru_keys s)"
proof -
  let ?s1 = "insert_hash str (lru_new s) (s\<lparr>lru_nodes := (lru_new s, str) # lru_nodes s, lru_new := lru_new s + 1\<rparr>)"
  have core: "lru_core ?s1" using lru_core_add assms by (simp add: lru_inv_def)
  have str: "take FP_SIZE str = str" using assms(3) by (simp add: is_fp_def)
  have f: "now_cache_size ?s1 = now_cache_size s" "max_cache_size ?s1 = max_cache_size s"
      "lru_nodes ?s1 = (lru_new s, str) # lru_nodes s"
    by (simp_all add: insert_hash_def Let_def)
  have n: "now_cache_size s = int (length (lru_nodes s))" "now_cache_size s \<le> max_cache_size s"
    using inv by (simp_all add: lru_inv_def)
  show ?thesis
  proof (cases "now_cache_size s < max_cache_size s")
    case True
    have "lru_inv (?s1\<lparr>now_cache_size := now_cache_size s + 1\<rparr>)"
      using core f n True by (simp add: lru_inv_def lru_core_def)
    then show ?thesis
      using True f n str by (simp add: add_node_to_head_def lru_keys_def Let_def)
  next
    case False
    let ?l = "last (lru_nodes ?s1)"
    have ne: "lru_nodes ?s1 \<noteq> []" using f(3) by simp
    then have l: "(fst ?l, snd ?l) \<in> set (lru_nodes ?s1)" by simp
    have "distinct (map fst (lru_nodes ?s1))" using core by (simp add: lru_core_def keys_ok_def)
    note fl = filter_last [OF this ne]
    obtain s' where s': "delete_node (lru_back ?s1) ?s1 = Ok (s', True)" "lru_core s'"
        "lru_nodes s' = butlast (lru_nodes ?s1)" "now_cache_size s' = now_cache_size s - 1"
        "max_cache_size s' = max_cache_size s"
      using delete_node_spec [OF core l] ne f fl by (auto simp: lru_back_def)
    have "lru_inv (s'\<lparr>now_cache_size := now_cache_size s\<rparr>)"
      using s' f(3) n by (simp add: lru_inv_def lru_core_def)
    moreover have "lru_keys s' = take (nat (max_cache_size s)) (str # lru_keys s)"
    proof -
      have "nat (max_cache_size s) = length (lru_nodes s)" using n False by simp
      moreover have "lru_keys s' = butlast (str # lru_keys s)" using s'(3) f(3) by (simp add: lru_keys_def map_butlast)
      ultimately show ?thesis by (simp only: butlast_conv_take) (simp add: lru_keys_def)
    qed
    ultimately show ?thesis
      using False f s' str by (simp add: add_node_to_head_def lru_keys_def Let_def)
  qed
qed

section \<open>Looking up and putting\<close>

lemma length_filter_fst:
  "distinct (map fst xs) \<Longrightarrow> (t, k) \<in> set xs \<Longrightarrow> length (filter (\<lambda>n. fst n \<noteq> t) xs) = length xs - 1"
proof (induction xs)
  case (Cons x xs)
  show ?case
  proof (cases "fst x = t")
    case True
    then have "t \<notin> fst ` set xs" using Cons.prems(1) by simp
    then have "filter (\<lambda>n. fst n \<noteq> t) xs = xs" by (intro filter_True) (metis image_eqI)
    then show ?thesis using True by simp
  next
    case False
    then have "(t, k) \<in> set xs" using Cons.prems(2) by auto
    then show ?thesis using Cons False by (cases xs) auto
  qed
qed simp

lemma keys_filter:
  assumes "keys_ok nodes" "(t, k) \<in> set nodes" "same_key k str"
  shows "filter (\<lambda>n. fst n \<noteq> t) nodes = filter (\<lambda>n. \<not> same_key (snd n) str) nodes"
proof (rule filter_cong)
  fix n assume n: "n \<in> set nodes"
  then have n': "(fst n, snd n) \<in> set nodes" by simp
  have "same_key (snd n) str \<longleftrightarrow> same_key (snd n) k"
    using assms(3) same_key_trans same_key_sym by metis
  also have "\<dots> \<longleftrightarrow> fst n = t"
    using node_unique(2,3) [OF assms(1) n' assms(2)] by auto
  finally show "fst n \<noteq> t \<longleftrightarrow> \<not> same_key (snd n) str" by simp
qed simp

text \<open>The abstract cache: a list of keys, the most recently used first.\<close>

definition spec_find :: "bytes \<Rightarrow> bytes list \<Rightarrow> bytes list \<times> bool" where
  "spec_find k ks =
     (if \<exists>l \<in> set ks. same_key l k then (k # filter (\<lambda>l. \<not> same_key l k) ks, True) else (ks, False))"

definition spec_put :: "nat \<Rightarrow> bytes \<Rightarrow> bytes list \<Rightarrow> bytes list \<times> bool" where
  "spec_put n k ks =
     (case spec_find k ks of (ks', found) \<Rightarrow> if found then (ks', False) else (take n (k # ks), True))"

lemma lru_find_spec:
  assumes inv: "lru_inv s" and str: "is_fp str"
  shows "\<exists>s' b. lru_find str s = Ok (s', b) \<and> lru_inv s' \<and> max_cache_size s' = max_cache_size s
    \<and> (lru_keys s', b) = spec_find str (lru_keys s) \<and> (\<not> b \<longrightarrow> s' = s)"
proof -
  let ?nodes = "lru_nodes s"
  have core: "lru_core s" and ok: "table_ok ?nodes (hash_table s)" "keys_ok ?nodes"
    using inv by (simp_all add: lru_inv_def lru_core_def)
  consider (miss) "\<forall>n \<in> set ?nodes. \<not> same_key (snd n) str" "chain_find ?nodes str (hash_table s (str_hash str)) = Ok None"
    | (hit) t k where "(t, k) \<in> set ?nodes" "same_key k str" "chain_find ?nodes str (hash_table s (str_hash str)) = Ok (Some t)"
    using find_in_bucket [OF ok, of str] by blast
  then show ?thesis
  proof cases
    case miss
    then show ?thesis using inv by (auto simp: lru_find_def find_hash_def spec_find_def lru_keys_def)
  next
    case hit
    obtain s1 where s1: "delete_node (Some t) s = Ok (s1, True)" "lru_core s1"
        "lru_nodes s1 = filter (\<lambda>n. fst n \<noteq> t) ?nodes" "now_cache_size s1 = now_cache_size s - 1"
        "max_cache_size s1 = max_cache_size s"
      using delete_node_spec [OF core hit(1)] by blast
    have n1: "lru_nodes s1 = filter (\<lambda>n. \<not> same_key (snd n) str) ?nodes"
      using s1(3) keys_filter [OF ok(2) hit(1,2)] by simp
    have "length (filter (\<lambda>n. fst n \<noteq> t) ?nodes) = length ?nodes - 1" "?nodes \<noteq> []"
      using hit(1) ok(2) by (auto simp: keys_ok_def length_filter_fst)
    then have len: "int (length (lru_nodes s1)) = now_cache_size s1" "now_cache_size s1 < max_cache_size s1"
      using s1(3-5) inv by (cases ?nodes; auto simp: lru_inv_def)+
    then have "lru_inv s1" using s1(2) by (simp add: lru_inv_def)
    moreover have "\<forall>n \<in> set (lru_nodes s1). \<not> same_key (snd n) str" using n1 by simp
    ultimately obtain s2 where s2: "add_node_to_head str s1 = Ok (s2, True)" "lru_inv s2"
        "max_cache_size s2 = max_cache_size s1" "lru_keys s2 = take (nat (max_cache_size s1)) (str # lru_keys s1)"
      using add_node_spec [OF _ _ str] by blast
    have "length (lru_keys s1) < nat (max_cache_size s1)" using len by (simp add: lru_keys_def)
    then have "lru_keys s2 = str # lru_keys s1" using s2(4) by (simp add: take_all_iff)
    also have "\<dots> = str # filter (\<lambda>l. \<not> same_key l str) (lru_keys s)"
      by (simp add: lru_keys_def n1 filter_map comp_def)
    finally have "(lru_keys s2, True) = spec_find str (lru_keys s)"
      using hit(1,2) by (force simp: spec_find_def lru_keys_def)
    then show ?thesis
      using hit(3) s1(1,5) s2 by (auto simp: lru_find_def find_hash_def)
  qed
qed

lemma putdata_spec:
  assumes inv: "lru_inv s" and str: "is_fp str"
  shows "\<exists>s' b. putdata str s = Ok (s', b) \<and> lru_inv s' \<and> max_cache_size s' = max_cache_size s
    \<and> (lru_keys s', b) = spec_put (nat (max_cache_size s)) str (lru_keys s)"
proof -
  obtain s1 b where s1: "lru_find str s = Ok (s1, b)" "lru_inv s1" "max_cache_size s1 = max_cache_size s"
      "(lru_keys s1, b) = spec_find str (lru_keys s)" "\<not> b \<longrightarrow> s1 = s"
    using lru_find_spec [OF assms] by (elim exE conjE) (rule that)
  show ?thesis
  proof (cases b)
    case True
    have "putdata str s = Ok (s1, False)" using s1(1) True by (simp add: putdata_def)
    moreover have "spec_put (nat (max_cache_size s)) str (lru_keys s) = (lru_keys s1, False)"
      using s1(4) [symmetric] True by (simp add: spec_put_def)
    ultimately show ?thesis using s1(2,3) by auto
  next
    case False
    then have eq: "s1 = s" using s1(5) by simp
    have nk: "\<forall>n \<in> set (lru_nodes s). \<not> same_key (snd n) str"
      using s1(4) False by (auto simp: spec_find_def lru_keys_def split: if_splits)
    obtain s2 where s2: "add_node_to_head str s = Ok (s2, True)" "lru_inv s2" "max_cache_size s2 = max_cache_size s"
        "lru_keys s2 = take (nat (max_cache_size s)) (str # lru_keys s)"
      using add_node_spec [OF inv nk str] by (elim exE conjE) (rule that)
    have "putdata str s = Ok (s2, True)" using s1(1) False eq s2(1) by (simp add: putdata_def)
    moreover have "spec_put (nat (max_cache_size s)) str (lru_keys s) = (lru_keys s2, True)"
      using s1(4) [symmetric] False eq s2(4) by (simp add: spec_put_def)
    ultimately show ?thesis using s2(2,3) by auto
  qed
qed

lemma lru_new_inv: "0 \<le> n \<Longrightarrow> lru_inv (lrucache_new n) \<and> lru_keys (lrucache_new n) = []"
  by (simp add: lru_inv_def lru_core_def lrucache_new_def table_ok_def keys_ok_def lru_keys_def)



text \<open>
  C27. Keys are compared as C strings: two different fingerprints with the same bytes up to a NUL that
  fall into one bucket are taken for each other, so the cache reports a fingerprint that was never
  put into it.
\<close>

theorem lru_confuses:
  assumes "lru_inv s" "a \<in> set (lru_keys s)" "is_fp b" "str_hash a = str_hash b" "strncmp_eq FP_SIZE a b"
  shows "\<exists>s'. lru_find b s = Ok (s', True)"
proof -
  obtain s' r where "lru_find b s = Ok (s', r)" "(lru_keys s', r) = spec_find b (lru_keys s)"
    using lru_find_spec [OF assms(1,3)] by blast
  then show ?thesis using assms(2,4,5) by (auto simp: spec_find_def same_key_def split: if_splits)
qed

lemma sample_lru:
  "\<exists>s. putdata [0, 0, 0, 0, 1, 0] (lrucache_new 2) = Ok (s, True) \<and> lru_inv s \<and> lru_keys s = [[0, 0, 0, 0, 1, 0]]"
  using putdata_spec [of "lrucache_new 2" "[0, 0, 0, 0, 1, 0]"] lru_new_inv [of 2]
  by (auto simp: is_fp_def spec_put_def spec_find_def lrucache_new_def)

theorem lru_confuses_witness:
  "\<exists>s s'. putdata [0, 0, 0, 0, 1, 0] (lrucache_new 2) = Ok (s, True) \<and> lru_find [0, 0, 0, 0, 0, 5] s = Ok (s', True)"
proof -
  obtain s where s: "putdata [0, 0, 0, 0, 1, 0] (lrucache_new 2) = Ok (s, True)" "lru_inv s"
      "lru_keys s = [[0, 0, 0, 0, 1, 0]]"
    using sample_lru by blast
  have "str_hash [0, 0, 0, 0, 1, 0] = str_hash [0, 0, 0, 0, 0, 5]" by (simp add: str_hash_def)
  moreover have "strncmp_eq FP_SIZE [0, 0, 0, 0, 1, 0] [0, 0, 0, 0, 0, 5]" by (simp add: numeral_eq_Suc)
  ultimately have "\<exists>s'. lru_find [0, 0, 0, 0, 0, 5] s = Ok (s', True)"
    using s by (intro lru_confuses [OF s(2)]) (simp_all add: is_fp_def)
  then show ?thesis using s(1) by blast
qed

section \<open>The saved cache\<close>

lemma output_conf_eq:
  assumes "\<forall>k \<in> set (lru_keys s). is_fp k"
  shows "fst (output_conf s) = concat (map (\<lambda>k. bytes_text k @ [NL]) (lru_keys s))"
proof -
  have "concat (map (\<lambda>i. byte_text (k ! i)) [0 ..< FP_SIZE]) = bytes_text k" if "(a, k) \<in> set (lru_nodes s)" for a k
  proof -
    have "is_fp k" using assms that by (force simp: lru_keys_def)
    then have "map ((!) k) [0 ..< FP_SIZE] = k" using map_nth [of k] by (simp add: is_fp_def)
    then have "map byte_text (map ((!) k) [0 ..< FP_SIZE]) = map byte_text k" by (rule arg_cong)
    then show ?thesis by (simp only: bytes_text_def map_map comp_def)
  qed
  then show ?thesis
    unfolding output_conf_def lru_keys_def by (auto intro!: arg_cong [where f = concat])
qed

text \<open>Adding the keys of a list, none of which the cache or the rest of the list matches.\<close>

lemma init_fold:
  assumes "lru_inv s" "\<forall>k \<in> set ks. is_fp k" "sorted_wrt (\<lambda>a b. \<not> same_key a b) (lru_keys s @ ks)"
    "int (length (lru_keys s) + length ks) \<le> max_cache_size s"
  shows "\<exists>s'. lru_init_conf (Some (concat (map (\<lambda>k. bytes_text k @ [NL]) ks))) s = Ok (s', True)
    \<and> lru_inv s' \<and> max_cache_size s' = max_cache_size s \<and> lru_keys s' = rev ks @ lru_keys s"
  using assms
proof (induction ks arbitrary: s)
  case Nil
  then show ?case by (simp add: lru_init_conf_def getlines.simps [of "[]"])
next
  case (Cons k ks)
  have k: "is_fp k" "\<forall>n \<in> set (lru_nodes s). \<not> same_key (snd n) k"
    using Cons.prems(2,3) by (auto simp: sorted_wrt_append lru_keys_def)
  obtain s1 where s1: "add_node_to_head k s = Ok (s1, True)" "lru_inv s1" "max_cache_size s1 = max_cache_size s"
      "lru_keys s1 = take (nat (max_cache_size s)) (k # lru_keys s)"
    using add_node_spec [OF Cons.prems(1) k(2,1)] by (elim exE conjE) (rule that)
  have keys: "lru_keys s1 = k # lru_keys s" using s1(4) Cons.prems(4) by simp
  have "sorted_wrt (\<lambda>a b. \<not> same_key a b) (lru_keys s1 @ ks)"
    using Cons.prems(3) k(2) keys same_key_sym by (auto simp: sorted_wrt_append lru_keys_def)
  then obtain s2 where s2: "lru_init_conf (Some (concat (map (\<lambda>k. bytes_text k @ [NL]) ks))) s1 = Ok (s2, True)"
      "lru_inv s2" "max_cache_size s2 = max_cache_size s1" "lru_keys s2 = rev ks @ lru_keys s1"
    using Cons.IH [OF s1(2)] Cons.prems(2,4) s1(3) keys by auto
  have t: "text_bytes (bytes_text k) [0 ..< FP_SIZE] = Ok k"
    using text_bytes_round_trip [of k] k(1) by (simp add: is_fp_def)
  have "lru_init_conf (Some (concat (map (\<lambda>k. bytes_text k @ [NL]) (k # ks)))) s
      = lru_init_conf (Some (concat (map (\<lambda>k. bytes_text k @ [NL]) ks))) s1"
    using t s1(1) by (simp add: lru_init_conf_def getlines_line NL_bytes_text)
  then show ?case using s2 s1(3) keys by simp
qed

lemma lru_keys_apart:
  assumes "lru_inv s"
  shows "sorted_wrt (\<lambda>a b. \<not> same_key a b) (lru_keys s)" "\<forall>k \<in> set (lru_keys s). is_fp k"
    "int (length (lru_keys s)) \<le> max_cache_size s"
  using assms by (auto simp: lru_inv_def lru_core_def keys_ok_def lru_keys_def sorted_wrt_map)

lemma lru_conf_read:
  assumes "lru_inv s"
  shows "\<exists>s'. lru_init_conf (Some (fst (output_conf s))) (lrucache_new (max_cache_size s)) = Ok (s', True)
    \<and> lru_inv s' \<and> max_cache_size s' = max_cache_size s \<and> lru_keys s' = rev (lru_keys s)"
proof -
  note k = lru_keys_apart [OF assms]
  have m: "0 \<le> max_cache_size s" using k(3) by linarith
  have "lru_keys (lrucache_new (max_cache_size s)) = []" "max_cache_size (lrucache_new (max_cache_size s)) = max_cache_size s"
    using lru_new_inv [OF m] by (simp_all add: lrucache_new_def)
  then show ?thesis
    using init_fold [of "lrucache_new (max_cache_size s)" "lru_keys s"] lru_new_inv [OF m] k
    by (auto simp: output_conf_eq [OF k(2)])
qed

text \<open>
  C28. A cache written with \<open>output_conf\<close> and read with \<open>init_conf\<close> into an empty cache of the same size
  holds the same keys, but in reverse order of use: the key that was used last is the first one
  to be evicted after a restart.
\<close>

theorem lru_conf_reverses:
  assumes "lru_inv s"
  shows "\<exists>s'. lru_init_conf (Some (fst (output_conf s))) (lrucache_new (max_cache_size s)) = Ok (s', True)
    \<and> lru_inv s' \<and> lru_keys s' = rev (lru_keys s)"
  using lru_conf_read [OF assms] by blast

theorem lru_conf_reverses_witness:
  "\<exists>s s'. putdata [0, 0, 0, 0, 1, 0] (lrucache_new 2) = Ok (s, True)
    \<and> lru_init_conf (Some (fst (output_conf s))) (lrucache_new (max_cache_size s)) = Ok (s', True)
    \<and> lru_keys s' = [[0, 0, 0, 0, 1, 0]]"
  using sample_lru lru_conf_reverses by fastforce

section \<open>The contract of a cache\<close>

text \<open>
  What a client may rely on: a lookup tells exactly whether the key is there and keeps the contents;
  putting a key adds at most that key.
\<close>

locale key_cache =
  fixes find :: "'k \<Rightarrow> 's \<Rightarrow> ('s \<times> bool) res"
    and put :: "'k \<Rightarrow> 's \<Rightarrow> ('s \<times> bool) res"
    and contents :: "'s \<Rightarrow> 'k set"
    and invar :: "'s \<Rightarrow> bool"
    and valid :: "'k \<Rightarrow> bool"
  assumes find_ok: "invar s \<Longrightarrow> valid k \<Longrightarrow> \<exists>s'. find k s = Ok (s', k \<in> contents s) \<and> invar s' \<and> contents s' = contents s"
    and put_ok: "invar s \<Longrightarrow> valid k \<Longrightarrow> \<exists>s' b. put k s = Ok (s', b) \<and> invar s' \<and> contents s' \<subseteq> insert k (contents s)"
begin

lemma put_list:
  "invar s \<Longrightarrow> list_all valid ks \<Longrightarrow>
    \<exists>s'. res_fold (\<lambda>k s. res_bind (put k s) (\<lambda>(s, _). Ok s)) ks s = Ok s' \<and> invar s' \<and> contents s' \<subseteq> contents s \<union> set ks"
proof (induction ks arbitrary: s)
  case (Cons k ks)
  obtain s1 b where s1: "put k s = Ok (s1, b)" "invar s1" "contents s1 \<subseteq> insert k (contents s)"
    using put_ok Cons.prems by fastforce
  obtain s2 where s2: "res_fold (\<lambda>k s. res_bind (put k s) (\<lambda>(s, _). Ok s)) ks s1 = Ok s2" "invar s2"
      "contents s2 \<subseteq> contents s1 \<union> set ks"
    using Cons.IH s1(2) Cons.prems(2) by fastforce
  have "contents s2 \<subseteq> contents s \<union> set (k # ks)" using s1(3) s2(3) by auto
  then show ?case using s1(1) s2 by simp
qed simp

end

definition lru_ok :: "int \<Rightarrow> lrucache \<Rightarrow> bool" where
  "lru_ok n s \<longleftrightarrow> lru_inv s \<and> max_cache_size s = n \<and> (\<forall>k \<in> set (lru_keys s). nul_free k)"

definition clean_fp :: "bytes \<Rightarrow> bool" where
  "clean_fp k \<longleftrightarrow> is_fp k \<and> nul_free k"

lemma clean_same_key: "clean_fp a \<Longrightarrow> is_fp b \<Longrightarrow> same_key a b \<longleftrightarrow> a = b"
  using same_key_nul_free by (auto simp: clean_fp_def)

lemma lru_ok_clean: "lru_ok n s \<Longrightarrow> k \<in> set (lru_keys s) \<Longrightarrow> clean_fp k"
  using lru_keys_apart(2) by (auto simp: lru_ok_def clean_fp_def)

lemma spec_find_clean:
  assumes "\<forall>l \<in> set ks. clean_fp l" "clean_fp k"
  shows "spec_find k ks = (if k \<in> set ks then (k # filter (\<lambda>l. l \<noteq> k) ks, True) else (ks, False))"
proof -
  have e: "same_key l k \<longleftrightarrow> l = k" if "l \<in> set ks" for l
    using clean_same_key assms that by (simp add: clean_fp_def)
  then have "filter (\<lambda>l. \<not> same_key l k) ks = filter (\<lambda>l. l \<noteq> k) ks" by (auto intro: filter_cong)
  moreover have "(\<exists>l \<in> set ks. same_key l k) \<longleftrightarrow> k \<in> set ks" using e by auto
  ultimately show ?thesis by (simp add: spec_find_def)
qed

interpretation lc: key_cache lru_find putdata "\<lambda>s. set (lru_keys s)" "lru_ok n" clean_fp for n
proof
  fix s k
  assume s: "lru_ok n s" and k: "clean_fp k"
  then have inv: "lru_inv s" "is_fp k" by (simp_all add: lru_ok_def clean_fp_def)
  have sf: "spec_find k (lru_keys s)
      = (if k \<in> set (lru_keys s) then (k # filter (\<lambda>l. l \<noteq> k) (lru_keys s), True) else (lru_keys s, False))"
    using spec_find_clean lru_ok_clean s k by simp
  obtain s' b where f: "lru_find k s = Ok (s', b)" "lru_inv s'" "(lru_keys s', b) = spec_find k (lru_keys s)"
      "max_cache_size s' = max_cache_size s"
    using lru_find_spec [OF inv] by (elim exE conjE) (rule that)
  have "b = (k \<in> set (lru_keys s))" "set (lru_keys s') = set (lru_keys s)"
    using f(3) sf by (auto split: if_splits)
  then show "\<exists>s'. lru_find k s = Ok (s', k \<in> set (lru_keys s)) \<and> lru_ok n s' \<and> set (lru_keys s') = set (lru_keys s)"
    using f s by (auto simp: lru_ok_def)
  obtain s' b where f: "putdata k s = Ok (s', b)" "lru_inv s'"
      "(lru_keys s', b) = spec_put (nat (max_cache_size s)) k (lru_keys s)" "max_cache_size s' = max_cache_size s"
    using putdata_spec [OF inv] by (elim exE conjE) (rule that)
  have "set (lru_keys s') \<subseteq> insert k (set (lru_keys s))"
    using f(3) sf by (auto simp: spec_put_def split: if_splits dest: in_set_takeD)
  then show "\<exists>s' b. putdata k s = Ok (s', b) \<and> lru_ok n s' \<and> set (lru_keys s') \<subseteq> insert k (set (lru_keys s))"
    using f s k by (auto simp: lru_ok_def clean_fp_def)
qed

end
