(* ===== verification/FpIndex.thy ===== *)
theory FpIndex
  imports KV
begin

text \<open>
  \<open>prototype/fp_index.cc\<close>: the on-disk fingerprint index, a database that maps a fingerprint to the
  number of the container that holds it (an \<open>int\<close> in memory order).
\<close>

definition fpi_insert :: "bytes \<Rightarrow> 32 word \<Rightarrow> kvdb \<Rightarrow> kvdb \<times> int" where
  "fpi_insert str ID db =
     (let (st, existing_value) = db_get db str [] in
      if is_ok st then (db, - 1)
      else let (st, db') = db_put db str (le_bytes 4 ID) in
        if is_ok st then (db', 1) else (db', 0))"

text \<open>\<open>* (int *)(existing_value.c_str())\<close>: four bytes of the value and its terminating NUL.\<close>

definition fpi_find :: "bytes \<Rightarrow> kvdb \<Rightarrow> int res" where
  "fpi_find str db =
     (let (st, existing_value) = db_get db str [] in
      if \<not> is_ok st then Ok (- 1)
      else if length existing_value < 3 then Err Undefined
      else Ok (sint (le_word (take 4 (existing_value @ [0])) :: 32 word)))"

text \<open>What the index holds, on a store without errors.\<close>

definition index_wf :: "kvdb \<Rightarrow> bool" where
  "index_wf db \<longleftrightarrow> reliable db \<and> db_wf db \<and> (\<forall>k v. db_lookup db k = Some v \<longrightarrow> length v = 4)"

definition index_of :: "kvdb \<Rightarrow> bytes \<Rightarrow> int option" where
  "index_of db k = map_option (\<lambda>v. sint (le_word (take 4 v) :: 32 word)) (db_lookup db k)"

lemma index_wf_empty [simp]: "index_wf db_empty" "index_of db_empty = Map.empty"
  by (auto simp: index_wf_def index_of_def)

lemma sint_small: "n < 2 ^ 31 \<Longrightarrow> sint (word_of_nat n :: 32 word) = int n"
proof -
  assume n: "n < 2 ^ 31"
  have "sint (word_of_nat n :: 32 word) = signed_take_bit 31 (int n)"
    by (simp add: signed_of_nat)
  also have "\<dots> = int n" by (rule signed_take_bit_int_eq_self) (use n in simp_all)
  finally show ?thesis .
qed

lemma fpi_find_eq:
  "index_wf db \<Longrightarrow> fpi_find str db = Ok (case index_of db str of None \<Rightarrow> - 1 | Some i \<Rightarrow> i)"
  by (cases "db_lookup db str") (auto simp: fpi_find_def index_wf_def index_of_def db_get_reliable is_ok_def)

lemma fpi_insert_eq:
  assumes "index_wf db"
  shows "if index_of db str = None
    then \<exists>db'. fpi_insert str ID db = (db', 1) \<and> index_wf db' \<and> index_of db' = (index_of db)(str \<mapsto> sint ID)
    else fpi_insert str ID db = (db, - 1)"
proof (cases "db_lookup db str")
  case None
  let ?db = "snd (db_put db str (le_bytes 4 ID))"
  have "fpi_insert str ID db = (?db, 1)"
    using assms None by (simp add: fpi_insert_def index_wf_def db_get_reliable db_put_reliable is_ok_def)
  moreover have "index_wf ?db" "index_of ?db = (index_of db)(str \<mapsto> sint ID)"
    using assms by (auto simp: index_wf_def index_of_def fun_eq_iff)
  ultimately show ?thesis using None by (simp add: index_of_def)
next
  case (Some v)
  then show ?thesis
    using assms by (simp add: fpi_insert_def index_wf_def index_of_def db_get_reliable is_ok_def)
qed

text \<open>
  The index behaves as a write-once map: looking up a fingerprint after inserting it with a
  container number below \<open>2^31\<close> returns that number when it was new, and the number it had before
  otherwise; the return values 1 and -1 tell the two cases apart, and other fingerprints keep theirs.
\<close>

lemma fp_index_write_once:
  assumes "index_wf db" "n < 2 ^ 31"
  shows "\<exists>db' r. fpi_insert str (word_of_nat n) db = (db', r) \<and> index_wf db'
    \<and> (r = 1 \<and> fpi_find str db = Ok (- 1) \<and> fpi_find str db' = Ok (int n)
        \<or> r = - 1 \<and> db' = db \<and> db_lookup db str \<noteq> None)
    \<and> (\<forall>k. k \<noteq> str \<longrightarrow> fpi_find k db' = fpi_find k db)"
proof (cases "index_of db str = None")
  case True
  then obtain db' where db': "fpi_insert str (word_of_nat n) db = (db', 1)" "index_wf db'"
      "index_of db' = (index_of db)(str \<mapsto> sint (word_of_nat n :: 32 word))"
    using fpi_insert_eq [OF assms(1), of str "word_of_nat n"] by auto
  then show ?thesis
    using True assms by (intro exI [of _ db'] exI [of _ 1]) (simp add: fpi_find_eq sint_small)
next
  case False
  then have "fpi_insert str (word_of_nat n) db = (db, - 1)"
    using fpi_insert_eq [OF assms(1), of str "word_of_nat n"] by simp
  then show ?thesis using False assms(1) by (auto simp: index_of_def)
qed

lemma fp_index_write_once_witness:
  "\<exists>db' r. fpi_insert [1, 2, 3, 4, 5, 6] (word_of_nat 7) db_empty = (db', r) \<and> index_wf db'"
  using fp_index_write_once [of db_empty 7 "[1, 2, 3, 4, 5, 6]"] by auto

end
