(* ===== verification/Ddfs.thy ===== *)
theory Ddfs
  imports Bloom LruCache FpIndex Segment
begin

text \<open>
  \<open>prototype/ddfs.cc\<close>: the deduplication prototype. A chunk is looked up in the cache, then in the
  Bloom filter, then in the index; a chunk found in the index brings the fingerprints of its whole
  container into the cache, an unknown chunk is appended to the current container and indexed. Cache,
  filter, containers and index survive in files, so that a later run goes on where the last one
  ended.
\<close>

definition BLOOM_lenth :: int where "BLOOM_lenth = 65000000"
definition LRU_SIZE :: int where "LRU_SIZE = 838608"

record ddfs =
  BLM :: bloom
  LPC :: lrucache
  CMR :: container_manager
  dd_files :: files
  FPI :: kvdb
  index_access :: "64 word"
  loading_access :: "64 word"
  update_access :: "64 word"
  dd_out :: string

definition bloom_path :: string where "bloom_path = ''./conf/bloomConf''"
definition lru_path :: string where "lru_path = ''./conf/LCPconf''"

section \<open>Operations\<close>

text \<open>
  \<open>sys_ini\<close>. The number of bits and of hash functions that \<open>bloom_init\<close> computes in floating point,
  and the success of its allocation, are parameters; \<open>db\<close> is the index database as opened.
\<close>

definition sys_ini :: "(int \<Rightarrow> bool) \<Rightarrow> int \<Rightarrow> int \<Rightarrow> string \<Rightarrow> files \<Rightarrow> kvdb \<Rightarrow> ddfs res" where
  "sys_ini alloc bits hashes path1 fs db =
     (let bl = fst (bloom_init alloc bits hashes BLOOM_lenth False
            \<lparr>bl_entries = 0, bl_bits = 0, bl_bytes = 0, bl_hashes = 0, bf = [], bl_ready = False\<rparr>) in
      res_bind (bloom_init_conf (fs bloom_path) bl) (\<lambda>(bl, _).
      res_bind (cm_init path1 fs) (\<lambda>(c, fs, _).
      res_bind (lru_init_conf (fs lru_path) (lrucache_new LRU_SIZE)) (\<lambda>(l, _).
        Ok \<lparr>BLM = bl, LPC = l, CMR = c, dd_files = fs, FPI = db,
            index_access = 0, loading_access = 0, update_access = 0, dd_out = []\<rparr>))))"

definition punique :: "string \<Rightarrow> bytes \<Rightarrow> int \<Rightarrow> ddfs \<Rightarrow> ddfs res" where
  "punique container_path key chunk_size s =
     res_bind (bloom_add (BLM s) key) (\<lambda>(bl, _).
     res_bind (cm_insert key chunk_size container_path (CMR s, dd_files s)) (\<lambda>(c, fs).
       let (db, r) = fpi_insert key (word_of_int (now_id c)) (FPI s) in
       Ok (s\<lparr>BLM := bl, CMR := c, dd_files := fs, FPI := db,
             dd_out := (if r = 0 then dd_out s @ ''error'' @ [NL] else dd_out s),
             update_access := update_access s + 1\<rparr>)))"

text \<open>The duplicate found in the index: its container is loaded and put into the cache.\<close>

definition load_container :: "string \<Rightarrow> int \<Rightarrow> ddfs \<Rightarrow> ddfs res" where
  "load_container container_path FPID s =
     res_bind (loadtonode container_path FPID (CMR s, dd_files s)) (\<lambda>(conti, flag).
       if \<not> flag then Err (Exit 1)
       else res_bind (res_fold (\<lambda>k l. res_bind (putdata k l) (\<lambda>(l, _). Ok l)) conti (LPC s)) (\<lambda>l.
         Ok (s\<lparr>LPC := l, loading_access := loading_access s + word_of_nat (length conti)\<rparr>)))"

definition ddfs_chunk :: "string \<Rightarrow> bytes \<Rightarrow> int \<Rightarrow> ddfs \<Rightarrow> ddfs res" where
  "ddfs_chunk container_path hash chunk_size s =
     res_bind (lru_find hash (LPC s)) (\<lambda>(l, found).
       let s = s\<lparr>LPC := l\<rparr> in
       if found then Ok s
       else res_bind (bloom_check (BLM s) hash) (\<lambda>(bl, r).
         let s = s\<lparr>BLM := bl\<rparr> in
         if r = 0 then punique container_path hash chunk_size s
         else res_bind (fpi_find hash (FPI s)) (\<lambda>FPID.
           let s = s\<lparr>index_access := index_access s + 1\<rparr> in
           if FPID = - 1 then punique container_path hash chunk_size s
           else load_container container_path FPID s)))"

definition ddfs_read_hashes :: "string \<Rightarrow> string \<Rightarrow> ddfs \<Rightarrow> ddfs res" where
  "ddfs_read_hashes container_path fp s =
     res_bind (res_fold (\<lambda>read_buffer s.
         if is_title read_buffer then Ok s
         else let (hash, item) = parse_hash read_buffer in
           res_bind (parse_size item) (\<lambda>chunk_size. ddfs_chunk container_path hash (sint chunk_size) s))
       (fgets_lines fp) s) (\<lambda>s.
     res_bind (pocessw container_path (CMR s, dd_files s)) (\<lambda>((c, fs), _).
       Ok (s\<lparr>CMR := c, dd_files := fs(bloom_path \<mapsto> bloom_conf_out (BLM s))\<rparr>)))"

text \<open>The final state with the exit status; \<open>None\<close> is a trace that cannot be opened.\<close>

definition ddfs_main :: "(int \<Rightarrow> bool) \<Rightarrow> int \<Rightarrow> int \<Rightarrow> string \<Rightarrow> files \<Rightarrow> kvdb \<Rightarrow> string option \<Rightarrow> (ddfs \<times> int) res" where
  "ddfs_main alloc bits hashes container_path fs db fp =
     res_bind (sys_ini alloc bits hashes container_path fs db) (\<lambda>s.
       case fp of
         None \<Rightarrow> Ok (s\<lparr>dd_out := dd_out s @ ''OPen hash file failed!!!!'' @ [NL]\<rparr>, 1)
       | Some file \<Rightarrow> res_bind (ddfs_read_hashes container_path file s) (\<lambda>s.
           Ok (s\<lparr>dd_files := (dd_files s)(lru_path \<mapsto> fst (output_conf (LPC s))),
                 dd_out := dd_out s
                   @ ''Index access: '' @ dec (unat (index_access s)) @ [NL]
                   @ ''Update access: '' @ dec (unat (update_access s)) @ [NL]
                   @ ''Loading access: '' @ dec (unat (loading_access s)) @ [NL]\<rparr>, 0)))"

section \<open>Invariants\<close>

definition container_text :: "bytes list \<Rightarrow> string" where
  "container_text hs = concat (map (\<lambda>h. bytes_text h @ [NL]) hs)"

definition containers_ok :: "string \<Rightarrow> files \<Rightarrow> bytes list list \<Rightarrow> bool" where
  "containers_ok path fs css \<longleftrightarrow> [] \<notin> set css
     \<and> (\<forall>n. fs (path @ dec n) = (if n < length css then Some (container_text (css ! n)) else None))"

text \<open>Every fingerprint is indexed under a container that holds it.\<close>

definition located :: "kvdb \<Rightarrow> bytes list list \<Rightarrow> bool" where
  "located db css \<longleftrightarrow> index_wf db \<and> dom (index_of db) = set (concat css)
     \<and> (\<forall>k i. index_of db k = Some i \<longrightarrow> (\<exists>n < length css. i = int n \<and> k \<in> set (css ! n)))"

definition fps_ok :: "bytes list \<Rightarrow> bool" where
  "fps_ok U \<longleftrightarrow> distinct U \<and> list_all clean_fp U \<and> length U < 2 ^ 31"

definition store_inv :: "string \<Rightarrow> container_manager \<Rightarrow> files \<Rightarrow> kvdb \<Rightarrow> bytes list list \<Rightarrow> bool" where
  "store_inv path c fs db css \<longleftrightarrow> containers_ok path fs css
     \<and> fs (path @ ''MAINFEST'') = Some (dec (length css) @ [NL])
     \<and> now_id c = int (length css) \<and> 0 \<le> now_size c \<and> now_size c < 2 ^ 30 \<and> (ctmp c = [] \<longrightarrow> now_size c = 0)
     \<and> fps_ok (concat css @ ctmp c) \<and> located db (css @ [ctmp c])"

text \<open>\<open>bh\<close>: the numbers of bits and of hash functions of the filter.\<close>

definition dd_inv :: "string \<Rightarrow> int \<times> int \<Rightarrow> bytes list \<Rightarrow> ddfs \<Rightarrow> bool" where
  "dd_inv path bh U s \<longleftrightarrow>
     (\<exists>css. U = concat css @ ctmp (CMR s) \<and> store_inv path (CMR s) (dd_files s) (FPI s) css)
     \<and> bloom_wf (BLM s) \<and> (bl_bits (BLM s), bl_hashes (BLM s)) = bh \<and> (\<forall>k \<in> set U. bloom_maybe (BLM s) k)
     \<and> lru_ok LRU_SIZE (LPC s) \<and> set (lru_keys (LPC s)) \<subseteq> set U"

text \<open>The specification: the fingerprints in the order of their first occurrence.\<close>

fun first_seen :: "bytes list \<Rightarrow> bytes list \<Rightarrow> bytes list" where
  "first_seen U [] = U"
| "first_seen U (k # ks) = first_seen (if k \<in> set U then U else U @ [k]) ks"

section \<open>The containers\<close>

lemma concat_length: "[] \<notin> set css \<Longrightarrow> length css \<le> length (concat css)"
proof (induction css)
  case (Cons a css)
  then show ?case by (cases a) auto
qed simp

lemma clean_storable: "list_all clean_fp hs \<Longrightarrow> list_all storable hs"
  by (auto simp: list_all_iff clean_fp_def intro: storable_nul_free)

lemma fps_ok_append: "fps_ok (a @ b) \<Longrightarrow> fps_ok a \<and> fps_ok b"
  by (auto simp: fps_ok_def)

lemma located_Nil: "located db (css @ [[]]) = located db css"
proof -
  have "(\<exists>n < length (css @ [[]]). i = int n \<and> k \<in> set ((css @ [[]]) ! n)) \<longleftrightarrow> (\<exists>n < length css. i = int n \<and> k \<in> set (css ! n))" for i k
    by (auto simp: nth_append less_Suc_eq)
  then show ?thesis unfolding located_def by simp
qed

lemma pocessw_store:
  assumes inv: "store_inv path c fs db css" and ne: "ctmp c \<noteq> []"
  shows "\<exists>c' fs'. pocessw path (c, fs) = Ok ((c', fs'), True) \<and> ctmp c' = [] \<and> now_size c' = 0
    \<and> store_inv path c' fs' db (css @ [ctmp c]) \<and> (\<forall>p. (\<forall>q. p \<noteq> path @ q) \<longrightarrow> fs' p = fs p)"
proof -
  let ?n = "length css"
  have co: "containers_ok path fs css" and id: "now_id c = int ?n" and f: "fps_ok (concat css @ ctmp c)"
    and l: "located db (css @ [ctmp c])" using inv by (simp_all add: store_inv_def)
  have "?n + 1 \<le> length (concat css @ ctmp c)"
    using concat_length [of css] co ne by (cases "ctmp c") (auto simp: containers_ok_def)
  then have n: "int ?n + 1 < 2 ^ 31" using f by (simp add: fps_ok_def)
  have st: "list_all storable (ctmp c)" using f clean_storable by (simp add: fps_ok_def)
  let ?c = "c\<lparr>now_id := int ?n + 1, ctmp := [], now_size := 0\<rparr>"
  let ?fs = "fs(path @ dec ?n \<mapsto> container_text (ctmp c), path @ ''MAINFEST'' \<mapsto> dec (?n + 1) @ [NL])"
  have "nat (int ?n + 1) = ?n + 1" by simp
  then have p: "pocessw path (c, fs) = Ok ((?c, ?fs), True)"
    using ne n st id by (simp add: pocessw_def int_add_def dec_int_def fp_lines_eq id_name_dec container_text_def)
  have "containers_ok path ?fs (css @ [ctmp c])"
    using co ne dec_inj dec_not_mainfest by (auto simp: containers_ok_def nth_append less_Suc_eq)
  moreover have "located db ((css @ [ctmp c]) @ [[]])"
    using l by (simp only: located_Nil)
  ultimately have "store_inv path ?c ?fs db (css @ [ctmp c])" using f by (simp add: store_inv_def)
  then show ?thesis using p by auto
qed

lemma load_store:
  assumes inv: "store_inv path c fs db css" and ix: "index_of db k = Some i"
  shows "\<exists>hs. loadtonode path i (c, fs) = Ok (hs, True) \<and> k \<in> set hs \<and> set hs \<subseteq> set (concat css @ ctmp c) \<and> i \<noteq> - 1"
proof -
  have co: "containers_ok path fs css" and id: "now_id c = int (length css)" and f: "fps_ok (concat css @ ctmp c)"
    using inv by (simp_all add: store_inv_def)
  obtain n where n: "n < length (css @ [ctmp c])" "i = int n" "k \<in> set ((css @ [ctmp c]) ! n)"
    using inv ix unfolding store_inv_def located_def by blast
  have dn: "dec_int i = dec n" using n(2) by (simp add: dec_int_def)
  show ?thesis
  proof (cases "n < length css")
    case True
    then have sub: "set (css ! n) \<subseteq> set (concat css)" using nth_mem by force
    then have "list_all storable (css ! n)"
      using f by (intro clean_storable) (auto simp: fps_ok_def list_all_iff)
    then have "loadtonode path i (c, fs) = Ok (css ! n, True)"
      using co True dn by (simp add: loadtonode_def containers_ok_def container_text_def parse_container)
    then show ?thesis using n True sub by (auto simp: nth_append)
  next
    case False
    then have e: "n = length css" using n(1) by simp
    then have "loadtonode path i (c, fs) = Ok (ctmp c, True)"
      using co dn n(2) id by (simp add: loadtonode_def containers_ok_def)
    then show ?thesis using n e by auto
  qed
qed

lemma located_insert:
  assumes "located db (css @ [t])" "k \<notin> set (concat css @ t)" "int (length css) < 2 ^ 31"
  shows "\<exists>db'. fpi_insert k (word_of_int (int (length css))) db = (db', 1) \<and> located db' (css @ [t @ [k]])"
proof -
  have wf: "index_wf db" and d: "dom (index_of db) = set (concat (css @ [t]))"
    and lo: "\<And>k i. index_of db k = Some i \<Longrightarrow> \<exists>n < length (css @ [t]). i = int n \<and> k \<in> set ((css @ [t]) ! n)"
    using assms(1) unfolding located_def by blast+
  have "index_of db k = None" using d assms(2) by (auto simp: domIff)
  then obtain db' where db': "fpi_insert k (word_of_int (int (length css))) db = (db', 1)" "index_wf db'"
      "index_of db' = (index_of db)(k \<mapsto> sint (word_of_int (int (length css)) :: 32 word))"
    using fpi_insert_eq [OF wf, of k "word_of_int (int (length css))"] by auto
  have s: "sint (word_of_int (int (length css)) :: 32 word) = int (length css)"
    using sint_small [of "length css"] assms(3) by simp
  have "\<exists>n < length (css @ [t @ [k]]). i = int n \<and> j \<in> set ((css @ [t @ [k]]) ! n)"
    if j: "index_of db' j = Some i" for j i
  proof (cases "j = k")
    case True
    then have "i = int (length css)" using j db'(3) s by simp
    then show ?thesis using True by (intro exI [of _ "length css"]) simp
  next
    case False
    then obtain n where n: "n < length (css @ [t])" "i = int n" "j \<in> set ((css @ [t]) ! n)"
      using j db'(3) lo by auto
    then show ?thesis by (intro exI [of _ n]) (auto simp: nth_append split: if_splits)
  qed
  moreover have "dom (index_of db') = set (concat (css @ [t @ [k]]))" using db'(3) d by auto
  ultimately have "located db' (css @ [t @ [k]])" using db'(2) unfolding located_def by blast
  then show ?thesis using db'(1) by blast
qed

text \<open>The last two lines of \<open>insert\<close> and the index entry with the container's number.\<close>

lemma append_store:
  assumes inv: "store_inv path c fs db css" and k: "clean_fp k" "k \<notin> set (concat css @ ctmp c)"
    and sz: "0 \<le> sz" "now_size c + sz < 2 ^ 30" and len: "length (concat css @ ctmp c) + 1 < 2 ^ 31"
  shows "int_add (now_size c) sz = Ok (now_size c + sz)
    \<and> (\<exists>db'. fpi_insert k (word_of_int (now_id c)) db = (db', 1)
         \<and> store_inv path (c\<lparr>now_size := now_size c + sz, ctmp := ctmp c @ [k]\<rparr>) fs db' css)"
proof -
  have "length css < 2 ^ 31"
    using concat_length [of css] inv by (auto simp: store_inv_def containers_ok_def fps_ok_def)
  then obtain db' where db': "fpi_insert k (word_of_int (int (length css))) db = (db', 1)"
      "located db' (css @ [ctmp c @ [k]])"
    using located_insert [of db css "ctmp c" k] inv k(2) by (auto simp: store_inv_def)
  have "fps_ok (concat css @ ctmp c @ [k])"
    using inv k len by (auto simp: store_inv_def fps_ok_def)
  then have "store_inv path (c\<lparr>now_size := now_size c + sz, ctmp := ctmp c @ [k]\<rparr>) fs db' css"
    using inv db'(2) sz by (simp add: store_inv_def)
  moreover have "int_add (now_size c) sz = Ok (now_size c + sz)"
    using inv sz by (simp add: int_add_def store_inv_def)
  ultimately show ?thesis using db'(1) inv by (simp add: store_inv_def)
qed

lemma insert_store:
  assumes inv: "store_inv path c fs db css" and k: "clean_fp k" "k \<notin> set (concat css @ ctmp c)"
    and sz: "0 \<le> sz" "sz < 2 ^ 30" and len: "length (concat css @ ctmp c) + 1 < 2 ^ 31"
  shows "\<exists>c' fs' db' css'. cm_insert k sz path (c, fs) = Ok (c', fs')
    \<and> fpi_insert k (word_of_int (now_id c')) db = (db', 1) \<and> store_inv path c' fs' db' css'
    \<and> concat css' @ ctmp c' = concat css @ ctmp c @ [k]"
proof -
  have tk: "take FP_SIZE k = k" using k(1) by (simp add: clean_fp_def is_fp_def)
  have ns: "int_add (now_size c) sz = Ok (now_size c + sz)"
    using inv sz by (simp add: store_inv_def int_add_def)
  obtain c1 fs1 css1 where 1: "(if now_size c + sz > MAX_SIZE then res_bind (pocessw path (c, fs)) (\<lambda>r. Ok (fst r)) else Ok (c, fs))
        = Ok (c1, fs1)" "store_inv path c1 fs1 db css1" "now_size c1 + sz < 2 ^ 30"
      "concat css1 @ ctmp c1 = concat css @ ctmp c"
  proof (cases "now_size c + sz > MAX_SIZE \<and> ctmp c \<noteq> []")
    case True
    then obtain c1 fs1 where "pocessw path (c, fs) = Ok ((c1, fs1), True)" "ctmp c1 = []" "now_size c1 = 0"
        "store_inv path c1 fs1 db (css @ [ctmp c])"
      using pocessw_store [OF inv] by (elim conjE) (meson that)
    then show ?thesis using True sz by (intro that [of c1 fs1 "css @ [ctmp c]"]) simp_all
  next
    case False
    have "now_size c + sz < 2 ^ 30" using False inv sz by (cases "ctmp c = []") (auto simp: store_inv_def MAX_SIZE_def)
    then show ?thesis using False inv by (intro that [of c fs css]) (auto simp: pocessw_def)
  qed
  let ?c = "c1\<lparr>now_size := now_size c1 + sz, ctmp := ctmp c1 @ [k]\<rparr>"
  obtain db' where 2: "int_add (now_size c1) sz = Ok (now_size c1 + sz)"
      "fpi_insert k (word_of_int (now_id c1)) db = (db', 1)" "store_inv path ?c fs1 db' css1"
    using append_store [OF 1(2) k(1) _ sz(1) 1(3)] 1(4) k(2) len by auto
  have "cm_insert k sz path (c, fs) = Ok (?c, fs1)"
    using ns 1(1) 2(1) tk by (simp add: cm_insert_def)
  moreover have "concat css1 @ ctmp ?c = concat css @ ctmp c @ [k]"
    using 1(4) by (simp flip: append_assoc)
  ultimately show ?thesis using 2(2,3)
    by (intro exI [of _ ?c] exI [of _ fs1] exI [of _ db'] exI [of _ css1]) simp
qed

section \<open>A chunk\<close>

lemma punique_inv:
  assumes inv: "dd_inv path bh U s" and k: "clean_fp k" "k \<notin> set U"
    and sz: "0 \<le> sz" "sz < 2 ^ 30" and len: "length U + 1 < 2 ^ 31"
  shows "\<exists>s'. punique path k sz s = Ok s' \<and> dd_inv path bh (U @ [k]) s'
    \<and> update_access s' = update_access s + 1 \<and> dd_out s' = dd_out s"
proof -
  obtain css where css: "U = concat css @ ctmp (CMR s)" "store_inv path (CMR s) (dd_files s) (FPI s) css"
    and bl: "bloom_wf (BLM s)" "\<forall>k \<in> set U. bloom_maybe (BLM s) k" "(bl_bits (BLM s), bl_hashes (BLM s)) = bh"
    and l: "lru_ok LRU_SIZE (LPC s)" "set (lru_keys (LPC s)) \<subseteq> set U"
    using inv unfolding dd_inv_def by blast
  obtain c' fs' db' css' where st: "cm_insert k sz path (CMR s, dd_files s) = Ok (c', fs')"
      "fpi_insert k (word_of_int (now_id c')) (FPI s) = (db', 1)" "store_inv path c' fs' db' css'"
      "concat css' @ ctmp c' = concat css @ ctmp (CMR s) @ [k]"
    using insert_store [OF css(2) k(1) _ sz] k(2) css(1) len by blast
  let ?s = "s\<lparr>BLM := bloom_ins k (BLM s), CMR := c', dd_files := fs', FPI := db', update_access := update_access s + 1\<rparr>"
  have "punique path k sz s = Ok ?s"
    using st bl(1) by (simp add: punique_def bloom_add_ins)
  moreover have "dd_inv path bh (U @ [k]) ?s"
    unfolding dd_inv_def using st(3,4) css(1) bl l bs.maybe_add bs.maybe_mono bs.invar_add bloom_ins_size
    by (auto intro!: exI [of _ css'])
  ultimately show ?thesis by simp
qed

lemma load_container_inv:
  assumes inv: "dd_inv path bh U s" and k: "k \<in> set U"
  shows "\<exists>i s'. index_of (FPI s) k = Some i \<and> i \<noteq> - 1 \<and> load_container path i s = Ok s' \<and> dd_inv path bh U s'
    \<and> update_access s' = update_access s \<and> dd_out s' = dd_out s"
proof -
  obtain css where css: "U = concat css @ ctmp (CMR s)" "store_inv path (CMR s) (dd_files s) (FPI s) css"
    and bl: "bloom_wf (BLM s)" "\<forall>k \<in> set U. bloom_maybe (BLM s) k" "(bl_bits (BLM s), bl_hashes (BLM s)) = bh"
    and l: "lru_ok LRU_SIZE (LPC s)" "set (lru_keys (LPC s)) \<subseteq> set U"
    using inv unfolding dd_inv_def by blast
  have "dom (index_of (FPI s)) = set U" using css by (simp add: store_inv_def located_def)
  then obtain i where i: "index_of (FPI s) k = Some i" using k by blast
  obtain hs where hs: "loadtonode path i (CMR s, dd_files s) = Ok (hs, True)" "set hs \<subseteq> set U" "i \<noteq> - 1"
    using load_store [OF css(2) i] css(1) by blast
  have "list_all clean_fp hs"
    using hs(2) css by (auto simp: store_inv_def fps_ok_def list_all_iff)
  then obtain l' where l': "res_fold (\<lambda>k l. res_bind (putdata k l) (\<lambda>(l, _). Ok l)) hs (LPC s) = Ok l'"
      "lru_ok LRU_SIZE l'" "set (lru_keys l') \<subseteq> set (lru_keys (LPC s)) \<union> set hs"
    using lc.put_list [OF l(1)] by blast
  let ?s = "s\<lparr>LPC := l', loading_access := loading_access s + word_of_nat (length hs)\<rparr>"
  have "load_container path i s = Ok ?s" using hs(1) l'(1) by (simp add: load_container_def)
  moreover have "dd_inv path bh U ?s"
    unfolding dd_inv_def using css bl l l' hs(2) by auto
  ultimately show ?thesis using i hs(3) by (intro exI [of _ i] exI [of _ ?s]) simp
qed

lemma ddfs_chunk_inv:
  assumes inv: "dd_inv path bh U s" and k: "clean_fp k" and sz: "0 \<le> sz" "sz < 2 ^ 30" and len: "length U + 1 < 2 ^ 31"
  shows "\<exists>s'. ddfs_chunk path k sz s = Ok s' \<and> dd_inv path bh (if k \<in> set U then U else U @ [k]) s'
    \<and> update_access s' = update_access s + of_bool (k \<notin> set U) \<and> dd_out s' = dd_out s"
proof -
  have bl: "bloom_wf (BLM s)" "\<forall>k \<in> set U. bloom_maybe (BLM s) k"
    and l: "lru_ok LRU_SIZE (LPC s)" "set (lru_keys (LPC s)) \<subseteq> set U"
    using inv unfolding dd_inv_def by blast+
  obtain css where "U = concat css @ ctmp (CMR s)" "store_inv path (CMR s) (dd_files s) (FPI s) css"
    using inv unfolding dd_inv_def by blast
  then have ix: "index_wf (FPI s)" "dom (index_of (FPI s)) = set U" by (simp_all add: store_inv_def located_def)
  obtain l' where l': "lru_find k (LPC s) = Ok (l', k \<in> set (lru_keys (LPC s)))" "lru_ok LRU_SIZE l'"
      "set (lru_keys l') = set (lru_keys (LPC s))"
    using lc.find_ok [OF l(1) k] by blast
  have inv1: "dd_inv path bh U (s\<lparr>LPC := l', index_access := n\<rparr>)" "dd_inv path bh U (s\<lparr>LPC := l'\<rparr>)" for n
    using inv l' by (simp_all add: dd_inv_def)
  note eq = ddfs_chunk_def l'(1) bloom_check_eq bl(1) fpi_find_eq ix(1) Let_def
  consider "k \<in> set (lru_keys (LPC s))" | "k \<notin> set (lru_keys (LPC s))" "k \<in> set U"
    | "k \<notin> set (lru_keys (LPC s))" "k \<notin> set U" by blast
  then show ?thesis
  proof cases
    case 1
    then show ?thesis using inv1(2) l(2) by (auto simp: eq)
  next
    case 2
    then show ?thesis
      using load_container_inv [OF inv1(1) 2(2), of "index_access s + 1"] bl(2) by (auto simp: eq)
  next
    case 3
    then have "index_of (FPI s) k = None" using ix(2) by blast
    then show ?thesis
      using 3 punique_inv [OF inv1(1) k 3(2) sz len, of "index_access s + 1"] punique_inv [OF inv1(2) k 3(2) sz len]
      by (simp add: eq)
  qed
qed

section \<open>A run\<close>

definition chunk_int :: "snode \<Rightarrow> int" where
  "chunk_int c = sint (ucast (ssize c) :: 32 word)"

lemma ddfs_lines_chunks:
  "res_fold (\<lambda>l s. if is_title l then Ok s
      else let (hash, item) = parse_hash l in res_bind (parse_size item) (\<lambda>n. ddfs_chunk path hash (sint n) s)) (fgets_lines file) s
    = read_chunks (\<lambda>c s. ddfs_chunk path (skey c) (chunk_int c) s) file s"
proof -
  have "(ucast (scast (n :: 32 word) :: 64 word) :: 32 word) = n" for n
    by (rule bit_word_eqI) (simp add: bit_simps)
  then have "(let (hash, item) = parse_hash l in res_bind (parse_size item) (\<lambda>n. ddfs_chunk path hash (sint n) s))
      = res_bind (parse_chunk l) (\<lambda>c. ddfs_chunk path (skey c) (chunk_int c) s)" for l s
    by (simp add: parse_chunk_def chunk_int_def Let_def res_bind_assoc split: prod.split)
  then show ?thesis unfolding read_chunks_def by (simp only:)
qed

definition chunk_ok :: "snode \<Rightarrow> bool" where
  "chunk_ok c \<longleftrightarrow> nul_free (skey c) \<and> unat (ssize c) < 2 ^ 30"

lemma chunk_int_small: "chunk_ok c \<Longrightarrow> 0 \<le> chunk_int c \<and> chunk_int c < 2 ^ 30"
proof -
  assume c: "chunk_ok c"
  have "chunk_int c = int (unat (ssize c))"
    using sint_small [of "unat (ssize c)"] c by (simp add: chunk_ok_def chunk_int_def)
  moreover have "unat (ssize c) < 2 ^ 30" using c by (simp add: chunk_ok_def)
  ultimately obtain n where "chunk_int c = int n" "n < 2 ^ 30" by blast
  then show ?thesis by simp
qed

lemma length_first_seen: "length U \<le> length (first_seen U ks)"
  by (induction U ks rule: first_seen.induct) (auto split: if_splits)

lemma set_first_seen: "set (first_seen U ks) = set U \<union> set ks"
  by (induction U ks rule: first_seen.induct) auto

lemma ddfs_fold:
  assumes "dd_inv path bh U s" "\<forall>c \<in> set cs. is_fp (skey c) \<and> chunk_ok c" "length U + length cs < 2 ^ 31"
  shows "\<exists>s'. res_fold (\<lambda>c s. ddfs_chunk path (skey c) (chunk_int c) s) cs s = Ok s'
    \<and> dd_inv path bh (first_seen U (map skey cs)) s' \<and> dd_out s' = dd_out s
    \<and> update_access s' = update_access s + word_of_nat (length (first_seen U (map skey cs)) - length U)"
  using assms
proof (induction cs arbitrary: U s)
  case (Cons c cs)
  let ?U = "if skey c \<in> set U then U else U @ [skey c]"
  have c: "clean_fp (skey c)" "chunk_ok c" using Cons.prems(2) by (simp_all add: clean_fp_def chunk_ok_def)
  have len: "length ?U + length cs < 2 ^ 31" using Cons.prems(3) by simp
  obtain s1 where s1: "ddfs_chunk path (skey c) (chunk_int c) s = Ok s1" "dd_inv path bh ?U s1"
      "update_access s1 = update_access s + of_bool (skey c \<notin> set U)" "dd_out s1 = dd_out s"
    using ddfs_chunk_inv [OF Cons.prems(1) c(1), of "chunk_int c"] Cons.prems(3)
      chunk_int_small [OF c(2)] by (elim exE conjE) (simp, blast)
  obtain s2 where s2: "res_fold (\<lambda>c s. ddfs_chunk path (skey c) (chunk_int c) s) cs s1 = Ok s2"
      "dd_inv path bh (first_seen ?U (map skey cs)) s2" "dd_out s2 = dd_out s1"
      "update_access s2 = update_access s1 + word_of_nat (length (first_seen ?U (map skey cs)) - length ?U)"
    using Cons.IH [OF s1(2) _ len] Cons.prems(2) by auto
  have "length (first_seen U (map skey (c # cs))) - length U
      = of_bool (skey c \<notin> set U) + (length (first_seen ?U (map skey cs)) - length ?U)"
    using length_first_seen [of ?U "map skey cs"] by (auto split: if_splits)
  then show ?case using s1 s2 by simp
qed simp

lemma final_store:
  assumes "dd_inv path bh U s"
  shows "\<exists>c fs b css. pocessw path (CMR s, dd_files s) = Ok ((c, fs), b) \<and> ctmp c = [] \<and> U = concat css
    \<and> store_inv path c fs (FPI s) css"
proof -
  obtain css where css: "U = concat css @ ctmp (CMR s)" "store_inv path (CMR s) (dd_files s) (FPI s) css"
    using assms unfolding dd_inv_def by blast
  show ?thesis
  proof (cases "ctmp (CMR s) = []")
    case True
    then show ?thesis using css by (intro exI [of _ "CMR s"] exI [of _ "dd_files s"] exI [of _ False] exI [of _ css]) (simp add: pocessw_def)
  next
    case False
    obtain c fs where p: "pocessw path (CMR s, dd_files s) = Ok ((c, fs), True)" "ctmp c = []"
        "store_inv path c fs (FPI s) (css @ [ctmp (CMR s)])"
      using pocessw_store [OF css(2) False] by (elim exE conjE) (rule that)
    then show ?thesis using css(1)
      by (intro exI [of _ c] exI [of _ fs] exI [of _ True] exI [of _ "css @ [ctmp (CMR s)]"]) simp
  qed
qed

section \<open>The store on disk\<close>

text \<open>
  What a run leaves behind and a run may start from: the containers \<open>css\<close> hold the fingerprints \<open>U\<close>,
  each once; the index locates each; the saved filter contains them all; the saved cache holds some.
\<close>

definition dd_store :: "string \<Rightarrow> int \<times> int \<Rightarrow> files \<Rightarrow> kvdb \<Rightarrow> bytes list \<Rightarrow> bool" where
  "dd_store path bh fs db U \<longleftrightarrow>
     (\<exists>css. U = concat css \<and> containers_ok path fs css \<and> fps_ok U \<and> located db css
        \<and> (fs (path @ ''MAINFEST'') = None \<and> css = [] \<or> fs (path @ ''MAINFEST'') = Some (dec (length css) @ [NL])))
     \<and> (fs bloom_path = None \<and> U = []
        \<or> (\<exists>bl. fs bloom_path = Some (bloom_conf_out bl) \<and> bloom_wf bl \<and> (bl_bits bl, bl_hashes bl) = bh
             \<and> (\<forall>k \<in> set U. bloom_maybe bl k)))
     \<and> (fs lru_path = None
        \<or> (\<exists>l. fs lru_path = Some (fst (output_conf l)) \<and> lru_ok LRU_SIZE l \<and> set (lru_keys l) \<subseteq> set U))"

lemma path_not_conf [simp]:
  "path @ dec n \<noteq> bloom_path" "path @ dec n \<noteq> lru_path"
  "path @ ''MAINFEST'' \<noteq> bloom_path" "path @ ''MAINFEST'' \<noteq> lru_path"
  "bloom_path \<noteq> path @ dec n" "lru_path \<noteq> path @ dec n"
  "bloom_path \<noteq> path @ ''MAINFEST''" "lru_path \<noteq> path @ ''MAINFEST''"
proof -
  have conf: "last bloom_path = CHR ''f''" "last lru_path = CHR ''f''" by (simp_all add: bloom_path_def lru_path_def)
  have "last (path @ dec n) \<in> set (dec n)" by simp
  moreover have "CHR ''f'' \<notin> set (dec n)"
  proof
    assume "CHR ''f'' \<in> set (dec n)"
    then obtain d where "CHR ''f'' = digit_char d" "d < 10" using dec_digits [of n] by auto
    then have "(of_char (CHR ''f'') :: nat) = of_char (digit_char d)" by simp
    then show False using \<open>d < 10\<close> by (simp add: digit_char_def)
  qed
  ultimately have "last (path @ dec n) \<noteq> CHR ''f''" by metis
  then show "path @ dec n \<noteq> bloom_path" "path @ dec n \<noteq> lru_path" "bloom_path \<noteq> path @ dec n" "lru_path \<noteq> path @ dec n"
    using conf by metis+
  have "last (path @ ''MAINFEST'') \<noteq> CHR ''f''" by simp
  then show "path @ ''MAINFEST'' \<noteq> bloom_path" "path @ ''MAINFEST'' \<noteq> lru_path"
      "bloom_path \<noteq> path @ ''MAINFEST''" "lru_path \<noteq> path @ ''MAINFEST''"
    using conf by metis+
qed

lemma containers_ok_upd:
  "containers_ok path (fs(bloom_path \<mapsto> t)) css = containers_ok path fs css"
  "containers_ok path (fs(lru_path \<mapsto> t)) css = containers_ok path fs css"
  "containers_ok path (fs(path @ ''MAINFEST'' \<mapsto> t)) css = containers_ok path fs css"
  using dec_not_mainfest by (simp_all add: containers_ok_def)

lemma conf_paths: "bloom_path \<noteq> lru_path"
  by (simp add: bloom_path_def lru_path_def)

section \<open>Starting up\<close>

lemma scan_int_dec:
  assumes "n < 2 ^ 31"
  shows "scan_int (dec n @ [NL]) = Some (int n)"
proof -
  obtain c r where dn: "dec n = c # r" by (cases "dec n") simp_all
  then obtain d where d: "c = digit_char d" "d < 10" using dec_digits [of n] by auto
  have c: "\<not> isspace c" "c \<noteq> CHR ''-''" "c \<noteq> CHR ''+''" "is_digit 10 c"
    using d not_isspace_digit_char [of d] digit_char_neq [of d] by (simp_all add: is_digit_def digit_char_val)
  have "\<not> is_digit 10 NL" by code_simp
  then have "strtol 10 (dec n @ [NL]) = int n" using strtol_dec [of n "[NL]"] assms by (simp add: LONG_MAX_def)
  moreover have "sint (word_of_int (int n) :: 32 word) = int n" using sint_small [OF assms] by simp
  ultimately show ?thesis using c dn by (simp add: scan_int_def)
qed

lemma cm_init_store:
  assumes "containers_ok path fs css" "fps_ok (concat css)" "located db css"
    "fs (path @ ''MAINFEST'') = None \<and> css = [] \<or> fs (path @ ''MAINFEST'') = Some (dec (length css) @ [NL])"
  shows "\<exists>c fs' n. cm_init path fs = Ok (c, fs', n) \<and> ctmp c = [] \<and> store_inv path c fs' db css
    \<and> fs' lru_path = fs lru_path"
proof -
  have l: "located db (css @ [[]])" using assms(3) by (simp add: located_Nil)
  have "length css < 2 ^ 31" using concat_length [of css] assms(1,2) by (simp add: containers_ok_def fps_ok_def)
  note n = scan_int_dec [OF this]
  have "digit_char 0 = CHR ''0''" by code_simp
  then have d0: "dec 0 = ''0''" by (simp add: dec.simps [of 0])
  show ?thesis
  proof (cases "fs (path @ ''MAINFEST'')")
    case None
    then have "css = []" using assms(4) by simp
    then show ?thesis
      using None assms(1,2) l d0 by (simp add: cm_init_def store_inv_def containers_ok_upd)
  next
    case (Some m)
    then have "m = dec (length css) @ [NL]" using assms(4) by simp
    then show ?thesis using Some assms(1,2) l n by (simp add: cm_init_def store_inv_def)
  qed
qed

lemma bloom_maybe_same_bits:
  "bl_bits a = bl_bits b \<Longrightarrow> bl_hashes a = bl_hashes b \<Longrightarrow> bf a = bf b \<Longrightarrow> bloom_maybe a k = bloom_maybe b k"
  by (simp add: bloom_maybe_def bloom_pos_def)

definition params_ok :: "(int \<Rightarrow> bool) \<Rightarrow> int \<Rightarrow> int \<Rightarrow> bool" where
  "params_ok alloc bits hashes \<longleftrightarrow> 0 < bits \<and> bits < 2 ^ 31 \<and> 0 \<le> hashes \<and> hashes < 2 ^ 31 \<and> alloc ((bits + 7) div 8)"

lemma bloom_start:
  assumes par: "params_ok alloc bits hashes"
    and conf: "conf = None \<and> U = [] \<or> (\<exists>b. conf = Some (bloom_conf_out b) \<and> bloom_wf b
      \<and> (bl_bits b, bl_hashes b) = (bits, hashes) \<and> (\<forall>k \<in> set U. bloom_maybe b k))"
  shows "\<exists>bl r. bloom_init_conf conf (fst (bloom_init alloc bits hashes BLOOM_lenth False b0)) = Ok (bl, r)
    \<and> bloom_wf bl \<and> (bl_bits bl, bl_hashes bl) = (bits, hashes) \<and> (\<forall>k \<in> set U. bloom_maybe bl k)"
proof -
  obtain i where i: "bloom_init alloc bits hashes BLOOM_lenth False b0 = (i, 0)" "bloom_wf i"
      "bl_bits i = bits" "bl_hashes i = hashes"
    using bloom_init_wf [of BLOOM_lenth bits hashes alloc b0] par by (auto simp: params_ok_def BLOOM_lenth_def)
  show ?thesis
  proof (cases conf)
    case None
    then show ?thesis using conf i by (auto simp: bloom_init_conf_def)
  next
    case (Some t)
    then obtain b where b: "t = bloom_conf_out b" "bloom_wf b" "bl_bits b = bits" "bl_hashes b = hashes"
        "\<forall>k \<in> set U. bloom_maybe b k" using conf by auto
    have len: "length (bf b) = nat (bl_bytes i)" "bl_bytes b = bl_bytes i" using b(2,3) i(2,3) by (simp_all add: bloom_wf_def)
    have "bloom_init_conf conf i = Ok (i\<lparr>bf := bf b\<rparr>, True)"
      using bloom_conf_read [OF b(2) i(2) len(2) [symmetric]] Some b(1) by simp
    moreover have "bloom_wf (i\<lparr>bf := bf b\<rparr>)" using i(2) len by (simp add: bloom_wf_def)
    moreover have "bloom_maybe (i\<lparr>bf := bf b\<rparr>) k = bloom_maybe b k" for k
      by (rule bloom_maybe_same_bits) (simp_all add: i(3,4) b(3,4))
    ultimately show ?thesis using i b by auto
  qed
qed

lemma lru_start:
  assumes "conf = None \<or> (\<exists>l. conf = Some (fst (output_conf l)) \<and> lru_ok LRU_SIZE l \<and> set (lru_keys l) \<subseteq> U)"
  shows "\<exists>l r. lru_init_conf conf (lrucache_new LRU_SIZE) = Ok (l, r) \<and> lru_ok LRU_SIZE l \<and> set (lru_keys l) \<subseteq> U"
proof (cases conf)
  case None
  then show ?thesis
    using lru_new_inv [of LRU_SIZE] by (auto simp: lru_init_conf_def lru_ok_def LRU_SIZE_def lrucache_new_def)
next
  case (Some t)
  then obtain l where l: "t = fst (output_conf l)" "lru_ok LRU_SIZE l" "set (lru_keys l) \<subseteq> U" using assms by auto
  then have "lru_inv l" "max_cache_size l = LRU_SIZE" by (simp_all add: lru_ok_def)
  then obtain l' where "lru_init_conf (Some t) (lrucache_new LRU_SIZE) = Ok (l', True)" "lru_inv l'"
      "max_cache_size l' = LRU_SIZE" "lru_keys l' = rev (lru_keys l)"
    using lru_conf_read [of l] l(1) by auto
  then show ?thesis using Some l by (auto simp: lru_ok_def)
qed

lemma sys_ini_inv:
  assumes "params_ok alloc bits hashes" "dd_store path (bits, hashes) fs db U"
  shows "\<exists>s. sys_ini alloc bits hashes path fs db = Ok s \<and> dd_inv path (bits, hashes) U s
    \<and> update_access s = 0 \<and> dd_out s = []"
proof -
  obtain css where css: "U = concat css" "containers_ok path fs css" "fps_ok U" "located db css"
      "fs (path @ ''MAINFEST'') = None \<and> css = [] \<or> fs (path @ ''MAINFEST'') = Some (dec (length css) @ [NL])"
    using assms(2) unfolding dd_store_def by blast
  obtain bl r where bl: "bloom_init_conf (fs bloom_path) (fst (bloom_init alloc bits hashes BLOOM_lenth False
        \<lparr>bl_entries = 0, bl_bits = 0, bl_bytes = 0, bl_hashes = 0, bf = [], bl_ready = False\<rparr>)) = Ok (bl, r)"
      "bloom_wf bl" "(bl_bits bl, bl_hashes bl) = (bits, hashes)" "\<forall>k \<in> set U. bloom_maybe bl k"
    using bloom_start [OF assms(1), of "fs bloom_path" U] assms(2) unfolding dd_store_def by blast
  obtain c fs' n where c: "cm_init path fs = Ok (c, fs', n)" "ctmp c = []" "store_inv path c fs' db css"
      "fs' lru_path = fs lru_path"
    using cm_init_store [OF css(2) _ css(4,5)] css(1,3) by blast
  obtain l r' where l: "lru_init_conf (fs lru_path) (lrucache_new LRU_SIZE) = Ok (l, r')" "lru_ok LRU_SIZE l"
      "set (lru_keys l) \<subseteq> set U"
    using lru_start [of "fs lru_path" "set U"] assms(2) unfolding dd_store_def by blast
  show ?thesis
    using bl c l css(1) by (auto simp: sys_ini_def dd_inv_def intro!: exI [of _ css])
qed

section \<open>Deduplication\<close>

lemma store_saved:
  assumes st: "store_inv path c fs db css" and tmp: "ctmp c = []"
    and bl: "bloom_wf bl" "(bl_bits bl, bl_hashes bl) = bh" "\<forall>k \<in> set (concat css). bloom_maybe bl k"
    and l: "lru_ok LRU_SIZE l" "set (lru_keys l) \<subseteq> set (concat css)"
  shows "dd_store path bh (fs(bloom_path \<mapsto> bloom_conf_out bl, lru_path \<mapsto> fst (output_conf l))) db (concat css)"
proof -
  let ?fs = "fs(bloom_path \<mapsto> bloom_conf_out bl, lru_path \<mapsto> fst (output_conf l))"
  have "located db css" using st tmp by (simp add: store_inv_def located_Nil)
  then have 1: "containers_ok path ?fs css \<and> fps_ok (concat css) \<and> located db css
      \<and> ?fs (path @ ''MAINFEST'') = Some (dec (length css) @ [NL])"
    using st tmp by (simp add: store_inv_def containers_ok_upd)
  have 2: "?fs bloom_path = Some (bloom_conf_out bl)" "?fs lru_path = Some (fst (output_conf l))"
    using conf_paths by simp_all
  show ?thesis unfolding dd_store_def using 1 2 bl l by blast
qed

lemma ddfs_main_store:
  assumes par: "params_ok alloc bits hashes" and st: "dd_store path (bits, hashes) fs db U"
    and tr: "trace_chunks file = Ok cs" "\<forall>c \<in> set cs. chunk_ok c" and len: "length U + length cs < 2 ^ 31"
  shows "\<exists>s. ddfs_main alloc bits hashes path fs db (Some file) = Ok (s, 0)
    \<and> dd_store path (bits, hashes) (dd_files s) (FPI s) (first_seen U (map skey cs))
    \<and> update_access s = word_of_nat (length (first_seen U (map skey cs)) - length U)"
proof -
  let ?U = "first_seen U (map skey cs)"
  obtain s0 where s0: "sys_ini alloc bits hashes path fs db = Ok s0" "dd_inv path (bits, hashes) U s0" "update_access s0 = 0"
    using sys_ini_inv [OF par st] by (elim exE conjE) (rule that)
  have fp: "\<forall>c \<in> set cs. is_fp (skey c) \<and> chunk_ok c" using tr trace_chunks_fp by blast
  obtain s1 where s1: "res_fold (\<lambda>c s. ddfs_chunk path (skey c) (chunk_int c) s) cs s0 = Ok s1"
      "dd_inv path (bits, hashes) ?U s1" "update_access s1 = update_access s0 + word_of_nat (length ?U - length U)"
    using ddfs_fold [OF s0(2) fp len] by (elim exE conjE) (rule that)
  obtain c fs' b css where c: "pocessw path (CMR s1, dd_files s1) = Ok ((c, fs'), b)" "ctmp c = []" "?U = concat css"
      "store_inv path c fs' (FPI s1) css"
    using final_store [OF s1(2)] by (elim exE conjE) (rule that)
  have bl: "bloom_wf (BLM s1)" "(bl_bits (BLM s1), bl_hashes (BLM s1)) = (bits, hashes)" "\<forall>k \<in> set ?U. bloom_maybe (BLM s1) k"
    and l: "lru_ok LRU_SIZE (LPC s1)" "set (lru_keys (LPC s1)) \<subseteq> set ?U"
    using s1(2) unfolding dd_inv_def by blast+
  let ?fs = "fs'(bloom_path \<mapsto> bloom_conf_out (BLM s1), lru_path \<mapsto> fst (output_conf (LPC s1)))"
  have "dd_store path (bits, hashes) ?fs (FPI s1) ?U"
    unfolding c(3) by (rule store_saved [OF c(4,2) bl(1,2) bl(3) [unfolded c(3)] l(1) l(2) [unfolded c(3)]])
  moreover have "ddfs_read_hashes path file s0 = Ok (s1\<lparr>CMR := c, dd_files := fs'(bloom_path \<mapsto> bloom_conf_out (BLM s1))\<rparr>)"
    unfolding ddfs_read_hashes_def ddfs_lines_chunks read_chunks_fold [OF tr(1)] using s1(1) c(1) by simp
  ultimately show ?thesis using s0 s1(3) by (simp add: ddfs_main_def)
qed

lemma fresh_store: "dd_store path bh (\<lambda>_. None) db_empty []"
  by (auto simp: dd_store_def containers_ok_def fps_ok_def located_def intro!: exI [of _ "[]"])

lemma store_lookup:
  assumes "dd_store path bh fs db U" "k \<in> set U"
  shows "\<exists>i hs. fpi_find k db = Ok i \<and> i \<noteq> - 1 \<and> loadtonode path i (c, fs) = Ok (hs, True) \<and> k \<in> set hs"
proof -
  obtain css where css: "U = concat css" "containers_ok path fs css" "fps_ok U" "located db css"
    using assms(1) unfolding dd_store_def by blast
  then obtain i where i: "index_of db k = Some i" using assms(2) unfolding located_def by blast
  obtain n where n: "n < length css" "i = int n" "k \<in> set (css ! n)" using css(4) i unfolding located_def by blast
  have "set (css ! n) \<subseteq> set U" using n(1) css(1) nth_mem by force
  then have "list_all storable (css ! n)"
    using css(3) by (intro clean_storable) (auto simp: fps_ok_def list_all_iff)
  then have "loadtonode path i (c, fs) = Ok (css ! n, True)"
    using css(2) n(1,2) by (simp add: loadtonode_def dec_int_def containers_ok_def container_text_def parse_container)
  then show ?thesis using n i css(4) by (simp add: fpi_find_eq located_def)
qed

text \<open>
  C2. Deduplication is exact and survives restarts. Let a store hold the fingerprints \<open>U\<close> (each once in
  the numbered containers, indexed under the container that holds it, all of them in the saved
  filter, some in the saved cache). A run of the program on a trace of NUL-free fingerprints with chunk
  sizes below \<open>2^30\<close> ends with status 0 and leaves such a store for \<open>U\<close> followed by the new
  fingerprints of the trace in the order of their first occurrence: nothing is stored twice, nothing
  is lost, and \<open>update_access\<close> counts the new ones.
\<close>

theorem ddfs_dedup:
  assumes "params_ok alloc bits hashes" "dd_store path (bits, hashes) fs db U"
    and "trace_chunks file = Ok cs" "\<forall>c \<in> set cs. chunk_ok c" "length U + length cs < 2 ^ 31"
  shows "\<exists>s. ddfs_main alloc bits hashes path fs db (Some file) = Ok (s, 0)
    \<and> dd_store path (bits, hashes) (dd_files s) (FPI s) (first_seen U (map skey cs))
    \<and> update_access s = word_of_nat (length (first_seen U (map skey cs)) - length U)"
  by (rule ddfs_main_store [OF assms])

lemma sample_dd:
  "params_ok (\<lambda>_. True) 20 7"
  "\<forall>c \<in> set [\<lparr>skey = [6, 5, 4, 3, 2, 1], ssize = 4096\<rparr>, \<lparr>skey = [1, 2, 3, 4, 5, 6], ssize = 8192\<rparr>]. chunk_ok c"
  by (simp_all add: params_ok_def chunk_ok_def nul_free_def)

theorem ddfs_dedup_witness:
  "\<exists>s. ddfs_main (\<lambda>_. True) 20 7 ''c/'' (\<lambda>_. None) db_empty
        (Some (print_trace [([6, 5, 4, 3, 2, 1], 4096), ([1, 2, 3, 4, 5, 6], 8192)])) = Ok (s, 0)
    \<and> dd_store ''c/'' (20, 7) (dd_files s) (FPI s) [[6, 5, 4, 3, 2, 1], [1, 2, 3, 4, 5, 6]] \<and> update_access s = 2"
  using ddfs_dedup [OF sample_dd(1) fresh_store sample_trace sample_dd(2)] by simp

text \<open>
  C19. After a run on a fresh system every fingerprint of the trace can be found again: the index gives
  a container number, and loading that container succeeds and yields the fingerprint.
\<close>

theorem ddfs_retrieval:
  assumes "params_ok alloc bits hashes" "trace_chunks file = Ok cs" "\<forall>c \<in> set cs. chunk_ok c"
    "length cs < 2 ^ 31" "c \<in> set cs"
  shows "\<exists>s i hs. ddfs_main alloc bits hashes path (\<lambda>_. None) db_empty (Some file) = Ok (s, 0)
    \<and> fpi_find (skey c) (FPI s) = Ok i \<and> loadtonode path i (CMR s, dd_files s) = Ok (hs, True) \<and> skey c \<in> set hs"
proof -
  obtain s where s: "ddfs_main alloc bits hashes path (\<lambda>_. None) db_empty (Some file) = Ok (s, 0)"
      "dd_store path (bits, hashes) (dd_files s) (FPI s) (first_seen [] (map skey cs))"
    using ddfs_main_store [OF assms(1) fresh_store assms(2,3)] assms(4) by auto
  have "skey c \<in> set (first_seen [] (map skey cs))" using assms(5) by (simp add: set_first_seen)
  then show ?thesis using s(1) store_lookup [OF s(2)] by blast
qed

theorem ddfs_retrieval_witness:
  "\<exists>s i hs. ddfs_main (\<lambda>_. True) 20 7 ''c/'' (\<lambda>_. None) db_empty
        (Some (print_trace [([6, 5, 4, 3, 2, 1], 4096), ([1, 2, 3, 4, 5, 6], 8192)])) = Ok (s, 0)
    \<and> fpi_find [1, 2, 3, 4, 5, 6] (FPI s) = Ok i \<and> loadtonode ''c/'' i (CMR s, dd_files s) = Ok (hs, True)
    \<and> [1, 2, 3, 4, 5, 6] \<in> set hs"
  using ddfs_retrieval [OF sample_dd(1) sample_trace sample_dd(2), of "\<lparr>skey = [1, 2, 3, 4, 5, 6], ssize = 8192\<rparr>"] by simp

end
