(* ===== verification/LCoding.thy ===== *)
theory LCoding
  imports Prelude
begin

text \<open>
  \<open>leveldb/util/coding.cc\<close> and \<open>coding.h\<close>: fixed-width and variable-length integers and length-prefixed
  strings, the wire format of write batches, memtable entries, log records and version edits. A
  decoder returns the value and the bytes that are left, or \<open>None\<close> on error (the \<open>NULL\<close> or \<open>false\<close> of the
  source). What clients rely on is the locale \<open>wire_code\<close>.
\<close>

unbundle bit_operations_syntax

section \<open>The contract of a wire format\<close>

locale wire_code =
  fixes enc :: "'a \<Rightarrow> bytes"
    and dec :: "bytes \<Rightarrow> ('a \<times> bytes) option"
    and ok :: "'a \<Rightarrow> bool"
  assumes dec_enc: "ok x \<Longrightarrow> dec (enc x @ r) = Some (x, r)"
begin

text \<open>Codes are prefix-free: what follows a value cannot change it.\<close>

lemma enc_cancel: "ok x \<Longrightarrow> ok y \<Longrightarrow> enc x @ r = enc y @ s \<Longrightarrow> x = y \<and> r = s"
  using dec_enc [of x r] dec_enc [of y s] by (metis option.inject prod.inject)

lemma enc_inj: "ok x \<Longrightarrow> ok y \<Longrightarrow> enc x = enc y \<Longrightarrow> x = y"
  using enc_cancel [of x y "[]" "[]"] by metis

text \<open>A sequence of values can be read back one after the other.\<close>

lemma dec_seq:
  "list_all ok xs \<Longrightarrow> n = length xs \<Longrightarrow>
    ((\<lambda>(ys, b). case dec b of None \<Rightarrow> (ys, b) | Some (y, b') \<Rightarrow> (ys @ [y], b')) ^^ n) (zs, concat (map enc xs) @ r) = (zs @ xs, r)"
proof (induction xs arbitrary: n zs)
  case (Cons x xs)
  then show ?case by (simp add: dec_enc funpow_Suc_right del: funpow.simps)
qed simp

end

section \<open>Encoding\<close>

text \<open>
  \<open>EncodeFixed32\<close>, \<open>EncodeFixed64\<close>: on a little-endian machine the bytes of the integer are copied
  (\<open>_le\<close>), otherwise they are computed (\<open>_be\<close>).
\<close>

definition EncodeFixed32 :: "32 word \<Rightarrow> bytes" where
  "EncodeFixed32 v = le_bytes 4 v"

definition EncodeFixed32_be :: "32 word \<Rightarrow> bytes" where
  "EncodeFixed32_be v =
     [ucast (v AND 0xff), ucast (drop_bit 8 v AND 0xff), ucast (drop_bit 16 v AND 0xff), ucast (drop_bit 24 v AND 0xff)]"

definition EncodeFixed64 :: "64 word \<Rightarrow> bytes" where
  "EncodeFixed64 v = le_bytes 8 v"

definition EncodeFixed64_be :: "64 word \<Rightarrow> bytes" where
  "EncodeFixed64_be v =
     [ucast (v AND 0xff), ucast (drop_bit 8 v AND 0xff), ucast (drop_bit 16 v AND 0xff), ucast (drop_bit 24 v AND 0xff),
      ucast (drop_bit 32 v AND 0xff), ucast (drop_bit 40 v AND 0xff), ucast (drop_bit 48 v AND 0xff), ucast (drop_bit 56 v AND 0xff)]"

definition PutFixed32 :: "bytes \<Rightarrow> 32 word \<Rightarrow> bytes" where
  "PutFixed32 dst v = dst @ EncodeFixed32 v"

definition PutFixed64 :: "bytes \<Rightarrow> 64 word \<Rightarrow> bytes" where
  "PutFixed64 dst v = dst @ EncodeFixed64 v"

definition EncodeVarint32 :: "32 word \<Rightarrow> bytes" where
  "EncodeVarint32 v =
     (if v < push_bit 7 1 then [ucast v]
      else if v < push_bit 14 1 then [ucast (v OR 128), ucast (drop_bit 7 v)]
      else if v < push_bit 21 1 then [ucast (v OR 128), ucast (drop_bit 7 v OR 128), ucast (drop_bit 14 v)]
      else if v < push_bit 28 1 then
        [ucast (v OR 128), ucast (drop_bit 7 v OR 128), ucast (drop_bit 14 v OR 128), ucast (drop_bit 21 v)]
      else
        [ucast (v OR 128), ucast (drop_bit 7 v OR 128), ucast (drop_bit 14 v OR 128), ucast (drop_bit 21 v OR 128),
         ucast (drop_bit 28 v)])"

definition PutVarint32 :: "bytes \<Rightarrow> 32 word \<Rightarrow> bytes" where
  "PutVarint32 dst v = dst @ EncodeVarint32 v"

lemma drop_bit_7_less: "128 \<le> (v :: 64 word) \<Longrightarrow> unat (drop_bit 7 v) < unat v"
  by (simp add: drop_bit_eq_div unat_div word_le_nat_alt)

function EncodeVarint64 :: "64 word \<Rightarrow> bytes" where
  "EncodeVarint64 v = (if v \<ge> 128 then ucast ((v AND 127) OR 128) # EncodeVarint64 (drop_bit 7 v) else [ucast v])"
  by pat_completeness auto
termination by (relation "measure unat") (auto simp: drop_bit_7_less)

definition PutVarint64 :: "bytes \<Rightarrow> 64 word \<Rightarrow> bytes" where
  "PutVarint64 dst v = dst @ EncodeVarint64 v"

definition PutLengthPrefixedSlice :: "bytes \<Rightarrow> bytes \<Rightarrow> bytes" where
  "PutLengthPrefixedSlice dst value = PutVarint32 dst (word_of_nat (length value)) @ value"

function VarintLength :: "64 word \<Rightarrow> nat" where
  "VarintLength v = (if v \<ge> 128 then VarintLength (drop_bit 7 v) + 1 else 1)"
  by pat_completeness auto
termination by (relation "measure unat") (auto simp: drop_bit_7_less)

declare EncodeVarint64.simps [simp del] VarintLength.simps [simp del]

section \<open>Decoding\<close>

text \<open>\<open>DecodeFixed32\<close> and \<open>DecodeFixed64\<close> read from a pointer; reading past the end is undefined.\<close>

definition DecodeFixed32 :: "bytes \<Rightarrow> 32 word res" where
  "DecodeFixed32 p = (if 4 \<le> length p then Ok (le_word (take 4 p)) else Err Undefined)"

definition DecodeFixed32_be :: "bytes \<Rightarrow> 32 word res" where
  "DecodeFixed32_be p =
     (if 4 \<le> length p then
        Ok (ucast (p ! 0) OR push_bit 8 (ucast (p ! 1)) OR push_bit 16 (ucast (p ! 2)) OR push_bit 24 (ucast (p ! 3)))
      else Err Undefined)"

definition DecodeFixed64 :: "bytes \<Rightarrow> 64 word res" where
  "DecodeFixed64 p = (if 8 \<le> length p then Ok (le_word (take 8 p)) else Err Undefined)"

definition DecodeFixed64_be :: "bytes \<Rightarrow> 64 word res" where
  "DecodeFixed64_be p =
     res_bind (DecodeFixed32_be p) (\<lambda>lo. res_bind (DecodeFixed32_be (drop 4 p)) (\<lambda>hi.
       Ok (push_bit 32 (ucast hi) OR ucast lo)))"

text \<open>The loop over \<open>shift\<close>, with the remaining values of \<open>shift\<close> as a list.\<close>

fun get_varint :: "nat list \<Rightarrow> 'w::len word \<Rightarrow> bytes \<Rightarrow> ('w word \<times> bytes) option" where
  "get_varint (shift # ss) result (p # ps) =
     (let byte = ucast p in
      if byte AND 128 \<noteq> 0 then get_varint ss (result OR push_bit shift (byte AND 127)) ps
      else Some (result OR push_bit shift byte, ps))"
| "get_varint _ _ _ = None"

definition GetVarint32PtrFallback :: "bytes \<Rightarrow> (32 word \<times> bytes) option" where
  "GetVarint32PtrFallback p = get_varint [0, 7, 14, 21, 28] 0 p"

definition GetVarint32 :: "bytes \<Rightarrow> (32 word \<times> bytes) option" where
  "GetVarint32 p =
     (case p of
        b # ps \<Rightarrow> if (ucast b :: 32 word) AND 128 = 0 then Some (ucast b, ps) else GetVarint32PtrFallback p
      | [] \<Rightarrow> GetVarint32PtrFallback p)"

definition GetVarint64 :: "bytes \<Rightarrow> (64 word \<times> bytes) option" where
  "GetVarint64 p = get_varint [0, 7, 14, 21, 28, 35, 42, 49, 56, 63] 0 p"

definition GetLengthPrefixedSlice :: "bytes \<Rightarrow> (bytes \<times> bytes) option" where
  "GetLengthPrefixedSlice input =
     (case GetVarint32 input of
        None \<Rightarrow> None
      | Some (len, rest) \<Rightarrow>
          if unat len \<le> length rest then Some (take (unat len) rest, drop (unat len) rest) else None)"

section \<open>The reference: base 128, lowest digits first\<close>

fun varint :: "nat \<Rightarrow> bytes" where
  "varint n = (if n < 128 then [word_of_nat n] else word_of_nat (n mod 128 + 128) # varint (n div 128))"

declare varint.simps [simp del]

lemma bit_128_nat: "bit (128 :: nat) i \<longleftrightarrow> i = 7"
  using bit_exp_iff [of 7 i, where 'a = nat] by auto

lemma bit_128_int: "bit (128 :: int) i \<longleftrightarrow> i = 7"
  using bit_exp_iff [of 7 i, where 'a = int] by auto

lemma bit_128: "bit (128 :: 'w::len word) i \<longleftrightarrow> i = 7 \<and> i < LENGTH('w)"
  using bit_exp_iff [of 7 i, where 'a = "'w word"] by auto

lemma nat_add_128: "take_bit 7 (n :: nat) + 128 = take_bit 7 n OR 128"
  by (rule disjunctive_add) (auto simp: bit_take_bit_iff bit_128_nat)

lemma digit_word: "word_of_nat (n mod 128 + 128) = (word_of_nat n OR 128 :: 8 word)"
proof -
  have "n mod 128 + 128 = take_bit 7 n OR 128" using nat_add_128 [of n] by (simp add: take_bit_eq_mod)
  then have "word_of_nat (n mod 128 + 128) = (word_of_nat (take_bit 7 n) OR 128 :: 8 word)"
    by (simp add: of_nat_or_eq)
  also have "\<dots> = word_of_nat n OR 128"
    by (rule bit_word_eqI) (auto simp: bit_simps bit_128 bit_128_int)
  finally show ?thesis .
qed

text \<open>The loop of the decoder reads the reference back.\<close>

fun shifts :: "nat \<Rightarrow> nat \<Rightarrow> nat list" where
  "shifts k 0 = []"
| "shifts k (Suc n) = 7 * k # shifts (k + 1) n"

lemma and_128: "(w :: 'w::len word) AND 128 \<noteq> 0 \<longleftrightarrow> 7 < LENGTH('w) \<and> bit w 7"
proof -
  have "w AND 128 \<noteq> 0 \<longleftrightarrow> (\<exists>i < LENGTH('w). bit (w AND 128) i)"
    by (metis bit_word_eqI bit_0_eq bot_apply bot_bool_def)
  also have "\<dots> \<longleftrightarrow> 7 < LENGTH('w) \<and> bit w 7" by (auto simp: bit_and_iff bit_128 bit_128_int)
  finally show ?thesis .
qed

lemma bit_127_int: "bit (127 :: int) i \<longleftrightarrow> i < 7"
proof -
  have "(127 :: int) = mask 7" by (simp add: mask_eq_exp_minus_1)
  then show ?thesis by (simp only: bit_mask_iff) simp
qed

lemma bit_127: "bit (127 :: 'w::len word) i \<longleftrightarrow> i < 7 \<and> i < LENGTH('w)"
proof -
  have "(127 :: 'w word) = mask 7" by (simp add: mask_eq_exp_minus_1)
  then show ?thesis by (simp only: bit_mask_iff) auto
qed

lemma varint_last:
  assumes "m < 128" "8 \<le> LENGTH('w::len)"
  shows "(ucast (word_of_nat m :: 8 word) :: 'w word) = word_of_nat m" "(word_of_nat m :: 'w word) AND 128 = 0"
proof -
  have m: "i < 7" if "bit m i" for i
    using assms(1) that bit_take_bit_iff [of 7 m i] take_bit_nat_eq_self [of m 7] by auto
  show "(ucast (word_of_nat m :: 8 word) :: 'w word) = word_of_nat m"
  proof (rule bit_word_eqI)
    fix i assume "i < LENGTH('w)"
    then show "bit (ucast (word_of_nat m :: 8 word) :: 'w word) i = bit (word_of_nat m :: 'w word) i"
      using m [of i] by (auto simp: bit_simps dest: less_trans)
  qed
  show "(word_of_nat m :: 'w word) AND 128 = 0"
    using and_128 [of "word_of_nat m :: 'w word"] m [of 7] assms(2) by (auto simp: bit_simps)
qed

lemma varint_more:
  assumes "8 \<le> LENGTH('w::len)"
  shows "(ucast (word_of_nat m OR 128 :: 8 word) :: 'w word) AND 128 \<noteq> 0"
    "(ucast (word_of_nat m OR 128 :: 8 word) :: 'w word) AND 127 = word_of_nat (take_bit 7 m)"
proof -
  show "(ucast (word_of_nat m OR 128 :: 8 word) :: 'w word) AND 128 \<noteq> 0"
    using assms by (subst and_128) (auto simp: bit_simps bit_128 bit_128_int)
  show "(ucast (word_of_nat m OR 128 :: 8 word) :: 'w word) AND 127 = word_of_nat (take_bit 7 m)"
    by (rule bit_word_eqI) (auto simp: bit_and_iff bit_or_iff bit_ucast_iff bit_127 bit_127_int bit_128 bit_128_int bit_of_nat_iff bit_take_bit_iff)
qed

lemma varint_join:
  "push_bit s (word_of_nat (take_bit 7 m)) OR push_bit (s + 7) (word_of_nat (m div 128)) = push_bit s (word_of_nat m :: 'w::len word)"
proof (rule bit_word_eqI)
  fix i assume "i < LENGTH('w)"
  have "m div 128 = drop_bit 7 m" by (simp add: drop_bit_eq_div)
  then show "bit (push_bit s (word_of_nat (take_bit 7 m)) OR push_bit (s + 7) (word_of_nat (m div 128)) :: 'w word) i
      = bit (push_bit s (word_of_nat m :: 'w word)) i"
    using \<open>i < LENGTH('w)\<close> le_add_diff_inverse2 [of 7 "i - s"]
    by (cases "i - s < 7") (auto simp: bit_or_iff bit_push_bit_iff bit_of_nat_iff bit_take_bit_iff bit_drop_bit_eq add.commute)
qed

lemma varint_Cons: "\<not> m < 128 \<Longrightarrow> varint m = (word_of_nat m OR 128) # varint (m div 128)"
  by (subst varint.simps) (simp only: digit_word if_False)

lemma get_varint_varint:
  assumes "8 \<le> LENGTH('w::len)" "m < 128 ^ n" "0 < n"
  shows "get_varint (shifts k n) (r :: 'w word) (varint m @ rest) = Some (r OR push_bit (7 * k) (word_of_nat m), rest)"
  using assms
proof (induction n arbitrary: k r m)
  case (Suc n)
  show ?case
  proof (cases "m < 128")
    case True
    then show ?thesis using varint_last [OF True Suc.prems(1)] by (subst varint.simps) (simp add: Let_def)
  next
    case False
    then have m: "m div 128 < 128 ^ n" "0 < n"
      using Suc.prems(2) by (auto simp: div_less_iff_less_mult mult.commute intro: gr0I)
    have j: "push_bit (7 * k) (word_of_nat (take_bit 7 m)) OR push_bit (7 * (k + 1)) (word_of_nat (m div 128))
        = push_bit (7 * k) (word_of_nat m :: 'w word)"
      using varint_join [of "7 * k" m] by (simp add: add.commute)
    have "get_varint (shifts k (Suc n)) r (varint m @ rest)
        = get_varint (shifts (k + 1) n) (r OR push_bit (7 * k) (word_of_nat (take_bit 7 m))) (varint (m div 128) @ rest)"
      by (simp only: varint_Cons [OF False] shifts.simps append_Cons get_varint.simps Let_def
          varint_more [OF Suc.prems(1), of m] simp_thms if_True)
    also have "\<dots> = Some ((r OR push_bit (7 * k) (word_of_nat (take_bit 7 m))) OR push_bit (7 * (k + 1)) (word_of_nat (m div 128)), rest)"
      by (rule Suc.IH [OF Suc.prems(1) m])
    finally show ?thesis by (simp only: or.assoc j)
  qed
qed simp

section \<open>The encoders compute the reference\<close>

lemma varint_Nil: "m < 128 \<Longrightarrow> varint m = [word_of_nat m]"
  by (subst varint.simps) simp

lemma unat_drop7: "unat (drop_bit n (v :: 'w::len word)) = unat v div 2 ^ n"
  unfolding unat_drop_bit_eq by (simp add: drop_bit_eq_div)

lemma EncodeVarint64_varint: "EncodeVarint64 v = varint (unat v)"
proof (induction v rule: EncodeVarint64.induct)
  case (1 v)
  show ?case
  proof (cases "v \<ge> 128")
    case True
    have "ucast ((v AND 127) OR 128) = (word_of_nat (unat v) OR 128 :: 8 word)"
      by (rule bit_word_eqI) (auto simp: bit_and_iff bit_or_iff bit_ucast_iff bit_127 bit_127_int bit_128 bit_128_int)
    then show ?thesis
      using 1 True by (subst EncodeVarint64.simps) (simp add: varint_Cons word_le_nat_alt unat_drop7 not_less)
  next
    case False
    then show ?thesis
      by (subst EncodeVarint64.simps) (simp add: varint_Nil word_le_nat_alt not_le)
  qed
qed

lemma VarintLength_varint: "VarintLength v = length (varint (unat v))"
proof (induction v rule: VarintLength.induct)
  case (1 v)
  show ?case
  proof (cases "v \<ge> 128")
    case True
    then show ?thesis
      using 1 by (subst VarintLength.simps) (simp add: varint_Cons word_le_nat_alt unat_drop7 not_less)
  next
    case False
    then show ?thesis by (subst VarintLength.simps) (simp add: varint_Nil word_le_nat_alt not_le)
  qed
qed

lemma ucast_or_128: "(ucast (w OR 128 :: 32 word) :: 8 word) = ucast w OR 128"
  by (rule bit_word_eqI) (auto simp: bit_simps bit_128_int)

lemma EncodeVarint32_varint: "EncodeVarint32 v = varint (unat v)"
proof -
  have d: "ucast (drop_bit n v) = (word_of_nat (unat v div 2 ^ n) :: 8 word)" for n
    by (simp flip: unat_drop7)
  have l: "unat v < 2 ^ 32" using unsigned_less [of v] by simp
  have v0: "ucast v = (word_of_nat (unat v) :: 8 word)" by simp
  note steps = varint_Cons [unfolded not_less] varint_Nil div_mult2_eq [symmetric]
  consider "unat v < 2 ^ 7" | "2 ^ 7 \<le> unat v" "unat v < 2 ^ 14" | "2 ^ 14 \<le> unat v" "unat v < 2 ^ 21"
    | "2 ^ 21 \<le> unat v" "unat v < 2 ^ 28" | "2 ^ 28 \<le> unat v" by linarith
  then show ?thesis
  proof cases
    case 1
    then show ?thesis by (simp add: EncodeVarint32_def word_less_nat_alt varint_Nil)
  next
    case 2
    then show ?thesis using d [of 7] by (simp add: EncodeVarint32_def word_less_nat_alt ucast_or_128 steps div_less_iff_less_mult)
  next
    case 3
    then show ?thesis using d [of 7] d [of 14]
      by (simp add: EncodeVarint32_def word_less_nat_alt ucast_or_128 steps div_less_iff_less_mult less_eq_div_iff_mult_less_eq)
  next
    case 4
    then show ?thesis using d [of 7] d [of 14] d [of 21]
      by (simp add: EncodeVarint32_def word_less_nat_alt ucast_or_128 steps div_less_iff_less_mult less_eq_div_iff_mult_less_eq)
  next
    case 5
    then show ?thesis using d [of 7] d [of 14] d [of 21] d [of 28] l
      by (simp add: EncodeVarint32_def word_less_nat_alt ucast_or_128 steps div_less_iff_less_mult less_eq_div_iff_mult_less_eq)
  qed
qed

section \<open>Reading back\<close>

lemma GetVarint32_fallback: "GetVarint32 p = GetVarint32PtrFallback p"
  by (cases p) (auto simp: GetVarint32_def GetVarint32PtrFallback_def Let_def)

lemma unat_word_bound: "unat (v :: 32 word) < 128 ^ 5" "unat (w :: 64 word) < 128 ^ 10"
proof -
  have "unat v < 2 ^ 32" "unat w < 2 ^ 64" using unsigned_less [of v] unsigned_less [of w] by simp_all
  then show "unat v < 128 ^ 5" "unat w < 128 ^ 10" by simp_all
qed

lemma GetVarint32_Encode: "GetVarint32 (EncodeVarint32 v @ r) = Some (v, r)"
proof -
  have "get_varint (shifts 0 5) (0 :: 32 word) (varint (unat v) @ r) = Some (v, r)"
    using get_varint_varint [of "unat v" 5 0 "0 :: 32 word" r] unat_word_bound(1) by simp
  then show ?thesis
    by (simp add: GetVarint32_fallback GetVarint32PtrFallback_def EncodeVarint32_varint numeral_eq_Suc)
qed

lemma GetVarint64_Encode: "GetVarint64 (EncodeVarint64 v @ r) = Some (v, r)"
proof -
  have "get_varint (shifts 0 10) (0 :: 64 word) (varint (unat v) @ r) = Some (v, r)"
    using get_varint_varint [of "unat v" 10 0 "0 :: 64 word" r] unat_word_bound(2) by simp
  then show ?thesis by (simp add: GetVarint64_def EncodeVarint64_varint numeral_eq_Suc)
qed

lemma GetLengthPrefixedSlice_Put:
  assumes "length v < 2 ^ 32"
  shows "GetLengthPrefixedSlice (PutLengthPrefixedSlice [] v @ r) = Some (v, r)"
proof -
  have "unat (word_of_nat (length v) :: 32 word) = length v"
    using assms by (simp add: unat_of_nat take_bit_nat_eq_self)
  then show ?thesis
    by (simp add: GetLengthPrefixedSlice_def PutLengthPrefixedSlice_def PutVarint32_def GetVarint32_Encode)
qed

interpretation f32: wire_code EncodeFixed32
    "\<lambda>b. case DecodeFixed32 b of Ok w \<Rightarrow> Some (w, drop 4 b) | Err _ \<Rightarrow> None" "\<lambda>_. True"
  by unfold_locales (simp add: EncodeFixed32_def DecodeFixed32_def)

interpretation f64: wire_code EncodeFixed64
    "\<lambda>b. case DecodeFixed64 b of Ok w \<Rightarrow> Some (w, drop 8 b) | Err _ \<Rightarrow> None" "\<lambda>_. True"
  by unfold_locales (simp add: EncodeFixed64_def DecodeFixed64_def)

interpretation v32: wire_code EncodeVarint32 GetVarint32 "\<lambda>_. True"
  by unfold_locales (simp add: GetVarint32_Encode)

interpretation v64: wire_code EncodeVarint64 GetVarint64 "\<lambda>_. True"
  by unfold_locales (simp add: GetVarint64_Encode)

interpretation lps: wire_code "PutLengthPrefixedSlice []" GetLengthPrefixedSlice "\<lambda>v. length v < 2 ^ 32"
  by unfold_locales (rule GetLengthPrefixedSlice_Put)

text \<open>The branches for the two byte orders agree.\<close>

lemma and_255: "(ucast (w AND 0xff :: 'w::len word) :: 8 word) = ucast w"
proof -
  have "(255 :: int) = mask 8" by (simp add: mask_eq_exp_minus_1)
  then have "bit (255 :: int) i \<longleftrightarrow> i < 8" for i by (simp only: bit_mask_iff) simp
  then show ?thesis by (intro bit_word_eqI) (auto simp: bit_simps dest: bit_imp_le_length)
qed

lemma EncodeFixed_be: "EncodeFixed32_be v = EncodeFixed32 v" "EncodeFixed64_be w = EncodeFixed64 w"
  by (simp_all add: EncodeFixed32_def EncodeFixed32_be_def EncodeFixed64_def EncodeFixed64_be_def and_255
      eval_nat_numeral drop_bit_drop_bit)

lemma length_varint: "m < 128 ^ n \<Longrightarrow> 0 < n \<Longrightarrow> length (varint m) \<le> n"
proof (induction n arbitrary: m)
  case (Suc n)
  show ?case
  proof (cases "m < 128")
    case False
    then have "m div 128 < 128 ^ n" "0 < n"
      using Suc.prems(1) by (auto simp: div_less_iff_less_mult mult.commute intro: gr0I)
    then show ?thesis using Suc.IH [of "m div 128"] False by (simp add: varint_Cons)
  qed (simp add: varint_Nil)
qed simp

text \<open>
  C32. Integers survive the variable-length encoding, whatever bytes follow: decoding returns the value and
  exactly the following bytes. The encodings fit the buffers of the callers (5 and 10 bytes), and
  \<open>VarintLength\<close>, by which the memtable sizes its entries, is the length of the 32-bit encoding.
\<close>

theorem varint_round_trip:
  "GetVarint32 (EncodeVarint32 v @ r) = Some (v, r) \<and> GetVarint64 (EncodeVarint64 w @ r) = Some (w, r)
    \<and> length (EncodeVarint32 v) \<le> 5 \<and> length (EncodeVarint64 w) \<le> 10
    \<and> VarintLength (ucast v) = length (EncodeVarint32 v)"
proof -
  have "unat (ucast v :: 64 word) = unat v" by (simp add: unsigned_ucast_eq take_bit_nat_eq_self [OF less_trans [OF unsigned_less]])
  then show ?thesis
    using length_varint [OF unat_word_bound(1) [of v]] length_varint [OF unat_word_bound(2) [of w]]
      GetVarint32_Encode [of v r] GetVarint64_Encode [of w r]
    by (simp add: EncodeVarint32_varint EncodeVarint64_varint VarintLength_varint)
qed

end
