(* ===== verification/SkipList.thy ===== *)
theory SkipList
  imports Prelude
begin

text \<open>
  \<open>leveldb/db/skiplist.h\<close> with the random numbers of \<open>leveldb/util/random.h\<close>. Nodes are named by numbers in
  the order of their allocation, 0 is \<open>head_\<close>; the pointers \<open>next_[level]\<close> of all nodes are one function.
  Searches follow pointers until they find their place: they are partial functions, and that they
  return is part of what is proved. The operations are for one thread; the memory barriers of the
  source do not change what it computes.
\<close>

unbundle bit_operations_syntax

section \<open>Random numbers\<close>

definition random_new :: "32 word \<Rightarrow> 32 word" where
  "random_new s = (let seed = s AND 0x7fffffff in if seed = 0 \<or> seed = 2147483647 then 1 else seed)"

text \<open>\<open>Next\<close>: the new seed is also the result.\<close>

definition random_next :: "32 word \<Rightarrow> 32 word" where
  "random_next seed =
     (let M = 2147483647; product = ucast seed * 16807 :: 64 word;
          seed = ucast (drop_bit 31 product + (product AND M)) :: 32 word
      in if seed > 2147483647 then seed - 2147483647 else seed)"

section \<open>Operations\<close>

definition kMaxHeight :: nat where "kMaxHeight = 12"

record 'k skiplist =
  sl_key :: "nat \<Rightarrow> 'k"
  sl_next :: "nat \<Rightarrow> nat \<Rightarrow> nat option"    \<comment> \<open>level, node\<close>
  max_height :: nat
  sl_fresh :: nat
  sl_rnd :: "32 word"

definition skiplist_new :: "'k \<Rightarrow> 'k skiplist" where
  "skiplist_new any = \<lparr>sl_key = \<lambda>_. any, sl_next = \<lambda>_ _. None, max_height = 1, sl_fresh = 1, sl_rnd = random_new 0xdeadbeef\<rparr>"

definition KeyIsAfterNode :: "('k \<Rightarrow> 'k \<Rightarrow> int) \<Rightarrow> 'k skiplist \<Rightarrow> 'k \<Rightarrow> nat option \<Rightarrow> bool" where
  "KeyIsAfterNode compare s key n = (case n of None \<Rightarrow> False | Some x \<Rightarrow> compare (sl_key s x) key < 0)"

text \<open>The loop of \<open>FindGreaterOrEqual\<close>; \<open>prev\<close> is the array of predecessors.\<close>

partial_function (option) find_ge ::
  "('k \<Rightarrow> 'k \<Rightarrow> int) \<Rightarrow> 'k skiplist \<Rightarrow> 'k \<Rightarrow> nat \<Rightarrow> nat \<Rightarrow> (nat \<Rightarrow> nat) \<Rightarrow> (nat option \<times> (nat \<Rightarrow> nat)) option" where
  "find_ge compare s key x level prev =
     (let next = sl_next s level x in
      if KeyIsAfterNode compare s key next then find_ge compare s key (the next) level prev
      else let prev = prev(level := x) in
        if level = 0 then Some (next, prev) else find_ge compare s key x (level - 1) prev)"

text \<open>The array is uninitialised at first: here it points to no node.\<close>

definition FindGreaterOrEqual :: "('k \<Rightarrow> 'k \<Rightarrow> int) \<Rightarrow> 'k skiplist \<Rightarrow> 'k \<Rightarrow> (nat option \<times> (nat \<Rightarrow> nat)) option" where
  "FindGreaterOrEqual compare s key = find_ge compare s key 0 (max_height s - 1) (\<lambda>_. sl_fresh s + 1)"

partial_function (option) find_lt :: "('k \<Rightarrow> 'k \<Rightarrow> int) \<Rightarrow> 'k skiplist \<Rightarrow> 'k \<Rightarrow> nat \<Rightarrow> nat \<Rightarrow> nat option" where
  "find_lt compare s key x level =
     (let next = sl_next s level x in
      if next = None \<or> compare (sl_key s (the next)) key \<ge> 0 then
        if level = 0 then Some x else find_lt compare s key x (level - 1)
      else find_lt compare s key (the next) level)"

definition FindLessThan :: "('k \<Rightarrow> 'k \<Rightarrow> int) \<Rightarrow> 'k skiplist \<Rightarrow> 'k \<Rightarrow> nat option" where
  "FindLessThan compare s key = find_lt compare s key 0 (max_height s - 1)"

partial_function (option) find_last :: "'k skiplist \<Rightarrow> nat \<Rightarrow> nat \<Rightarrow> nat option" where
  "find_last s x level =
     (let next = sl_next s level x in
      if next = None then if level = 0 then Some x else find_last s x (level - 1)
      else find_last s (the next) level)"

definition FindLast :: "'k skiplist \<Rightarrow> nat option" where
  "FindLast s = find_last s 0 (max_height s - 1)"

text \<open>\<open>while (height < kMaxHeight && ((rnd_.Next() % kBranching) == 0)) height++\<close>\<close>

function random_height :: "nat \<Rightarrow> 32 word \<Rightarrow> nat \<times> 32 word" where
  "random_height height seed =
     (if height < kMaxHeight then
        (let seed = random_next seed in
         if seed mod 4 = 0 then random_height (height + 1) seed else (height, seed))
      else (height, seed))"
  by pat_completeness auto
termination by (relation "measure (\<lambda>(h, _). kMaxHeight - h)") auto

declare random_height.simps [simp del]

definition RandomHeight :: "'k skiplist \<Rightarrow> nat \<times> 'k skiplist" where
  "RandomHeight s = (let (h, seed) = random_height 1 (sl_rnd s) in (h, s\<lparr>sl_rnd := seed\<rparr>))"

text \<open>The links of the new node \<open>x\<close>, level by level.\<close>

definition link_level :: "(nat \<Rightarrow> nat) \<Rightarrow> nat \<Rightarrow> nat \<Rightarrow> (nat \<Rightarrow> nat \<Rightarrow> nat option) \<Rightarrow> nat \<Rightarrow> nat \<Rightarrow> nat option" where
  "link_level prev x i next = next(i := (next i)(x := next i (prev i), prev i := Some x))"

text \<open>\<open>Insert\<close>; a search that does not return shows as \<open>Out_of_fuel\<close>.\<close>

definition sl_insert :: "('k \<Rightarrow> 'k \<Rightarrow> int) \<Rightarrow> 'k \<Rightarrow> 'k skiplist \<Rightarrow> 'k skiplist res" where
  "sl_insert compare key s =
     (case FindGreaterOrEqual compare s key of
        None \<Rightarrow> Err Out_of_fuel
      | Some (x, prev) \<Rightarrow>
          if \<not> (x = None \<or> compare key (sl_key s (the x)) \<noteq> 0) then Err Assert_failed
          else
            let (height, s) = RandomHeight s;
                prev = (if height > max_height s then (\<lambda>i. if max_height s \<le> i \<and> i < height then 0 else prev i) else prev);
                s = (if height > max_height s then s\<lparr>max_height := height\<rparr> else s);
                x = sl_fresh s
            in Ok (s\<lparr>sl_key := (sl_key s)(x := key), sl_fresh := x + 1,
                     sl_next := fold (link_level prev x) [0 ..< height] (sl_next s)\<rparr>))"

definition sl_contains :: "('k \<Rightarrow> 'k \<Rightarrow> int) \<Rightarrow> 'k skiplist \<Rightarrow> 'k \<Rightarrow> bool res" where
  "sl_contains compare s key =
     (case FindGreaterOrEqual compare s key of
        None \<Rightarrow> Err Out_of_fuel
      | Some (x, _) \<Rightarrow> Ok (case x of None \<Rightarrow> False | Some n \<Rightarrow> compare key (sl_key s n) = 0))"

text \<open>The iterator is a node or invalid (\<open>None\<close>); its operations return the new position.\<close>

definition iter_next :: "'k skiplist \<Rightarrow> nat option \<Rightarrow> nat option res" where
  "iter_next s node = (case node of None \<Rightarrow> Err Assert_failed | Some n \<Rightarrow> Ok (sl_next s 0 n))"

definition iter_prev :: "('k \<Rightarrow> 'k \<Rightarrow> int) \<Rightarrow> 'k skiplist \<Rightarrow> nat option \<Rightarrow> nat option res" where
  "iter_prev compare s node =
     (case node of
        None \<Rightarrow> Err Assert_failed
      | Some n \<Rightarrow>
          (case FindLessThan compare s (sl_key s n) of
             None \<Rightarrow> Err Out_of_fuel
           | Some m \<Rightarrow> Ok (if m = 0 then None else Some m)))"

definition iter_seek :: "('k \<Rightarrow> 'k \<Rightarrow> int) \<Rightarrow> 'k skiplist \<Rightarrow> 'k \<Rightarrow> nat option res" where
  "iter_seek compare s target =
     (case FindGreaterOrEqual compare s target of None \<Rightarrow> Err Out_of_fuel | Some (x, _) \<Rightarrow> Ok x)"

definition iter_first :: "'k skiplist \<Rightarrow> nat option" where
  "iter_first s = sl_next s 0 0"

definition iter_last :: "'k skiplist \<Rightarrow> nat option res" where
  "iter_last s = (case FindLast s of None \<Rightarrow> Err Out_of_fuel | Some m \<Rightarrow> Ok (if m = 0 then None else Some m))"

section \<open>Linked levels\<close>

fun linked :: "(nat \<Rightarrow> nat option) \<Rightarrow> nat \<Rightarrow> nat list \<Rightarrow> bool" where
  "linked nx a [] \<longleftrightarrow> nx a = None"
| "linked nx a (y # ys) \<longleftrightarrow> nx a = Some y \<and> linked nx y ys"

lemma linked_cong: "(\<And>x. x \<in> set (a # ys) \<Longrightarrow> nx x = nx' x) \<Longrightarrow> linked nx a ys = linked nx' a ys"
  by (induction ys arbitrary: a) auto


lemma last_Cons2: "last (x # y # zs) = last (y # zs)" "last [x] = x"
  by simp_all

lemma linked_off: "linked nx a ys \<Longrightarrow> n \<notin> set (a # ys) \<Longrightarrow> linked (nx(n := v)) a ys"
  by (induction ys arbitrary: a) auto

lemma linked_after: "linked nx a (ps @ x # qs) \<Longrightarrow> linked nx x qs"
  by (induction ps arbitrary: a) auto

lemma linked_insert:
  assumes "linked nx a (ps @ qs)" "distinct (a # ps @ qs)" "n \<notin> set (a # ps @ qs)"
  shows "linked (nx(n := nx (last (a # ps)), last (a # ps) := Some n)) a (ps @ n # qs)"
  using assms
proof (induction ps arbitrary: a)
  case Nil
  have "linked (nx(n := nx a, a := Some n)) n qs = linked (nx(n := nx a)) n qs"
    using Nil by (intro linked_cong) auto
  also have "\<dots> = linked nx a qs"
    using Nil linked_off by (cases qs) auto
  finally show ?case
    using Nil by (simp del: fun_upd_apply add: fun_upd_same)
next
  case (Cons p ps)
  let ?z = "last (p # ps)"
  have "linked (nx(n := nx ?z, ?z := Some n)) p (ps @ n # qs)"
    by (rule Cons.IH) (use Cons.prems in auto)
  moreover have "?z \<in> set (p # ps)"
    by (rule last_in_set) simp
  then have "(nx(n := nx ?z, ?z := Some n)) a = Some p"
    using Cons.prems by (auto simp del: last.simps)
  ultimately show ?case
    by (simp only: append_Cons linked.simps last_Cons2 simp_thms)
qed

section \<open>The search loops\<close>

lemma find_ge_walk:
  assumes "linked (sl_next s l) x bs"
  shows "find_ge compare s key x l prev =
    (let as = takeWhile (\<lambda>y. compare (sl_key s y) key < 0) bs;
         x' = last (x # as); prev' = prev(l := x')
     in if l = 0 then Some (List.find (\<lambda>y. \<not> compare (sl_key s y) key < 0) bs, prev')
        else find_ge compare s key x' (l - 1) prev')"
  using assms
proof (induction bs arbitrary: x)
  case Nil
  then show ?case
    by (subst find_ge.simps) (simp add: KeyIsAfterNode_def Let_def)
next
  case (Cons y bs)
  then have "find_ge compare s key x l prev =
      (if compare (sl_key s y) key < 0 then find_ge compare s key y l prev
       else if l = 0 then Some (Some y, prev(l := x)) else find_ge compare s key x (l - 1) (prev(l := x)))"
    by (subst find_ge.simps) (simp add: KeyIsAfterNode_def Let_def)
  then show ?case
    using Cons.IH [of y] Cons.prems by (cases "l = 0") (simp_all add: Let_def last_Cons2 del: last.simps fun_upd_apply)
qed

lemma find_lt_walk:
  assumes "linked (sl_next s l) x bs"
  shows "find_lt compare s key x l =
    (let x' = last (x # takeWhile (\<lambda>y. compare (sl_key s y) key < 0) bs)
     in if l = 0 then Some x' else find_lt compare s key x' (l - 1))"
  using assms
proof (induction bs arbitrary: x)
  case Nil
  then show ?case
    by (subst find_lt.simps) simp
next
  case (Cons y bs)
  then have "find_lt compare s key x l =
      (if compare (sl_key s y) key < 0 then find_lt compare s key y l
       else if l = 0 then Some x else find_lt compare s key x (l - 1))"
    by (subst find_lt.simps) auto
  then show ?case
    using Cons.IH [of y] Cons.prems by (cases "l = 0") (simp_all add: Let_def last_Cons2 del: last.simps fun_upd_apply)
qed

lemma find_last_walk:
  assumes "linked (sl_next s l) x bs"
  shows "find_last s x l = (if l = 0 then Some (last (x # bs)) else find_last s (last (x # bs)) (l - 1))"
  using assms
  by (induction bs arbitrary: x) (subst find_last.simps; simp add: Let_def; fail)+

section \<open>The invariant\<close>

text \<open>
  \<open>xs\<close> lists the nodes from left to right and \<open>hs\<close> gives their heights: level \<open>l\<close> links exactly the nodes
  that are higher than \<open>l\<close>, in this order.
\<close>

definition level :: "nat list \<Rightarrow> (nat \<Rightarrow> nat) \<Rightarrow> nat \<Rightarrow> nat list" where
  "level xs hs l = filter (\<lambda>x. l < hs x) xs"

definition sl_inv :: "('k \<Rightarrow> 'k \<Rightarrow> int) \<Rightarrow> 'k skiplist \<Rightarrow> nat list \<Rightarrow> (nat \<Rightarrow> nat) \<Rightarrow> bool" where
  "sl_inv compare s xs hs \<longleftrightarrow>
     distinct (0 # xs) \<and> (\<forall>x \<in> set xs. x < sl_fresh s \<and> 0 < hs x \<and> hs x \<le> max_height s) \<and> 0 < sl_fresh s \<and>
     sorted_wrt (\<lambda>x y. compare (sl_key s x) (sl_key s y) < 0) xs \<and>
     0 < max_height s \<and> max_height s \<le> kMaxHeight \<and>
     (\<forall>l < kMaxHeight. linked (sl_next s l) 0 (level xs hs l))"

definition sl_keys :: "'k skiplist \<Rightarrow> nat list \<Rightarrow> 'k list" where
  "sl_keys s xs = map (sl_key s) xs"

lemma level_new: "sl_inv compare (skiplist_new any) [] hs"
  by (simp add: sl_inv_def skiplist_new_def level_def kMaxHeight_def)

lemma level_zero: "sl_inv compare s xs hs \<Longrightarrow> level xs hs 0 = xs"
  by (simp add: sl_inv_def level_def)

lemma level_bottom:
  assumes "sl_inv compare s xs hs"
  shows "linked (sl_next s 0) 0 xs"
proof -
  have "0 < kMaxHeight" "\<forall>l < kMaxHeight. linked (sl_next s l) 0 (level xs hs l)"
    using assms by (simp_all add: sl_inv_def kMaxHeight_def)
  then have "linked (sl_next s 0) 0 (level xs hs 0)"
    by blast
  then show ?thesis
    unfolding level_zero [OF assms] .
qed

lemma last_not_head:
  assumes "sl_inv compare s xs hs" "set ps \<subseteq> set xs"
  shows "last (0 # ps) = 0 \<longleftrightarrow> ps = []"
proof -
  have "0 \<notin> set ps"
    using assms by (auto simp: sl_inv_def)
  then show ?thesis
    by (cases ps rule: rev_cases) auto
qed

lemma level_mono: "set (level xs hs (Suc l)) \<subseteq> set (level xs hs l)"
  by (auto simp: level_def)

lemma fold_link_level:
  "fold (link_level prev x) [0 ..< h] nx = (\<lambda>i. if i < h then (nx i)(x := nx i (prev i), prev i := Some x) else nx i)"
  by (induction h) (auto simp: link_level_def fun_eq_iff)

lemma random_height_bounds:
  assumes "h \<le> kMaxHeight" "random_height h seed = (h', seed')"
  shows "h \<le> h' \<and> h' \<le> kMaxHeight"
  using assms
proof (induction h seed rule: random_height.induct)
  case (1 h seed)
  show ?case
    using "1.prems" "1.IH" [OF _ refl]
    by (subst (asm) random_height.simps) (auto simp: Let_def split: if_splits)
qed

section \<open>Searching and inserting under a comparator\<close>

text \<open>What the list needs of \<open>compare_\<close>: the sign is a strict weak order.\<close>

locale comparator =
  fixes compare :: "'k \<Rightarrow> 'k \<Rightarrow> int"
  assumes cmp_sym: "compare a b < 0 \<longleftrightarrow> compare b a > 0"
    and cmp_trans: "compare a b < 0 \<Longrightarrow> compare b c < 0 \<Longrightarrow> compare a c < 0"
    and cmp_cotrans: "compare a b < 0 \<Longrightarrow> compare a c < 0 \<or> compare c b < 0"
begin

lemma cmp_irrefl: "\<not> compare a a < 0"
  using cmp_sym [of a a] by auto

lemma cmp_eq_cong: "compare a b = 0 \<Longrightarrow> compare a c < 0 \<longleftrightarrow> compare b c < 0"
  using cmp_cotrans [of a c b] cmp_cotrans [of b c a] cmp_sym [of a b] cmp_sym [of b a] by auto

lemma sorted_partition:
  assumes "sorted_wrt (\<lambda>x y. compare (f x) (f y) < 0) xs"
  shows "filter (\<lambda>x. compare (f x) k < 0) xs @ filter (\<lambda>x. \<not> compare (f x) k < 0) xs = xs"
  using assms
proof (induction xs)
  case (Cons x xs)
  have "filter (\<lambda>x. compare (f x) k < 0) xs = []" if "\<not> compare (f x) k < 0"
    using Cons.prems that cmp_trans by (auto simp: filter_empty_conv)
  then show ?case
    using Cons by auto
qed simp

end

text \<open>A comparator of one component of the keys.\<close>

lemma comparator_vimage: "comparator c \<Longrightarrow> comparator (\<lambda>a b. c (f a) (f b))"
  unfolding comparator_def by blast

lemma find_map_key: "map_option f (List.find (\<lambda>y. P (f y)) xs) = List.find P (map f xs)"
  by (induction xs) auto

lemma find_append_none: "(\<And>x. x \<in> set xs \<Longrightarrow> \<not> P x) \<Longrightarrow> List.find P (xs @ ys) = List.find P ys"
  by (induction xs) auto

text \<open>A walk along a level that starts at the head or at a node before the key ends at the last such node.\<close>

lemma walk_end:
  assumes "linked nx a ys" "filter P ys @ filter (\<lambda>y. \<not> P y) ys = ys" "x = a \<or> x \<in> set ys \<and> P x"
  shows "\<exists>bs. linked nx x bs \<and> last (x # takeWhile P bs) = last (a # filter P ys)
    \<and> List.find (\<lambda>y. \<not> P y) bs = List.find (\<lambda>y. \<not> P y) ys"
proof -
  define ps qs where "ps = filter P ys" and "qs = filter (\<lambda>y. \<not> P y) ys"
  have ys: "ys = ps @ qs"
    unfolding ps_def qs_def by (rule assms(2) [symmetric])
  have P: "\<And>y. y \<in> set ps \<Longrightarrow> P y" "\<And>y. y \<in> set qs \<Longrightarrow> \<not> P y"
    by (auto simp: ps_def qs_def)
  have tw: "takeWhile P (as @ qs) = as" if "set as \<subseteq> set ps" for as
    using that P by (cases qs) (auto simp: takeWhile_append)
  show ?thesis
  proof (cases "x = a")
    case True
    have "takeWhile P ys = filter P ys"
      using tw [of ps] unfolding ys [symmetric] by (simp add: ps_def)
    then show ?thesis
      using True assms(1) by (intro exI [of _ ys]) simp
  next
    case False
    then have "x \<in> set ps"
      using assms(3) by (simp add: ps_def)
    then obtain as bs where split: "ps = as @ x # bs"
      by (auto simp: in_set_conv_decomp)
    have "linked nx x (bs @ qs)"
      using assms(1) unfolding ys split by (auto intro: linked_after)
    moreover have "last (x # takeWhile P (bs @ qs)) = last (a # ps)"
      by (subst tw) (auto simp: split)
    moreover have "List.find (\<lambda>y. \<not> P y) (bs @ qs) = List.find (\<lambda>y. \<not> P y) ys"
      using P unfolding ys split by (simp add: find_append_none)
    ultimately show ?thesis
      unfolding ps_def by (intro exI [of _ "bs @ qs"] conjI)
  qed
qed

text \<open>The predecessors of a key: on each level, the last node before it.\<close>

definition pred_at :: "('k \<Rightarrow> 'k \<Rightarrow> int) \<Rightarrow> 'k skiplist \<Rightarrow> nat list \<Rightarrow> (nat \<Rightarrow> nat) \<Rightarrow> 'k \<Rightarrow> nat \<Rightarrow> nat" where
  "pred_at compare s xs hs key l = last (0 # filter (\<lambda>y. compare (sl_key s y) key < 0) (level xs hs l))"

text \<open>Insertion into a sorted list, the abstract operation.\<close>

definition list_insert :: "('k \<Rightarrow> 'k \<Rightarrow> int) \<Rightarrow> 'k \<Rightarrow> 'k list \<Rightarrow> 'k list" where
  "list_insert compare k ks = filter (\<lambda>y. compare y k < 0) ks @ k # filter (\<lambda>y. \<not> compare y k < 0) ks"

context comparator
begin

lemma level_partition:
  assumes "sl_inv compare s xs hs"
  shows "filter (\<lambda>y. compare (sl_key s y) k < 0) (level xs hs l) @ filter (\<lambda>y. \<not> compare (sl_key s y) k < 0) (level xs hs l)
    = level xs hs l"
  using assms by (intro sorted_partition) (simp add: sl_inv_def level_def sorted_wrt_filter)

lemma pred_at_start:
  "pred_at compare s xs hs key (Suc l) = 0 \<or>
   pred_at compare s xs hs key (Suc l) \<in> set (level xs hs l) \<and> compare (sl_key s (pred_at compare s xs hs key (Suc l))) key < 0"
proof -
  define ps where "ps = filter (\<lambda>y. compare (sl_key s y) key < 0) (level xs hs (Suc l))"
  have "last (0 # ps) \<in> set (0 # ps)"
    by (rule last_in_set) simp
  then show ?thesis
    using level_mono [of xs hs l] unfolding pred_at_def ps_def by (auto simp del: last.simps)
qed

lemma find_ge_spec:
  assumes "sl_inv compare s xs hs" "l < kMaxHeight"
    and "x = 0 \<or> x \<in> set (level xs hs l) \<and> compare (sl_key s x) key < 0"
  shows "find_ge compare s key x l prev =
    Some (List.find (\<lambda>y. \<not> compare (sl_key s y) key < 0) xs, \<lambda>i. if i \<le> l then pred_at compare s xs hs key i else prev i)"
  using assms(2,3)
proof (induction l arbitrary: x prev)
  case (0 x prev)
  have "linked (sl_next s 0) 0 (level xs hs 0)"
    using assms(1) 0 by (simp add: sl_inv_def)
  from walk_end [OF this level_partition [OF assms(1)] 0(2)]
  obtain bs where bs: "linked (sl_next s 0) x bs"
    "last (x # takeWhile (\<lambda>y. compare (sl_key s y) key < 0) bs) = pred_at compare s xs hs key 0"
    "List.find (\<lambda>y. \<not> compare (sl_key s y) key < 0) bs = List.find (\<lambda>y. \<not> compare (sl_key s y) key < 0) xs"
    unfolding pred_at_def level_zero [OF assms(1)] by blast
  show ?case
    by (auto simp add: find_ge_walk [OF bs(1)] bs(2,3) Let_def fun_eq_iff simp del: last.simps)
next
  case (Suc l x prev)
  have "linked (sl_next s (Suc l)) 0 (level xs hs (Suc l))"
    using assms(1) Suc.prems by (simp add: sl_inv_def)
  from walk_end [OF this level_partition [OF assms(1)] Suc.prems(2)]
  obtain bs where bs: "linked (sl_next s (Suc l)) x bs"
    "last (x # takeWhile (\<lambda>y. compare (sl_key s y) key < 0) bs) = pred_at compare s xs hs key (Suc l)"
    unfolding pred_at_def by blast
  have "l < kMaxHeight"
    using Suc.prems by simp
  from Suc.IH [OF this pred_at_start] show ?case
    by (auto simp add: find_ge_walk [OF bs(1)] bs(2) Let_def fun_eq_iff le_Suc_eq simp del: last.simps)
qed

lemma FindGreaterOrEqual_spec:
  assumes "sl_inv compare s xs hs"
  shows "\<exists>prev. FindGreaterOrEqual compare s key = Some (List.find (\<lambda>y. \<not> compare (sl_key s y) key < 0) xs, prev)
    \<and> (\<forall>i < max_height s. prev i = pred_at compare s xs hs key i)"
proof -
  have "max_height s - 1 < kMaxHeight"
    using assms by (auto simp: sl_inv_def)
  from find_ge_spec [OF assms this, of 0] show ?thesis
    by (auto simp: FindGreaterOrEqual_def)
qed

lemma FindLessThan_spec:
  assumes "sl_inv compare s xs hs"
  shows "FindLessThan compare s key = Some (last (0 # filter (\<lambda>y. compare (sl_key s y) key < 0) xs))"
proof -
  have run: "find_lt compare s key x l = Some (pred_at compare s xs hs key 0)"
    if "l < kMaxHeight" "x = 0 \<or> x \<in> set (level xs hs l) \<and> compare (sl_key s x) key < 0" for x l
    using that
  proof (induction l arbitrary: x)
    case (0 x)
    have "linked (sl_next s 0) 0 (level xs hs 0)"
      using assms 0 by (simp add: sl_inv_def)
    from walk_end [OF this level_partition [OF assms] 0(2)] show ?case
      by (auto simp: find_lt_walk pred_at_def Let_def simp del: last.simps)
  next
    case (Suc l x)
    have "linked (sl_next s (Suc l)) 0 (level xs hs (Suc l))"
      using assms Suc.prems by (simp add: sl_inv_def)
    from walk_end [OF this level_partition [OF assms] Suc.prems(2)]
    obtain bs where bs: "linked (sl_next s (Suc l)) x bs"
      "last (x # takeWhile (\<lambda>y. compare (sl_key s y) key < 0) bs) = pred_at compare s xs hs key (Suc l)"
      unfolding pred_at_def by blast
    show ?case
      using Suc.IH [OF _ pred_at_start] Suc.prems
      by (simp add: find_lt_walk [OF bs(1)] bs(2) Let_def del: last.simps)
  qed
  have "max_height s - 1 < kMaxHeight"
    using assms by (auto simp: sl_inv_def)
  from run [OF this, of 0] show ?thesis
    unfolding FindLessThan_def pred_at_def level_zero [OF assms] by blast
qed

text \<open>The pointers after an insertion link the new node into every level below its height.\<close>

lemma insert_level:
  assumes inv: "sl_inv compare s xs hs" and l: "l < kMaxHeight" and x: "x = sl_fresh s"
    and p: "l < h \<Longrightarrow> p = pred_at compare s xs hs key l"
    and new: "new = filter (\<lambda>y. compare (sl_key s y) key < 0) xs @ x # filter (\<lambda>y. \<not> compare (sl_key s y) key < 0) xs"
  shows "linked (if l < h then (sl_next s l)(x := sl_next s l p, p := Some x) else sl_next s l) 0 (level new (hs(x := h)) l)"
proof -
  let ?ps = "filter (\<lambda>y. compare (sl_key s y) key < 0) (level xs hs l)"
  let ?qs = "filter (\<lambda>y. \<not> compare (sl_key s y) key < 0) (level xs hs l)"
  have lk: "linked (sl_next s l) 0 (?ps @ ?qs)"
    using inv l unfolding level_partition [OF inv] by (simp add: sl_inv_def)
  have fresh: "x \<notin> set (0 # xs)"
    using inv x by (auto simp: sl_inv_def)
  have d: "distinct (0 # ?ps @ ?qs)" "x \<notin> set (0 # ?ps @ ?qs)"
    using inv fresh unfolding level_partition [OF inv] by (auto simp: sl_inv_def level_def)
  have f: "filter (\<lambda>y. l < (hs(x := h)) y) (filter Q xs) = filter Q (level xs hs l)" for Q
    using fresh by (auto simp: level_def conj_commute intro: filter_cong)
  have "level new (hs(x := h)) l = filter (\<lambda>y. l < (hs(x := h)) y) new"
    by (simp only: level_def)
  also have "\<dots> = (if l < h then ?ps @ x # ?qs else ?ps @ ?qs)"
    unfolding new filter_append filter.simps f by simp
  finally have lv: "level new (hs(x := h)) l = (if l < h then ?ps @ x # ?qs else ?ps @ ?qs)" .
  show ?thesis
  proof (cases "l < h")
    case True
    then show ?thesis
      using linked_insert [OF lk d] p [OF True] unfolding lv pred_at_def by (simp del: last.simps fun_upd_apply)
  qed (use lv lk in simp)
qed

lemma cmp_zero_sym: "compare a b = 0 \<longleftrightarrow> compare b a = 0"
  using cmp_sym [of a b] cmp_sym [of b a] by auto

text \<open>In a sorted list, the first key that is not before \<open>k\<close> is the least such key.\<close>

lemma find_least:
  assumes "sorted_wrt (\<lambda>x y. compare x y < 0) ks" "List.find (\<lambda>y. \<not> compare y k < 0) ks = Some e"
  shows "e \<in> set ks \<and> \<not> compare e k < 0 \<and> (\<forall>y \<in> set ks. \<not> compare y k < 0 \<longrightarrow> \<not> compare y e < 0)"
  using assms
proof (induction ks)
  case (Cons x ks)
  then show ?case
    using cmp_irrefl cmp_trans [of x _ x] by (auto split: if_splits)
qed simp

lemma find_equal:
  assumes "sorted_wrt (\<lambda>x y. compare (f x) (f y) < 0) xs"
  shows "(\<exists>n. List.find (\<lambda>y. \<not> compare (f y) k < 0) xs = Some n \<and> compare k (f n) = 0) \<longleftrightarrow> (\<exists>y \<in> set xs. compare (f y) k = 0)"
  using assms
proof (induction xs)
  case (Cons x xs)
  have "\<not> compare (f y) k = 0" if "0 < compare (f x) k" "y \<in> set xs" for y
    using Cons.prems that cmp_eq_cong [of k "f y" "f x"] cmp_trans [of "f x" "f y" "f x"] cmp_irrefl
      cmp_sym [of k "f x"] cmp_zero_sym [of k "f y"] by auto
  then show ?case
    using Cons cmp_zero_sym [of k "f x"] by (cases "compare (f x) k" "0 :: int" rule: linorder_cases) auto
qed simp

text \<open>Inserting a key that is equal to one in the list fails the assertion of the source.\<close>

lemma sl_insert_dup:
  assumes inv: "sl_inv compare s xs hs" and dup: "k \<in> set (sl_keys s xs)" "compare k key = 0"
  shows "sl_insert compare key s = Err Assert_failed"
proof -
  obtain prev where f: "FindGreaterOrEqual compare s key = Some (List.find (\<lambda>y. \<not> compare (sl_key s y) key < 0) xs, prev)"
    using FindGreaterOrEqual_spec [OF inv] by blast
  have "\<exists>n. List.find (\<lambda>y. \<not> compare (sl_key s y) key < 0) xs = Some n \<and> compare key (sl_key s n) = 0"
    using inv dup by (subst find_equal) (auto simp: sl_inv_def sl_keys_def)
  then show ?thesis
    by (auto simp: sl_insert_def f)
qed

lemma sl_contains_spec:
  assumes inv: "sl_inv compare s xs hs"
  shows "sl_contains compare s key = Ok (\<exists>k \<in> set (sl_keys s xs). compare k key = 0)"
proof -
  obtain prev where f: "FindGreaterOrEqual compare s key = Some (List.find (\<lambda>y. \<not> compare (sl_key s y) key < 0) xs, prev)"
    using FindGreaterOrEqual_spec [OF inv] by blast
  have "(\<exists>n. List.find (\<lambda>y. \<not> compare (sl_key s y) key < 0) xs = Some n \<and> compare key (sl_key s n) = 0)
      \<longleftrightarrow> (\<exists>k \<in> set (sl_keys s xs). compare k key = 0)"
    using inv by (subst find_equal) (auto simp: sl_inv_def sl_keys_def)
  then show ?thesis
    by (auto simp: sl_contains_def f split: option.splits)
qed

lemma sorted_insert:
  assumes "sorted_wrt (\<lambda>x y. compare x y < 0) ks" "\<forall>k' \<in> set ks. compare k' k \<noteq> 0"
  shows "sorted_wrt (\<lambda>x y. compare x y < 0) (list_insert compare k ks)"
proof -
  have "compare k y < 0" if "y \<in> set ks" "\<not> compare y k < 0" for y
    using assms(2) that cmp_sym [of k y] by force
  then show ?thesis
    using assms(1) cmp_trans unfolding list_insert_def by (auto simp: sorted_wrt_append sorted_wrt_filter)
qed

lemma insert_keys:
  assumes inv: "sl_inv compare s xs hs" and x: "x = sl_fresh s"
    and new: "new = filter (\<lambda>y. compare (sl_key s y) key < 0) xs @ x # filter (\<lambda>y. \<not> compare (sl_key s y) key < 0) xs"
  shows "map ((sl_key s)(x := key)) new = list_insert compare key (sl_keys s xs)"
proof -
  have "x \<notin> set xs"
    using inv x by (auto simp: sl_inv_def)
  then have "map ((sl_key s)(x := key)) (filter Q xs) = map (sl_key s) (filter Q xs)" for Q
    by auto
  then show ?thesis
    by (simp add: new list_insert_def sl_keys_def filter_map o_def)
qed

lemma sl_insert_eq:
  assumes inv: "sl_inv compare s xs hs" and d: "\<forall>k \<in> set (sl_keys s xs). compare k key \<noteq> 0"
  obtains h prev seed where "0 < h" "h \<le> kMaxHeight"
    "\<And>i. i < h \<Longrightarrow> prev i = pred_at compare s xs hs key i"
    "sl_insert compare key s = Ok (s\<lparr>sl_rnd := seed, max_height := max h (max_height s),
       sl_key := (sl_key s)(sl_fresh s := key), sl_fresh := sl_fresh s + 1,
       sl_next := fold (link_level prev (sl_fresh s)) [0 ..< h] (sl_next s)\<rparr>)"
proof -
  let ?find = "List.find (\<lambda>y. \<not> compare (sl_key s y) key < 0) xs"
  obtain prev0 where f: "FindGreaterOrEqual compare s key = Some (?find, prev0)"
    and p: "\<And>i. i < max_height s \<Longrightarrow> prev0 i = pred_at compare s xs hs key i"
    using FindGreaterOrEqual_spec [OF inv] by blast
  obtain h seed where rh: "random_height 1 (sl_rnd s) = (h, seed)"
    by fastforce
  then have h: "0 < h" "h \<le> kMaxHeight"
    using random_height_bounds [OF _ rh] by (auto simp: kMaxHeight_def)
  have R: "RandomHeight s = (h, s\<lparr>sl_rnd := seed\<rparr>)"
    by (simp add: RandomHeight_def rh [simplified])
  have "\<not> (\<exists>n. ?find = Some n \<and> compare key (sl_key s n) = 0)"
    using inv d by (subst find_equal) (auto simp: sl_inv_def sl_keys_def)
  then have ok: "?find = None \<or> compare key (sl_key s (the ?find)) \<noteq> 0"
    by (cases ?find) auto
  have top: "pred_at compare s xs hs key i = 0" if "max_height s \<le> i" for i
  proof -
    have "level xs hs i = []"
      using inv that by (auto simp: sl_inv_def level_def filter_empty_conv)
    then show ?thesis
      by (simp add: pred_at_def)
  qed
  let ?prev = "if h > max_height s then (\<lambda>i. if max_height s \<le> i \<and> i < h then 0 else prev0 i) else prev0"
  show ?thesis
    by (rule that [OF h, of ?prev seed])
      (use p top ok in \<open>auto simp: sl_insert_def f R Let_def max_def simp del: fun_upd_apply\<close>)
qed

lemma sl_insert_spec:
  assumes inv: "sl_inv compare s xs hs" and d: "\<forall>k \<in> set (sl_keys s xs). compare k key \<noteq> 0"
  shows "\<exists>s' xs' hs'. sl_insert compare key s = Ok s' \<and> sl_inv compare s' xs' hs'
    \<and> sl_keys s' xs' = list_insert compare key (sl_keys s xs)"
proof -
  obtain h prev seed where h: "0 < h" "h \<le> kMaxHeight" and p: "\<And>i. i < h \<Longrightarrow> prev i = pred_at compare s xs hs key i"
    and ins: "sl_insert compare key s = Ok (s\<lparr>sl_rnd := seed, max_height := max h (max_height s),
       sl_key := (sl_key s)(sl_fresh s := key), sl_fresh := sl_fresh s + 1,
       sl_next := fold (link_level prev (sl_fresh s)) [0 ..< h] (sl_next s)\<rparr>)"
    by (rule sl_insert_eq [OF assms]) (rule that)
  let ?x = "sl_fresh s"
  define new where "new = filter (\<lambda>y. compare (sl_key s y) key < 0) xs @ ?x # filter (\<lambda>y. \<not> compare (sl_key s y) key < 0) xs"
  have keys: "map ((sl_key s)(?x := key)) new = list_insert compare key (sl_keys s xs)"
    using insert_keys [OF inv refl new_def] .
  have "sorted_wrt (\<lambda>x y. compare x y < 0) (map ((sl_key s)(?x := key)) new)"
    unfolding keys using inv d by (intro sorted_insert) (simp_all add: sl_inv_def sl_keys_def sorted_wrt_map)
  then have sorted: "sorted_wrt (\<lambda>x y. compare (((sl_key s)(?x := key)) x) (((sl_key s)(?x := key)) y) < 0) new"
    by (simp only: sorted_wrt_map)
  have fresh: "distinct (0 # new)" "set new = insert ?x (set xs)"
    using inv by (auto simp: sl_inv_def new_def)
  have "linked (fold (link_level prev ?x) [0 ..< h] (sl_next s) l) 0 (level new (hs(?x := h)) l)" if "l < kMaxHeight" for l
    using insert_level [OF inv that refl p new_def] by (simp add: fold_link_level del: fun_upd_apply)
  then have "sl_inv compare (s\<lparr>sl_rnd := seed, max_height := max h (max_height s), sl_key := (sl_key s)(?x := key),
      sl_fresh := ?x + 1, sl_next := fold (link_level prev ?x) [0 ..< h] (sl_next s)\<rparr>) new (hs(?x := h))"
    using sorted fresh h inv unfolding sl_inv_def by auto
  then show ?thesis
    using ins keys by (fastforce simp: sl_keys_def)
qed

text \<open>The iterator: every operation that the source allows succeeds and moves to the node the order dictates.\<close>

lemma iter_seek_spec:
  assumes "sl_inv compare s xs hs"
  shows "iter_seek compare s target = Ok (List.find (\<lambda>y. \<not> compare (sl_key s y) target < 0) xs)"
  using FindGreaterOrEqual_spec [OF assms, of target] by (auto simp: iter_seek_def)

lemma iter_next_spec:
  assumes "sl_inv compare s (ps @ n # qs) hs"
  shows "iter_next s (Some n) = Ok (case qs of [] \<Rightarrow> None | m # _ \<Rightarrow> Some m)"
  using linked_after [OF level_bottom [OF assms]] by (cases qs) (auto simp: iter_next_def)

lemma iter_prev_spec:
  assumes "sl_inv compare s (ps @ n # qs) hs"
  shows "iter_prev compare s (Some n) = Ok (if ps = [] then None else Some (last ps))"
proof -
  have "\<not> compare (sl_key s q) (sl_key s n) < 0" if "q \<in> set qs" for q
    using assms that cmp_trans [of "sl_key s n" "sl_key s q" "sl_key s n"] cmp_irrefl
    by (auto simp: sl_inv_def sorted_wrt_append)
  then have "filter (\<lambda>y. compare (sl_key s y) (sl_key s n) < 0) (ps @ n # qs) = ps"
    using assms cmp_irrefl by (auto simp: sl_inv_def sorted_wrt_append filter_empty_conv filter_id_conv)
  moreover have "last (0 # ps) = 0 \<longleftrightarrow> ps = []"
    by (rule last_not_head [OF assms]) auto
  ultimately show ?thesis
    unfolding iter_prev_def option.case FindLessThan_spec [OF assms] by auto
qed

end

lemma takeWhile_True: "takeWhile (\<lambda>_. True) xs = xs"
  by (induction xs) simp_all

lemma linked_from:
  assumes "linked nx a ys" "x = a \<or> x \<in> set ys"
  shows "\<exists>bs. linked nx x bs \<and> last (x # bs) = last (a # ys)"
  using walk_end [of nx a ys "\<lambda>_. True" x] assms unfolding takeWhile_True by (auto simp del: last.simps)

lemma find_last_spec:
  assumes inv: "sl_inv compare s xs hs" and "l < kMaxHeight" "x = 0 \<or> x \<in> set (level xs hs l)"
  shows "find_last s x l = Some (last (0 # xs))"
  using assms(2,3)
proof (induction l arbitrary: x)
  case (0 x)
  have "x = 0 \<or> x \<in> set xs"
    using 0 level_zero [OF inv] by simp
  from linked_from [OF level_bottom [OF inv] this] show ?case
    by (auto simp: find_last_walk simp del: last.simps)
next
  case (Suc l x)
  have "linked (sl_next s (Suc l)) 0 (level xs hs (Suc l))"
    using inv Suc.prems by (simp add: sl_inv_def)
  then obtain bs where bs: "linked (sl_next s (Suc l)) x bs" "last (x # bs) = last (0 # level xs hs (Suc l))"
    using linked_from Suc.prems(2) by blast
  have "last (0 # level xs hs (Suc l)) \<in> set (0 # level xs hs (Suc l))"
    by (rule last_in_set) simp
  then have "last (0 # level xs hs (Suc l)) = 0 \<or> last (0 # level xs hs (Suc l)) \<in> set (level xs hs l)"
    using level_mono [of xs hs l] by (auto simp del: last.simps)
  then show ?case
    using Suc.IH Suc.prems by (simp add: find_last_walk [OF bs(1)] bs(2) del: last.simps)
qed

lemma iter_last_spec:
  assumes inv: "sl_inv compare s xs hs"
  shows "iter_last s = Ok (if xs = [] then None else Some (last xs))"
proof -
  have "FindLast s = Some (last (0 # xs))"
    using find_last_spec [OF inv, of "max_height s - 1" 0] inv by (auto simp: FindLast_def sl_inv_def)
  then show ?thesis
    using last_not_head [OF inv, of xs] unfolding iter_last_def by (simp split: if_splits)
qed

text \<open>The keys in the order an iterator delivers them.\<close>

partial_function (option) sl_collect :: "'k skiplist \<Rightarrow> nat option \<Rightarrow> 'k list option" where
  "sl_collect s node =
     (case node of
        None \<Rightarrow> Some []
      | Some n \<Rightarrow> Option.bind (sl_collect s (sl_next s 0 n)) (\<lambda>ks. Some (sl_key s n # ks)))"

lemma sl_collect_linked: "linked (sl_next s 0) a ys \<Longrightarrow> sl_collect s (sl_next s 0 a) = Some (map (sl_key s) ys)"
  by (induction ys arbitrary: a) (subst sl_collect.simps; simp)+

lemma sl_collect_spec:
  assumes "sl_inv compare s xs hs"
  shows "sl_collect s (iter_first s) = Some (sl_keys s xs)"
  unfolding iter_first_def sl_keys_def by (rule sl_collect_linked [OF level_bottom [OF assms]])

context comparator
begin

lemma sl_insert_many:
  assumes "sl_inv compare s xs hs" "sorted_wrt (\<lambda>a b. compare a b \<noteq> 0) ks"
    and "\<forall>a \<in> set (sl_keys s xs). \<forall>b \<in> set ks. compare a b \<noteq> 0"
  shows "\<exists>s' xs' hs'. res_fold (sl_insert compare) ks s = Ok s' \<and> sl_inv compare s' xs' hs'
    \<and> sl_keys s' xs' = fold (list_insert compare) ks (sl_keys s xs)"
  using assms
proof (induction ks arbitrary: s xs hs)
  case (Cons k ks)
  then obtain s1 xs1 hs1 where 1: "sl_insert compare k s = Ok s1" "sl_inv compare s1 xs1 hs1"
    "sl_keys s1 xs1 = list_insert compare k (sl_keys s xs)"
    using sl_insert_spec [of s xs hs k] by auto
  have "\<forall>a \<in> set (sl_keys s1 xs1). \<forall>b \<in> set ks. compare a b \<noteq> 0"
    using Cons.prems unfolding 1(3) list_insert_def by auto
  from Cons.IH [OF 1(2) _ this] show ?case
    using Cons.prems 1 by simp
qed auto

lemma list_insert_many:
  assumes "sorted_wrt (\<lambda>a b. compare a b \<noteq> 0) ks" "sorted_wrt (\<lambda>a b. compare a b < 0) js"
    and "\<forall>a \<in> set js. \<forall>b \<in> set ks. compare a b \<noteq> 0"
  shows "sorted_wrt (\<lambda>a b. compare a b < 0) (fold (list_insert compare) ks js)
    \<and> set (fold (list_insert compare) ks js) = set ks \<union> set js"
  using assms
proof (induction ks arbitrary: js)
  case (Cons k ks)
  have s: "set (list_insert compare k js) = insert k (set js)"
    by (auto simp: list_insert_def)
  show ?case
    using Cons.IH [of "list_insert compare k js"] Cons.prems sorted_insert [of js k] unfolding s by auto
qed simp

end

text \<open>
  C33. The skip list is a sorted list. Inserting keys no two of which are equal succeeds, whatever heights the
  random numbers give; an iterator from the first node delivers exactly the keys, in order; \<open>Contains\<close> and
  \<open>Seek\<close> return and find what the order dictates; and a key that is already there is refused.
\<close>

theorem skiplist_refines:
  assumes "comparator compare" "sorted_wrt (\<lambda>a b. compare a b \<noteq> 0) ks"
  shows "\<exists>s out. res_fold (sl_insert compare) ks (skiplist_new any) = Ok s
    \<and> sl_collect s (iter_first s) = Some out
    \<and> sorted_wrt (\<lambda>a b. compare a b < 0) out \<and> set out = set ks
    \<and> (\<forall>k. sl_contains compare s k = Ok (\<exists>k' \<in> set ks. compare k' k = 0)
        \<and> (\<exists>n. iter_seek compare s k = Ok n \<and> map_option (sl_key s) n = List.find (\<lambda>k'. \<not> compare k' k < 0) out)
        \<and> ((\<exists>k' \<in> set ks. compare k' k = 0) \<longrightarrow> sl_insert compare k s = Err Assert_failed))"
proof -
  note [simp] = sl_keys_def
  obtain s xs hs where s: "res_fold (sl_insert compare) ks (skiplist_new any) = Ok s" and inv: "sl_inv compare s xs hs"
    and keys: "sl_keys s xs = fold (list_insert compare) ks []"
    using comparator.sl_insert_many [OF assms(1) level_new assms(2), of any] by auto
  have out: "sorted_wrt (\<lambda>a b. compare a b < 0) (sl_keys s xs)" "set (sl_keys s xs) = set ks"
    using comparator.list_insert_many [OF assms, of "[]"] unfolding keys by simp_all
  have "sl_insert compare k s = Err Assert_failed" if "k' \<in> set ks" "compare k' k = 0" for k k'
    by (rule comparator.sl_insert_dup [OF assms(1) inv _ that(2)]) (use that(1) out(2) in simp)
  then show ?thesis
    using s out sl_collect_spec [OF inv] comparator.sl_contains_spec [OF assms(1) inv]
      comparator.iter_seek_spec [OF assms(1) inv] find_map_key [of "sl_key s"]
    by (intro exI [of _ s] exI [of _ "sl_keys s xs"]) auto
qed

theorem skiplist_refines_witness:
  "comparator (\<lambda>a b :: int. a - b)
    \<and> (\<exists>s out. res_fold (sl_insert (\<lambda>a b. a - b)) [5, 2, 9 :: int] (skiplist_new 0) = Ok s
        \<and> sl_collect s (iter_first s) = Some out \<and> sorted_wrt (<) out \<and> set out = {2, 5, 9}
        \<and> sl_contains (\<lambda>a b. a - b) s 9 = Ok True \<and> sl_insert (\<lambda>a b. a - b) 2 s = Err Assert_failed)"
proof -
  have c: "comparator (\<lambda>a b :: int. a - b)"
    by unfold_locales auto
  have "sorted_wrt (\<lambda>a b. a - b \<noteq> 0) [5, 2, 9 :: int]"
    by simp
  from skiplist_refines [OF c this, of 0] obtain s out where
    s: "res_fold (sl_insert (\<lambda>a b. a - b)) [5, 2, 9 :: int] (skiplist_new 0) = Ok s"
      "sl_collect s (iter_first s) = Some out" "sorted_wrt (\<lambda>a b. a - b < 0) out" "set out = set [5, 2, 9 :: int]"
      "sl_contains (\<lambda>a b. a - b) s 9 = Ok (\<exists>k' \<in> set [5, 2, 9 :: int]. k' - 9 = 0)"
      "(\<exists>k' \<in> set [5, 2, 9 :: int]. k' - 2 = 0) \<longrightarrow> sl_insert (\<lambda>a b. a - b) 2 s = Err Assert_failed"
    by blast
  have "sorted_wrt (<) out" "set out = {2, 5, 9}"
    using s(3,4) by (auto simp: sorted_wrt_iff_nth_less)
  then show ?thesis
    using c s by (intro conjI exI [of _ s] exI [of _ out]) auto
qed

end
