(* ===== verification/DbFormat.thy ===== *)
theory DbFormat
  imports LCoding SkipList CLib
begin

text \<open>
  Keys of leveldb: \<open>Slice::compare\<close> (\<open>include/leveldb/slice.h\<close>), the bytewise comparator
  (\<open>util/comparator.cc\<close>), internal keys and their order (\<open>db/dbformat.{h,cc}\<close>). An internal key is a user key
  followed by eight bytes that hold a sequence number and a type; internal keys with the same user key
  are ordered by decreasing sequence number. The comparators satisfy the contract \<open>comparator\<close> of the
  skip list, and the keys that shorten index entries stay between their neighbours.
\<close>

unbundle bit_operations_syntax

section \<open>Bytewise order\<close>

definition slice_compare :: "bytes \<Rightarrow> bytes \<Rightarrow> int" where
  "slice_compare a b =
     (let min_len = (if length a < length b then length a else length b);
          r = memcmp (take min_len a) (take min_len b)
      in if r = 0 then if length a < length b then -1 else if length a > length b then 1 else r else r)"

lemma memcmp_Cons: "memcmp (x # xs) (y # ys) = (if x < y then -1 else if x > y then 1 else memcmp xs ys)"
  by (auto simp: memcmp_def)

lemma slice_compare_simps [simp]:
  "slice_compare [] [] = 0" "slice_compare [] (y # ys) = -1" "slice_compare (x # xs) [] = 1"
  "slice_compare (x # xs) (y # ys) = (if x < y then -1 else if x > y then 1 else slice_compare xs ys)"
  by (auto simp: slice_compare_def Let_def memcmp_Cons)

text \<open>It is the order of the keys of the store.\<close>

lemma slice_compare_less: "slice_compare a b < 0 \<longleftrightarrow> a < b"
  by (induction a arbitrary: b; case_tac b) auto

lemma slice_compare_sym: "slice_compare a b = - slice_compare b a"
  by (induction a arbitrary: b; case_tac b) auto

lemma slice_compare_0: "slice_compare a b = 0 \<longleftrightarrow> a = b"
  by (induction a arbitrary: b; case_tac b) auto

lemma slice_compare_trans: "slice_compare a b < 0 \<Longrightarrow> slice_compare b c < 0 \<Longrightarrow> slice_compare a c < 0"
proof (induction a arbitrary: b c)
  case Nil
  then show ?case by (cases b; cases c) auto
next
  case (Cons x a)
  then show ?case by (cases b; cases c) (auto split: if_splits)
qed

interpretation bytewise: comparator slice_compare
proof
  fix a b c :: bytes
  show "slice_compare a b < 0 \<longleftrightarrow> 0 < slice_compare b a"
    using slice_compare_sym [of a b] by simp
  show "slice_compare a b < 0 \<Longrightarrow> slice_compare b c < 0 \<Longrightarrow> slice_compare a c < 0"
    by (rule slice_compare_trans)
  show "slice_compare a b < 0 \<Longrightarrow> slice_compare a c < 0 \<or> slice_compare c b < 0"
    using slice_compare_trans [of c a b] slice_compare_0 [of a c] slice_compare_sym [of a c]
    by (cases "slice_compare a c" "0 :: int" rule: linorder_cases) auto
qed

text \<open>The loop of \<open>FindShortestSeparator\<close>.\<close>

function diff_loop :: "bytes \<Rightarrow> bytes \<Rightarrow> nat \<Rightarrow> nat \<Rightarrow> nat" where
  "diff_loop start limit min_length i =
     (if i < min_length \<and> start ! i = limit ! i then diff_loop start limit min_length (i + 1) else i)"
  by pat_completeness auto
termination by (relation "measure (\<lambda>(_, _, n, i). n - i)") auto

declare diff_loop.simps [simp del]

definition FindShortestSeparator :: "bytes \<Rightarrow> bytes \<Rightarrow> bytes res" where
  "FindShortestSeparator start limit =
     (let min_length = min (length start) (length limit);
          i = diff_loop start limit min_length 0
      in if i \<ge> min_length then Ok start
         else
           let diff_byte = start ! i in
           if diff_byte < 0xff \<and> unat diff_byte + 1 < unat (limit ! i) then
             let start = take (i + 1) (start[i := start ! i + 1]) in
             if slice_compare start limit < 0 then Ok start else Err Assert_failed
           else Ok start)"

function successor_loop :: "bytes \<Rightarrow> nat \<Rightarrow> bytes" where
  "successor_loop key i =
     (if i < length key then
        if key ! i \<noteq> 0xff then take (i + 1) (key[i := key ! i + 1]) else successor_loop key (i + 1)
      else key)"
  by pat_completeness auto
termination by (relation "measure (\<lambda>(k, i). length k - i)") auto

declare successor_loop.simps [simp del]

definition FindShortSuccessor :: "bytes \<Rightarrow> bytes" where
  "FindShortSuccessor key = successor_loop key 0"

lemma slice_compare_prefix [simp]: "slice_compare (p @ a) (p @ b) = slice_compare a b"
  by (induction p) auto

lemma diff_loop_spec:
  assumes "i \<le> m" "m = min (length a) (length b)" "take i a = take i b" "diff_loop a b m i = j"
  shows "j \<le> m \<and> take j a = take j b \<and> (j < m \<longrightarrow> a ! j \<noteq> b ! j)"
  using assms
proof (induction a b m i rule: diff_loop.induct)
  case (1 a b m i)
  show ?case
  proof (cases "i < m \<and> a ! i = b ! i")
    case True
    then have "take (i + 1) a = take (i + 1) b"
      using "1.prems" by (simp add: take_Suc_conv_app_nth)
    then show ?thesis
      using "1.IH" [OF True] "1.prems" True by (auto simp: diff_loop.simps [of a b _ i])
  next
    case False
    then have "j = i"
      using "1.prems"(4) by (subst (asm) diff_loop.simps) auto
    then show ?thesis
      using False "1.prems" by auto
  qed
qed

text \<open>The place where two strings differ splits both of them.\<close>

lemma split_at_diff:
  assumes "i < min (length a) (length b)" "take i a = take i b"
  shows "a = take i b @ a ! i # drop (Suc i) a" "b = take i b @ b ! i # drop (Suc i) b"
  using assms id_take_nth_drop [of i a] id_take_nth_drop [of i b] by simp_all

lemma byte_next:
  assumes "x \<noteq> (0xff :: 8 word)"
  shows "unat (x + 1) = unat x + 1" "x < x + 1"
proof -
  have "unat x \<noteq> unat (0xff :: 8 word)"
    using assms by (metis unsigned_word_eqI)
  then have "unat x + unat (1 :: 8 word) < 2 ^ LENGTH(8)"
    using unsigned_less [of x, where 'a = nat] by simp
  then show "unat (x + 1) = unat x + 1"
    using unat_add_lem [of x 1] by simp
  then show "x < x + 1"
    by (simp add: word_less_nat_alt)
qed

lemma byte_succ:
  assumes "unat (x :: 8 word) + 1 < unat (y :: 8 word)"
  shows "x < x + 1" "x + 1 < y"
proof -
  have "x \<noteq> 0xff"
    using assms unsigned_less [of y, where 'a = nat] by auto
  then show "x < x + 1" "x + 1 < y"
    using assms byte_next [of x] by (simp_all add: word_less_nat_alt)
qed

lemma FindShortestSeparator_spec:
  assumes "slice_compare start limit < 0"
  shows "\<exists>s. FindShortestSeparator start limit = Ok s \<and> slice_compare start s \<le> 0 \<and> slice_compare s limit < 0
    \<and> length s \<le> length start"
proof -
  define i where "i = diff_loop start limit (min (length start) (length limit)) 0"
  have i: "i \<le> min (length start) (length limit)" "take i start = take i limit"
    using diff_loop_spec [OF _ refl _ i_def [symmetric]] by simp_all
  show ?thesis
  proof (cases "i < min (length start) (length limit) \<and> start ! i < 0xff \<and> unat (start ! i) + 1 < unat (limit ! i)")
    case False
    then have "FindShortestSeparator start limit = Ok start"
      by (auto simp: FindShortestSeparator_def i_def [symmetric] Let_def)
    then show ?thesis
      using assms slice_compare_0 [of start start] by simp
  next
    case True
    define s where "s = take i limit @ [start ! i + 1]"
    have s: "take (i + 1) (start[i := start ! i + 1]) = s"
      using True i(2) by (simp add: s_def take_Suc_conv_app_nth)
    have "slice_compare start s < 0"
      using split_at_diff(1) [of i start limit] i(2) True byte_succ(1) [of "start ! i" "limit ! i"]
      unfolding s_def by (metis slice_compare_prefix slice_compare_simps(4) neg_less_0_iff_less zero_less_one)
    moreover have "slice_compare s limit < 0"
      using split_at_diff(2) [of i start limit] i(2) True byte_succ(2) [of "start ! i" "limit ! i"]
      unfolding s_def by (metis slice_compare_prefix slice_compare_simps(4) neg_less_0_iff_less zero_less_one)
    moreover have "length s \<le> length start"
      using True by (simp add: s_def)
    ultimately show ?thesis
      using True s by (auto simp: FindShortestSeparator_def i_def [symmetric] Let_def)
  qed
qed

lemma successor_loop_spec:
  assumes "i \<le> length k"
  shows "slice_compare k (successor_loop k i) \<le> 0 \<and> length (successor_loop k i) \<le> length k"
  using assms
proof (induction k i rule: successor_loop.induct)
  case (1 k i)
  show ?case
  proof (cases "i < length k \<and> k ! i \<noteq> 0xff")
    case True
    then have x: "k ! i < k ! i + 1"
      using byte_next(2) by blast
    have r: "successor_loop k i = take i k @ [k ! i + 1]"
      using True by (simp add: successor_loop.simps [of k i] take_Suc_conv_app_nth)
    have "slice_compare (take i k @ k ! i # drop (Suc i) k) (take i k @ [k ! i + 1]) < 0"
      using x by simp
    then show ?thesis
      using True id_take_nth_drop [of i k] unfolding r by simp
  next
    case False
    then show ?thesis
      using 1 slice_compare_0 [of k k] by (cases "i < length k") (simp_all add: successor_loop.simps [of k])
  qed
qed

section \<open>Internal keys\<close>

datatype ValueType = kTypeDeletion | kTypeValue

fun type_code :: "ValueType \<Rightarrow> 64 word" where
  "type_code kTypeDeletion = 0"
| "type_code kTypeValue = 1"

definition kMaxSequenceNumber :: "64 word" where
  "kMaxSequenceNumber = 0xffffffffffffff"

definition PackSequenceAndType :: "64 word \<Rightarrow> ValueType \<Rightarrow> 64 word res" where
  "PackSequenceAndType seq t =
     (if seq \<le> kMaxSequenceNumber then Ok (push_bit 8 seq OR type_code t) else Err Assert_failed)"

record ParsedInternalKey =
  pk_user_key :: bytes
  pk_sequence :: "64 word"
  pk_type :: ValueType

definition AppendInternalKey :: "bytes \<Rightarrow> ParsedInternalKey \<Rightarrow> bytes res" where
  "AppendInternalKey result key =
     res_bind (PackSequenceAndType (pk_sequence key) (pk_type key)) (\<lambda>tag. Ok (PutFixed64 (result @ pk_user_key key) tag))"

definition ExtractUserKey :: "bytes \<Rightarrow> bytes res" where
  "ExtractUserKey k = (if 8 \<le> length k then Ok (take (length k - 8) k) else Err Assert_failed)"

text \<open>\<open>ExtractValueType\<close> casts the last byte of the tag, whatever it is; here it returns that byte.\<close>

definition ExtractValueType :: "bytes \<Rightarrow> 8 word res" where
  "ExtractValueType k =
     (if 8 \<le> length k then res_bind (DecodeFixed64 (drop (length k - 8) k)) (\<lambda>num. Ok (ucast (num AND 0xff)))
      else Err Assert_failed)"

definition ParseInternalKey :: "bytes \<Rightarrow> ParsedInternalKey option res" where
  "ParseInternalKey k =
     (let n = length k in
      if n < 8 then Ok None
      else res_bind (DecodeFixed64 (drop (n - 8) k)) (\<lambda>num.
        let c = ucast (num AND 0xff) :: 8 word in
        Ok (if c = 0 then Some \<lparr>pk_user_key = take (n - 8) k, pk_sequence = drop_bit 8 num, pk_type = kTypeDeletion\<rparr>
            else if c = 1 then Some \<lparr>pk_user_key = take (n - 8) k, pk_sequence = drop_bit 8 num, pk_type = kTypeValue\<rparr>
            else None)))"

text \<open>\<open>InternalKeyComparator\<close>, with the bytewise user comparator.\<close>

definition InternalKeyCompare :: "bytes \<Rightarrow> bytes \<Rightarrow> int res" where
  "InternalKeyCompare akey bkey =
     res_bind (ExtractUserKey akey) (\<lambda>a. res_bind (ExtractUserKey bkey) (\<lambda>b.
       let r = slice_compare a b in
       if r = 0 then
         res_bind (DecodeFixed64 (drop (length akey - 8) akey)) (\<lambda>anum.
         res_bind (DecodeFixed64 (drop (length bkey - 8) bkey)) (\<lambda>bnum.
           Ok (if anum > bnum then -1 else if anum < bnum then 1 else r)))
       else Ok r))"

definition assert_less :: "bytes \<Rightarrow> bytes \<Rightarrow> unit res" where
  "assert_less a b = res_bind (InternalKeyCompare a b) (\<lambda>r. if r < 0 then Ok () else Err Assert_failed)"

definition InternalFindShortestSeparator :: "bytes \<Rightarrow> bytes \<Rightarrow> bytes res" where
  "InternalFindShortestSeparator start limit =
     res_bind (ExtractUserKey start) (\<lambda>user_start. res_bind (ExtractUserKey limit) (\<lambda>user_limit.
     res_bind (FindShortestSeparator user_start user_limit) (\<lambda>tmp.
       if length tmp < length user_start \<and> slice_compare user_start tmp < 0 then
         res_bind (PackSequenceAndType kMaxSequenceNumber kTypeValue) (\<lambda>tag.
           let tmp = PutFixed64 tmp tag in
           res_bind (assert_less start tmp) (\<lambda>_. res_bind (assert_less tmp limit) (\<lambda>_. Ok tmp)))
       else Ok start)))"

definition InternalFindShortSuccessor :: "bytes \<Rightarrow> bytes res" where
  "InternalFindShortSuccessor key =
     res_bind (ExtractUserKey key) (\<lambda>user_key.
       let tmp = FindShortSuccessor user_key in
       if length tmp < length user_key \<and> slice_compare user_key tmp < 0 then
         res_bind (PackSequenceAndType kMaxSequenceNumber kTypeValue) (\<lambda>tag.
           let tmp = PutFixed64 tmp tag in res_bind (assert_less key tmp) (\<lambda>_. Ok tmp))
       else Ok key)"

text \<open>\<open>LookupKey\<close>: the three slices of its buffer.\<close>

record LookupKey =
  memtable_key :: bytes
  internal_key :: bytes
  user_key :: bytes

definition lookup_key_new :: "bytes \<Rightarrow> 64 word \<Rightarrow> LookupKey res" where
  "lookup_key_new ukey s =
     res_bind (PackSequenceAndType s kTypeValue) (\<lambda>tag.
       let prefix = EncodeVarint32 (word_of_nat (length ukey + 8));
           dst = prefix @ ukey @ EncodeFixed64 tag;
           kstart = drop (length prefix) dst
       in Ok \<lparr>memtable_key = dst, internal_key = kstart, user_key = take (length kstart - 8) kstart\<rparr>)"

section \<open>The order of internal keys\<close>

text \<open>
  The order as a total function: by user key, then by decreasing tag. On keys of at least eight bytes,
  the ones the program builds, the assertions hold and this is what the source computes.
\<close>

definition user_part :: "bytes \<Rightarrow> bytes" where "user_part k = take (length k - 8) k"
definition tag_part :: "bytes \<Rightarrow> 64 word" where "tag_part k = le_word (take 8 (drop (length k - 8) k))"

definition ikey_compare :: "bytes \<Rightarrow> bytes \<Rightarrow> int" where
  "ikey_compare a b =
     (let r = slice_compare (user_part a) (user_part b) in
      if r = 0 then if tag_part a > tag_part b then -1 else if tag_part a < tag_part b then 1 else 0 else r)"

lemma InternalKeyCompare_eq:
  assumes "8 \<le> length a" "8 \<le> length b"
  shows "InternalKeyCompare a b = Ok (ikey_compare a b)"
  using assms by (simp add: InternalKeyCompare_def ExtractUserKey_def DecodeFixed64_def ikey_compare_def user_part_def
      tag_part_def Let_def)

lemma ikey_compare_iff:
  "ikey_compare a b < 0 \<longleftrightarrow>
     slice_compare (user_part a) (user_part b) < 0 \<or> user_part a = user_part b \<and> tag_part a > tag_part b"
  "ikey_compare a b = 0 \<longleftrightarrow> user_part a = user_part b \<and> tag_part a = tag_part b"
  using slice_compare_0 [of "user_part a" "user_part b"] by (auto simp: ikey_compare_def Let_def)

lemma ikey_cotrans:
  assumes "ikey_compare a b < 0"
  shows "ikey_compare a c < 0 \<or> ikey_compare c b < 0"
proof (cases "slice_compare (user_part a) (user_part c)" "0 :: int" rule: linorder_cases)
  case less
  then show ?thesis
    by (simp add: ikey_compare_iff)
next
  case equal
  then have "user_part c = user_part a"
    by (simp add: slice_compare_0)
  then show ?thesis
    using assms by (auto simp: ikey_compare_iff)
next
  case greater
  then have "slice_compare (user_part c) (user_part a) < 0"
    by (subst bytewise.cmp_sym)
  then have "slice_compare (user_part c) (user_part b) < 0"
    using assms slice_compare_trans unfolding ikey_compare_iff by metis
  then show ?thesis
    by (simp add: ikey_compare_iff)
qed

lemma ikey_sym: "ikey_compare a b = - ikey_compare b a"
proof -
  have "slice_compare (user_part a) (user_part b) = - slice_compare (user_part b) (user_part a)"
    by (rule slice_compare_sym)
  then show ?thesis
    by (auto simp: ikey_compare_def Let_def)
qed

lemma ikey_trans:
  assumes "ikey_compare a b < 0" "ikey_compare b c < 0"
  shows "ikey_compare a c < 0"
  using assms slice_compare_trans [of "user_part a" "user_part b" "user_part c"]
  unfolding ikey_compare_iff by (elim disjE conjE) auto

interpretation ikey: comparator ikey_compare
proof
  show "ikey_compare a b < 0 \<longleftrightarrow> 0 < ikey_compare b a" for a b
    using ikey_sym [of a b] by simp
qed (fact ikey_trans, fact ikey_cotrans)

lemma length_EncodeFixed64 [simp]: "length (EncodeFixed64 w) = 8"
  by (simp add: EncodeFixed64_def)

lemma DecodeFixed64_Encode [simp]: "DecodeFixed64 (EncodeFixed64 w @ r) = Ok w" "DecodeFixed64 (EncodeFixed64 w) = Ok w"
  by (simp_all add: DecodeFixed64_def EncodeFixed64_def)

lemma pack_max: obtains tag where "PackSequenceAndType kMaxSequenceNumber kTypeValue = Ok tag"
  by (simp add: PackSequenceAndType_def)

lemma ikey_parts [simp]: "user_part (u @ EncodeFixed64 t) = u" "tag_part (u @ EncodeFixed64 t) = t"
  by (simp_all add: user_part_def tag_part_def EncodeFixed64_def)

lemma ikey_split: "8 \<le> length k \<Longrightarrow> k = user_part k @ drop (length k - 8) k"
  by (simp add: user_part_def)

lemma assert_less_Ok: "8 \<le> length a \<Longrightarrow> 8 \<le> length b \<Longrightarrow> ikey_compare a b < 0 \<Longrightarrow> assert_less a b = Ok ()"
  by (simp add: assert_less_def InternalKeyCompare_eq)

lemma FindShortestSeparator_same: "FindShortestSeparator u u = Ok u"
  using diff_loop_spec [OF _ refl, of 0 u u] by (auto simp: FindShortestSeparator_def Let_def)

text \<open>Tags keep sequence number and type apart.\<close>

lemma bit_max_seq:
  assumes "s \<le> kMaxSequenceNumber" "bit s i"
  shows "i < 56"
proof -
  have "unat s < 2 ^ 56"
    using assms(1) by (simp add: kMaxSequenceNumber_def word_le_nat_alt)
  then have "unat (take_bit 56 s) = unat s"
    by (simp only: unsigned_take_bit_eq take_bit_nat_eq_self)
  then have "take_bit 56 s = s"
    by (rule unsigned_word_eqI)
  then show ?thesis
    using assms(2) by (metis bit_take_bit_iff)
qed

lemma bit_type_code: "bit (type_code t) i \<longleftrightarrow> i = 0 \<and> t = kTypeValue"
  by (cases t) (auto simp: bit_1_iff)

lemma tag_fields:
  assumes "s \<le> kMaxSequenceNumber"
  shows "drop_bit 8 (push_bit 8 s OR type_code t) = s" "ucast ((push_bit 8 s OR type_code t) AND 0xff) = (ucast (type_code t) :: 8 word)"
    and "push_bit 8 s OR type_code t = push_bit 8 s + type_code t"
proof -
  show "drop_bit 8 (push_bit 8 s OR type_code t) = s"
    using bit_max_seq [OF assms] by (intro bit_word_eqI) (auto simp: bit_simps bit_type_code)
  have "ucast (push_bit 8 s OR type_code t) = (ucast (type_code t) :: 8 word)"
    by (intro bit_word_eqI) (auto simp: bit_simps bit_type_code)
  then show "ucast ((push_bit 8 s OR type_code t) AND 0xff) = (ucast (type_code t) :: 8 word)"
    by (simp only: and_255)
  show "push_bit 8 s OR type_code t = push_bit 8 s + type_code t"
    by (rule disjunctive_add [symmetric]) (auto simp: bit_simps bit_type_code)
qed

lemma unat_tag:
  assumes "s \<le> kMaxSequenceNumber"
  shows "unat (push_bit 8 s OR type_code t) = 256 * unat s + unat (type_code t)"
proof -
  have s: "unat s < 2 ^ 56"
    using assms by (simp add: kMaxSequenceNumber_def word_le_nat_alt)
  then have p: "unat (push_bit 8 s) = 256 * unat s"
    by (simp add: push_bit_eq_mult unat_mult_lem [THEN iffD1])
  have "unat (type_code t) \<le> 1"
    by (cases t) simp_all
  then show ?thesis
    unfolding tag_fields(3) [OF assms] using s p by (subst unat_add_lem [THEN iffD1]) simp_all
qed

lemma ParseInternalKey_Append:
  assumes "pk_sequence k \<le> kMaxSequenceNumber"
  shows "\<exists>r. AppendInternalKey [] k = Ok r \<and> ParseInternalKey r = Ok (Some k)
    \<and> ExtractUserKey r = Ok (pk_user_key k) \<and> ExtractValueType r = Ok (ucast (type_code (pk_type k)))"
proof -
  let ?tag = "push_bit 8 (pk_sequence k) OR type_code (pk_type k)"
  have r: "AppendInternalKey [] k = Ok (pk_user_key k @ EncodeFixed64 ?tag)"
    using assms by (simp add: AppendInternalKey_def PackSequenceAndType_def PutFixed64_def)
  show ?thesis
    unfolding r using tag_fields(1,2) [OF assms, of "pk_type k"]
    by (cases "pk_type k"; cases k) (auto simp: ParseInternalKey_def ExtractUserKey_def ExtractValueType_def Let_def)
qed

text \<open>
  C35. Shortened index keys separate. For internal keys with \<open>start\<close> before \<open>limit\<close>, \<open>FindShortestSeparator\<close> fails
  none of its assertions and returns an internal key that is not longer than \<open>start\<close>, not before \<open>start\<close>
  and before \<open>limit\<close>.
\<close>

theorem internal_separator:
  assumes "8 \<le> length start" "8 \<le> length limit" "ikey_compare start limit < 0"
  shows "\<exists>s. InternalFindShortestSeparator start limit = Ok s \<and> ikey_compare start s \<le> 0 \<and> ikey_compare s limit < 0
    \<and> 8 \<le> length s \<and> length s \<le> length start"
proof -
  let ?u = "user_part start" and ?l = "user_part limit"
  have stay: ?thesis if "InternalFindShortestSeparator start limit = Ok start"
    using that assms ikey_sym [of start start] by simp
  have ex: "ExtractUserKey start = Ok ?u" "ExtractUserKey limit = Ok ?l" "length ?u = length start - 8"
    using assms by (simp_all add: ExtractUserKey_def user_part_def)
  show ?thesis
  proof (cases "slice_compare ?u ?l < 0")
    case False
    then have "?u = ?l"
      using assms(3) by (simp add: ikey_compare_iff)
    then show ?thesis
      using ex FindShortestSeparator_same by (intro stay) (simp add: InternalFindShortestSeparator_def)
  next
    case True
    then obtain t where t: "FindShortestSeparator ?u ?l = Ok t" "slice_compare t ?l < 0"
      using FindShortestSeparator_spec by blast
    show ?thesis
    proof (cases "length t < length ?u \<and> slice_compare ?u t < 0")
      case False
      then show ?thesis
        using ex t by (intro stay) (auto simp: InternalFindShortestSeparator_def)
    next
      case True
      obtain tag where tag: "PackSequenceAndType kMaxSequenceNumber kTypeValue = Ok tag"
        by (rule pack_max)
      define s where "s = t @ EncodeFixed64 tag"
      have c: "ikey_compare start s < 0" "ikey_compare s limit < 0" "8 \<le> length s"
        using True t(2) unfolding s_def ikey_compare_iff ikey_parts by simp_all
      have "InternalFindShortestSeparator start limit = Ok s"
        using assms c True ex t tag
        by (simp add: InternalFindShortestSeparator_def PutFixed64_def s_def [symmetric] assert_less_Ok Let_def)
      then show ?thesis
        using c True ex(3) by (auto simp: s_def)
    qed
  qed
qed

theorem internal_separator_witness:
  "\<exists>s. InternalFindShortestSeparator ([1, 2, 3] @ EncodeFixed64 5) ([1, 9] @ EncodeFixed64 7) = Ok s
    \<and> ikey_compare ([1, 2, 3] @ EncodeFixed64 5) s \<le> 0 \<and> ikey_compare s ([1, 9] @ EncodeFixed64 7) < 0"
proof -
  have "ikey_compare ([1, 2, 3] @ EncodeFixed64 5) ([1, 9] @ EncodeFixed64 7) < 0"
    unfolding ikey_compare_iff ikey_parts by simp
  then show ?thesis
    using internal_separator [of "[1, 2, 3] @ EncodeFixed64 5" "[1, 9] @ EncodeFixed64 7"] by auto
qed

lemma internal_successor:
  assumes "8 \<le> length key"
  shows "\<exists>s. InternalFindShortSuccessor key = Ok s \<and> ikey_compare key s \<le> 0 \<and> 8 \<le> length s \<and> length s \<le> length key"
proof -
  let ?u = "user_part key" and ?t = "FindShortSuccessor (user_part key)"
  have ex: "ExtractUserKey key = Ok ?u" "length ?u = length key - 8"
    using assms by (simp_all add: ExtractUserKey_def user_part_def)
  show ?thesis
  proof (cases "length ?t < length ?u \<and> slice_compare ?u ?t < 0")
    case False
    then have "InternalFindShortSuccessor key = Ok key"
      using ex by (auto simp: InternalFindShortSuccessor_def Let_def)
    then show ?thesis
      using assms ikey_sym [of key key] by simp
  next
    case True
    obtain tag where tag: "PackSequenceAndType kMaxSequenceNumber kTypeValue = Ok tag"
      by (rule pack_max)
    define s where "s = ?t @ EncodeFixed64 tag"
    have c: "ikey_compare key s < 0" "8 \<le> length s"
      using True unfolding s_def ikey_compare_iff ikey_parts by simp_all
    have "InternalFindShortSuccessor key = Ok s"
      using assms c True ex tag
      by (simp add: InternalFindShortSuccessor_def PutFixed64_def s_def [symmetric] assert_less_Ok Let_def)
    then show ?thesis
      using c True ex(2) by (auto simp: s_def)
  qed
qed

end
