(* ===== verification/MemTable.thy ===== *)
theory MemTable
  imports DbFormat
begin

text \<open>
  \<open>leveldb/db/memtable.{h,cc}\<close>: writes are kept in a skip list of byte strings, each a length-prefixed
  internal key followed by a length-prefixed value. The lemmas show that lookups return the newest write
  of a key that the reader's sequence number admits.
\<close>

unbundle bit_operations_syntax

section \<open>Operations\<close>

text \<open>
  \<open>GetLengthPrefixedSlice(const char*)\<close>: the slice and the bytes behind it. A prefix that is no number, or
  one that points behind the entry, is undefined behaviour of the source.
\<close>

definition mem_slice :: "bytes \<Rightarrow> (bytes \<times> bytes) res" where
  "mem_slice data =
     (case GetVarint32 data of
        None \<Rightarrow> Err Undefined
      | Some (len, p) \<Rightarrow> if unat len \<le> length p then Ok (take (unat len) p, drop (unat len) p) else Err Undefined)"

definition KeyComparator :: "bytes \<Rightarrow> bytes \<Rightarrow> int res" where
  "KeyComparator aptr bptr =
     res_bind (mem_slice aptr) (\<lambda>(a, _). res_bind (mem_slice bptr) (\<lambda>(b, _). InternalKeyCompare a b))"

definition EncodeKey :: "bytes \<Rightarrow> bytes" where
  "EncodeKey target = PutVarint32 [] (word_of_nat (length target)) @ target"

text \<open>The comparator as the skip list uses it, on entries: lemma \<open>KeyComparator_eq\<close> below relates the two.\<close>

definition entry_ikey :: "bytes \<Rightarrow> bytes" where
  "entry_ikey e = (case mem_slice e of Ok (k, _) \<Rightarrow> k | Err _ \<Rightarrow> [])"

definition mem_compare :: "bytes \<Rightarrow> bytes \<Rightarrow> int" where
  "mem_compare a b = ikey_compare (entry_ikey a) (entry_ikey b)"

type_synonym memtable = "bytes skiplist"

definition memtable_new :: memtable where "memtable_new = skiplist_new []"

definition mem_entry :: "64 word \<Rightarrow> ValueType \<Rightarrow> bytes \<Rightarrow> bytes \<Rightarrow> bytes" where
  "mem_entry s type key val =
     EncodeVarint32 (word_of_nat (length key + 8)) @ key @ EncodeFixed64 (push_bit 8 s OR type_code type) @
     EncodeVarint32 (word_of_nat (length val)) @ val"

definition mem_add :: "64 word \<Rightarrow> ValueType \<Rightarrow> bytes \<Rightarrow> bytes \<Rightarrow> memtable \<Rightarrow> memtable res" where
  "mem_add s type key val mem =
     (let key_size = length key; val_size = length val; internal_key_size = key_size + 8;
          encoded_len = VarintLength (word_of_nat internal_key_size) + internal_key_size + VarintLength (word_of_nat val_size) + val_size;
          buf = mem_entry s type key val
      in if length buf \<noteq> encoded_len then Err Assert_failed else sl_insert mem_compare buf mem)"

datatype get_result = Found bytes | Deleted | Absent

text \<open>The part of \<open>Get\<close> that reads the entry found.\<close>

definition read_entry :: "bytes \<Rightarrow> bytes \<Rightarrow> get_result res" where
  "read_entry e ukey =
     (case GetVarint32 e of
        None \<Rightarrow> Err Undefined
      | Some (key_length, key_ptr) \<Rightarrow>
          if slice_compare (take (unat (key_length - 8)) key_ptr) ukey = 0 then
            res_bind (DecodeFixed64 (drop (unat (key_length - 8)) key_ptr)) (\<lambda>tag.
              if tag AND 0xff = type_code kTypeValue then
                res_bind (mem_slice (drop (unat key_length) key_ptr)) (\<lambda>(v, _). Ok (Found v))
              else if tag AND 0xff = type_code kTypeDeletion then Ok Deleted
              else Ok Absent)
          else Ok Absent)"

definition mem_get :: "memtable \<Rightarrow> LookupKey \<Rightarrow> get_result res" where
  "mem_get mem key =
     res_bind (iter_seek mem_compare mem (memtable_key key)) (\<lambda>node.
       case node of None \<Rightarrow> Ok Absent | Some n \<Rightarrow> read_entry (sl_key mem n) (user_key key))"

text \<open>\<open>MemTableIterator\<close>: \<open>key\<close> and \<open>value\<close> at a node, and seeking an internal key.\<close>

definition mem_iter_seek :: "memtable \<Rightarrow> bytes \<Rightarrow> nat option res" where
  "mem_iter_seek mem k = iter_seek mem_compare mem (EncodeKey k)"

definition mem_iter_key :: "memtable \<Rightarrow> nat \<Rightarrow> bytes res" where
  "mem_iter_key mem n = res_bind (mem_slice (sl_key mem n)) (\<lambda>(k, _). Ok k)"

definition mem_iter_value :: "memtable \<Rightarrow> nat \<Rightarrow> bytes res" where
  "mem_iter_value mem n = res_bind (mem_slice (sl_key mem n)) (\<lambda>(_, r). res_bind (mem_slice r) (\<lambda>(v, _). Ok v))"

section \<open>Entries\<close>

lemma mem_slice_Encode: "length k < 2 ^ 32 \<Longrightarrow> mem_slice (EncodeVarint32 (word_of_nat (length k)) @ k @ r) = Ok (k, r)"
  by (simp add: mem_slice_def GetVarint32_Encode unsigned_of_nat take_bit_nat_eq_self)

lemma mem_slice_entry:
  assumes "length k + 8 < 2 ^ 32"
  shows "mem_slice (mem_entry s t k v) = Ok (k @ EncodeFixed64 (push_bit 8 s OR type_code t), EncodeVarint32 (word_of_nat (length v)) @ v)"
  using mem_slice_Encode [of "k @ EncodeFixed64 (push_bit 8 s OR type_code t)"] assms by (simp add: mem_entry_def)

lemma entry_ikey_entry [simp]:
  "length k + 8 < 2 ^ 32 \<Longrightarrow> entry_ikey (mem_entry s t k v) = k @ EncodeFixed64 (push_bit 8 s OR type_code t)"
  by (simp add: entry_ikey_def mem_slice_entry)

lemma VarintLength_32: "n < 2 ^ 32 \<Longrightarrow> VarintLength (word_of_nat n) = length (EncodeVarint32 (word_of_nat n))"
  by (simp add: VarintLength_varint EncodeVarint32_varint unsigned_of_nat take_bit_nat_eq_self)

interpretation mem: comparator mem_compare
  unfolding mem_compare_def by (rule comparator_vimage) (rule ikey.comparator_axioms)

text \<open>On entries, the assertions of the comparison hold.\<close>

lemma KeyComparator_eq:
  assumes "length k + 8 < 2 ^ 32" "length k' + 8 < 2 ^ 32"
  shows "KeyComparator (mem_entry s t k v) (mem_entry s' t' k' v')
    = Ok (mem_compare (mem_entry s t k v) (mem_entry s' t' k' v'))"
  using assms by (simp add: KeyComparator_def mem_slice_entry mem_compare_def InternalKeyCompare_eq)

section \<open>The history of writes\<close>

text \<open>
  A write is a sequence number, a type, a key and a value. A lookup at sequence number \<open>s\<close> is answered by
  the last write of the key that is not newer than \<open>s\<close>.
\<close>

type_synonym write_op = "64 word \<times> ValueType \<times> bytes \<times> bytes"

fun op_ok :: "write_op \<Rightarrow> bool" where
  "op_ok (s, t, k, v) \<longleftrightarrow> s \<le> kMaxSequenceNumber \<and> length k + 8 < 2 ^ 32 \<and> length v < 2 ^ 32"

fun op_entry :: "write_op \<Rightarrow> bytes" where
  "op_entry (s, t, k, v) = mem_entry s t k v"

definition ops_ok :: "write_op list \<Rightarrow> bool" where
  "ops_ok ops \<longleftrightarrow> list_all op_ok ops \<and> sorted_wrt (\<lambda>a b. fst a < fst b) ops"

fun op_result :: "write_op \<Rightarrow> get_result" where
  "op_result (s, kTypeValue, k, v) = Found v"
| "op_result (s, kTypeDeletion, k, v) = Deleted"

definition op_key :: "write_op \<Rightarrow> bytes" where
  "op_key x = fst (snd (snd x))"

definition visible :: "bytes \<Rightarrow> 64 word \<Rightarrow> write_op \<Rightarrow> bool" where
  "visible k s x \<longleftrightarrow> op_key x = k \<and> fst x \<le> s"

definition ops_get :: "write_op list \<Rightarrow> bytes \<Rightarrow> 64 word \<Rightarrow> get_result" where
  "ops_get ops k s = (case List.find (visible k s) (rev ops) of None \<Rightarrow> Absent | Some x \<Rightarrow> op_result x)"

definition mem_rep :: "write_op list \<Rightarrow> memtable \<Rightarrow> bool" where
  "mem_rep ops mem \<longleftrightarrow> (\<exists>xs hs. sl_inv mem_compare mem xs hs \<and> set (sl_keys mem xs) = op_entry ` set ops)"

lemma mem_rep_new: "mem_rep [] memtable_new"
  using level_new [of mem_compare "[]"] unfolding mem_rep_def memtable_new_def sl_keys_def
  by (intro exI [of _ "[]"] exI [of _ "\<lambda>_. 0"]) simp

lemma tag_less_iff:
  assumes "s \<le> kMaxSequenceNumber" "s' \<le> kMaxSequenceNumber"
  shows "push_bit 8 s OR type_code t < push_bit 8 s' OR type_code t' \<longleftrightarrow>
    s < s' \<or> s = s' \<and> type_code t < type_code t'"
proof -
  have "unat (type_code u) \<le> 1" for u
    by (cases u) simp_all
  from this [of t] this [of t'] show ?thesis
    unfolding word_less_nat_alt word_unat_eq_iff unat_tag [OF assms(1)] unat_tag [OF assms(2)] by linarith
qed

text \<open>Entries compare by key, then by decreasing sequence number.\<close>

lemma entry_compare:
  assumes "op_ok (s, t, k, v)" "op_ok (s', t', k', v')"
  shows "mem_compare (mem_entry s t k v) (mem_entry s' t' k' v') < 0 \<longleftrightarrow>
      slice_compare k k' < 0 \<or> k = k' \<and> (s' < s \<or> s = s' \<and> type_code t' < type_code t)"
    and "mem_compare (mem_entry s t k v) (mem_entry s' t' k' v') = 0 \<Longrightarrow> s = s'"
proof -
  show "mem_compare (mem_entry s t k v) (mem_entry s' t' k' v') < 0 \<longleftrightarrow>
      slice_compare k k' < 0 \<or> k = k' \<and> (s' < s \<or> s = s' \<and> type_code t' < type_code t)"
    using assms tag_less_iff [of s' s t' t] unfolding mem_compare_def ikey_compare_iff by auto
  assume "mem_compare (mem_entry s t k v) (mem_entry s' t' k' v') = 0"
  then have "push_bit 8 s OR type_code t = push_bit 8 s' OR type_code t'"
    using assms by (simp add: mem_compare_def ikey_compare_iff)
  then show "s = s'"
    using assms tag_fields(1) [of s t] tag_fields(1) [of s' t'] by simp
qed

lemma mem_add_spec:
  assumes rep: "mem_rep ops mem" and ok: "ops_ok (ops @ [(s, t, k, v)])"
  shows "\<exists>mem'. mem_add s t k v mem = Ok mem' \<and> mem_rep (ops @ [(s, t, k, v)]) mem'"
proof -
  obtain xs hs where inv: "sl_inv mem_compare mem xs hs" and keys: "set (sl_keys mem xs) = op_entry ` set ops"
    using rep by (auto simp: mem_rep_def)
  have len: "length k + 8 < 2 ^ 32" "length v < 2 ^ 32"
    using ok by (auto simp: ops_ok_def)
  have "mem_compare e (mem_entry s t k v) \<noteq> 0" if "e \<in> set (sl_keys mem xs)" for e
  proof -
    from that keys obtain x where "e = op_entry x" "x \<in> set ops"
      by auto
    then obtain s' t' k' v' where e: "e = mem_entry s' t' k' v'" "(s', t', k', v') \<in> set ops"
      by (cases x) simp
    then have "s' < s" "op_ok (s', t', k', v')" "op_ok (s, t, k, v)"
      using ok by (auto simp: ops_ok_def sorted_wrt_append list_all_iff simp del: op_ok.simps)
    then show ?thesis
      using entry_compare(2) [of s' t' k' v' s t k v] e by auto
  qed
  then obtain mem' xs' hs' where ins: "sl_insert mem_compare (mem_entry s t k v) mem = Ok mem'"
    "sl_inv mem_compare mem' xs' hs'" "sl_keys mem' xs' = list_insert mem_compare (mem_entry s t k v) (sl_keys mem xs)"
    using mem.sl_insert_spec [OF inv, of "mem_entry s t k v"] by blast
  have "length (mem_entry s t k v)
      = VarintLength (word_of_nat (length k + 8)) + (length k + 8) + VarintLength (word_of_nat (length v)) + length v"
    unfolding VarintLength_32 [OF len(1)] VarintLength_32 [OF len(2)] by (simp add: mem_entry_def)
  then have "mem_add s t k v mem = Ok mem'"
    unfolding mem_add_def Let_def by (simp only: ins(1) if_False simp_thms)
  moreover have "set (sl_keys mem' xs') = op_entry ` set (ops @ [(s, t, k, v)])"
    unfolding ins(3) list_insert_def using keys by auto
  ultimately show ?thesis
    using ins(2) by (auto simp: mem_rep_def)
qed

section \<open>Lookups\<close>

lemma lookup_key_Ok:
  assumes "s \<le> kMaxSequenceNumber"
  shows "lookup_key_new k s = Ok \<lparr>memtable_key = EncodeVarint32 (word_of_nat (length k + 8)) @ k @ EncodeFixed64 (push_bit 8 s OR type_code kTypeValue),
    internal_key = k @ EncodeFixed64 (push_bit 8 s OR type_code kTypeValue), user_key = k\<rparr>"
  using assms by (simp add: lookup_key_new_def PackSequenceAndType_def Let_def)

text \<open>The target of a lookup compares like an entry.\<close>

lemma entry_ikey_target:
  "length k + 8 < 2 ^ 32 \<Longrightarrow>
    entry_ikey (EncodeVarint32 (word_of_nat (length k + 8)) @ k @ EncodeFixed64 tag) = k @ EncodeFixed64 tag"
  using mem_slice_Encode [of "k @ EncodeFixed64 tag" "[]"] by (simp add: entry_ikey_def)

lemma compare_target:
  assumes "op_ok (s', t', k', v')" "op_ok (s, kTypeValue, k, [])"
  shows "mem_compare (mem_entry s' t' k' v') (EncodeVarint32 (word_of_nat (length k + 8)) @ k @ EncodeFixed64 (push_bit 8 s OR type_code kTypeValue)) < 0
    \<longleftrightarrow> slice_compare k' k < 0 \<or> k' = k \<and> s < s'"
proof -
  have "\<not> type_code kTypeValue < type_code t'"
    by (cases t') simp_all
  then show ?thesis
    using entry_compare(1) [OF assms] assms
    unfolding mem_compare_def by (simp only: op_ok.simps entry_ikey_target entry_ikey_entry) blast
qed

lemma tag_type: "(push_bit 8 s OR type_code t) AND 0xff = type_code t"
proof -
  have "w AND 0xff = take_bit 8 w" for w :: "64 word"
    by (simp add: take_bit_eq_mask mask_eq_exp_minus_1)
  then show ?thesis
    by (intro bit_word_eqI) (auto simp: bit_simps bit_type_code)
qed

text \<open>Reading the entry of a write gives its result for its own key, nothing for another one.\<close>

lemma read_entry_op:
  assumes "op_ok (s, t, k, v)"
  shows "read_entry (mem_entry s t k v) k' = Ok (if k = k' then op_result (s, t, k, v) else Absent)"
proof -
  define n :: "32 word" where "n = word_of_nat (length k + 8)"
  define tag where "tag = push_bit 8 s OR type_code t"
  have n: "unat (n - 8) = length k" "unat n = length k + 8"
  proof -
    show "unat (n - 8) = length k"
      using assms by (simp add: n_def unsigned_of_nat take_bit_nat_eq_self)
    show "unat n = length k + 8"
      unfolding n_def using assms by (subst unsigned_of_nat) (simp add: take_bit_nat_eq_self)
  qed
  have v: "mem_slice (EncodeVarint32 (word_of_nat (length v)) @ v) = Ok (v, [])"
    using mem_slice_Encode [of v "[]"] assms by simp
  have e: "mem_entry s t k v = EncodeVarint32 n @ k @ EncodeFixed64 tag @ EncodeVarint32 (word_of_nat (length v)) @ v"
    by (simp only: mem_entry_def n_def tag_def)
  have "read_entry (mem_entry s t k v) k' =
      (if k = k' then if tag AND 0xff = type_code kTypeValue then Ok (Found v)
         else if tag AND 0xff = type_code kTypeDeletion then Ok Deleted else Ok Absent
       else Ok Absent)"
    by (simp add: read_entry_def e GetVarint32_Encode n v slice_compare_0)
  then show ?thesis
    unfolding tag_def tag_type by (cases t) simp_all
qed

lemma find_rev_max:
  assumes "sorted_wrt (\<lambda>a b. f a < (f b :: 'a :: linorder)) xs" "List.find P (rev xs) = Some x"
  shows "x \<in> set xs \<and> P x \<and> (\<forall>y \<in> set xs. P y \<longrightarrow> f y \<le> f x)"
  using assms
proof (induction xs rule: rev_induct)
  case (snoc y xs)
  then show ?case
    by (auto simp: sorted_wrt_append less_imp_le split: if_splits)
qed simp

lemma fst_inj_ops: "ops_ok ops \<Longrightarrow> x \<in> set ops \<Longrightarrow> y \<in> set ops \<Longrightarrow> fst x = fst y \<Longrightarrow> x = y"
proof -
  assume "ops_ok ops" and xy: "x \<in> set ops" "y \<in> set ops" "fst x = fst y"
  then have "distinct (map fst ops)"
    by (auto simp: ops_ok_def strict_sorted_iff sorted_wrt_map [symmetric])
  then show "x = y"
    using xy by (auto simp: distinct_map inj_on_def)
qed

lemma ops_get_none: "(\<And>x. x \<in> set ops \<Longrightarrow> \<not> visible k s x) \<Longrightarrow> ops_get ops k s = Absent"
  using find_None_iff [of "visible k s" "rev ops"] by (auto simp: ops_get_def)

lemma ops_get_newest:
  assumes ok: "ops_ok ops" and y: "y \<in> set ops" "visible k s y"
    and newest: "\<And>x. x \<in> set ops \<Longrightarrow> visible k s x \<Longrightarrow> \<not> fst y < fst x"
  shows "ops_get ops k s = op_result y"
proof -
  obtain x where x: "List.find (visible k s) (rev ops) = Some x"
    using y by (metis find_None_iff option.exhaust set_rev)
  have "sorted_wrt (\<lambda>a b. fst a < fst b) ops"
    using ok by (simp add: ops_ok_def)
  from find_rev_max [OF this x] y have m: "x \<in> set ops" "visible k s x" "fst y \<le> fst x"
    by blast+
  then have "fst x = fst y"
    using newest [OF m(1,2)] by simp
  then have "x = y"
    by (rule fst_inj_ops [OF ok m(1) y(1)])
  then show ?thesis
    using x by (simp add: ops_get_def)
qed

text \<open>The target of a lookup, and how the entries of writes compare with it and with each other.\<close>

definition mem_target :: "bytes \<Rightarrow> 64 word \<Rightarrow> bytes" where
  "mem_target k s = EncodeVarint32 (word_of_nat (length k + 8)) @ k @ EncodeFixed64 (push_bit 8 s OR type_code kTypeValue)"

lemma op_before_target:
  assumes "op_ok x" "op_ok (s, kTypeValue, k, [])"
  shows "mem_compare (op_entry x) (mem_target k s) < 0 \<longleftrightarrow> slice_compare (op_key x) k < 0 \<or> op_key x = k \<and> s < fst x"
  using assms compare_target unfolding mem_target_def op_key_def by (cases x) simp

lemma op_before_op:
  assumes "op_ok x" "op_ok y"
  shows "slice_compare (op_key x) (op_key y) < 0 \<or> op_key x = op_key y \<and> fst y < fst x \<Longrightarrow> mem_compare (op_entry x) (op_entry y) < 0"
  using assms entry_compare(1) unfolding op_key_def by (cases x; cases y) auto

text \<open>The first entry at or after the target is the newest visible write of the key, if there is one.\<close>

lemma seek_newest:
  assumes sorted: "sorted_wrt (\<lambda>a b. mem_compare a b < 0) ks" and keys: "set ks = op_entry ` set ops"
    and ok: "ops_ok ops" and q: "op_ok (s, kTypeValue, k, [])"
  shows "(case List.find (\<lambda>e. \<not> mem_compare e (mem_target k s) < 0) ks of None \<Rightarrow> Ok Absent | Some e \<Rightarrow> read_entry e k)
    = Ok (ops_get ops k s)"
proof -
  have okx: "op_ok x" if "x \<in> set ops" for x
    using ok that by (auto simp: ops_ok_def list_all_iff)
  have after: "\<not> mem_compare (op_entry x) (mem_target k s) < 0" if "x \<in> set ops" "visible k s x" for x
    using that op_before_target [OF okx q] bytewise.cmp_irrefl by (auto simp: visible_def)
  show ?thesis
  proof (cases "List.find (\<lambda>e. \<not> mem_compare e (mem_target k s) < 0) ks")
    case None
    then have "\<not> visible k s x" if "x \<in> set ops" for x
      using after [OF that] keys that by (auto simp: find_None_iff)
    then show ?thesis
      using None by (simp add: ops_get_none)
  next
    case (Some e)
    note f = mem.find_least [OF sorted Some]
    then have ge: "\<not> mem_compare e (mem_target k s) < 0" and "e \<in> op_entry ` set ops"
      using keys by simp_all
    then obtain y where y: "y \<in> set ops" "e = op_entry y"
      by blast
    have least: "\<not> mem_compare (op_entry x) e < 0" if "x \<in> set ops" "visible k s x" for x
      using f after [OF that] that(1) keys by blast
    have read: "read_entry e k = Ok (if op_key y = k then op_result y else Absent)"
      using read_entry_op okx [OF y(1)] unfolding y(2) op_key_def by (cases y) simp
    have "ops_get ops k s = (if op_key y = k then op_result y else Absent)"
    proof (cases "op_key y = k")
      case True
      then have "visible k s y"
        using ge op_before_target [OF okx [OF y(1)] q] y(2) by (auto simp: visible_def)
      moreover have "\<not> fst y < fst x" if "x \<in> set ops" "visible k s x" for x
        using least [OF that] op_before_op [OF okx [OF that(1)] okx [OF y(1)]] True that(2) y(2) by (auto simp: visible_def)
      ultimately show ?thesis
        using ops_get_newest [OF ok y(1)] True by simp
    next
      case False
      have "\<not> visible k s x" if "x \<in> set ops" for x
        using least [OF that] op_before_op [OF okx [OF that] okx [OF y(1)]] op_before_target [OF okx [OF y(1)] q] ge y(2) False
          slice_compare_sym [of k "op_key y"] slice_compare_0 [of k "op_key y"] by (auto simp: visible_def)
      then show ?thesis
        using False by (simp add: ops_get_none)
    qed
    then show ?thesis
      using Some read by simp
  qed
qed

lemma mem_get_spec:
  assumes rep: "mem_rep ops mem" and ok: "ops_ok ops" and q: "op_ok (s, kTypeValue, k, [])"
  shows "\<exists>lk. lookup_key_new k s = Ok lk \<and> mem_get mem lk = Ok (ops_get ops k s)"
proof -
  obtain xs hs where inv: "sl_inv mem_compare mem xs hs" and keys: "set (sl_keys mem xs) = op_entry ` set ops"
    using rep by (auto simp: mem_rep_def)
  let ?find = "List.find (\<lambda>e. \<not> mem_compare e (mem_target k s) < 0) (sl_keys mem xs)"
  obtain lk where lk: "lookup_key_new k s = Ok lk" "memtable_key lk = mem_target k s" "user_key lk = k"
    using q lookup_key_Ok [of s k] by (simp add: mem_target_def)
  have get: "mem_get mem lk = (case ?find of None \<Rightarrow> Ok Absent | Some e \<Rightarrow> read_entry e k)"
    unfolding mem_get_def lk mem.iter_seek_spec [OF inv] sl_keys_def find_map_key [of "sl_key mem", symmetric]
    by (simp split: option.split)
  have "sorted_wrt (\<lambda>a b. mem_compare a b < 0) (sl_keys mem xs)"
    using inv by (simp add: sl_inv_def sl_keys_def sorted_wrt_map)
  from seek_newest [OF this keys ok q] show ?thesis
    using lk(1) get by simp
qed

definition mem_apply :: "write_op \<Rightarrow> memtable \<Rightarrow> memtable res" where
  "mem_apply x mem = (case x of (s, t, k, v) \<Rightarrow> mem_add s t k v mem)"

lemma mem_apply_many:
  "mem_rep ops mem \<Longrightarrow> ops_ok (ops @ xs) \<Longrightarrow> \<exists>mem'. res_fold mem_apply xs mem = Ok mem' \<and> mem_rep (ops @ xs) mem'"
proof (induction xs arbitrary: ops mem)
  case (Cons x xs)
  obtain s t k v where x: "x = (s, t, k, v)"
    by (cases x)
  have "ops_ok (ops @ [x])"
    using Cons.prems(2) by (auto simp: ops_ok_def sorted_wrt_append)
  then obtain mem1 where 1: "mem_add s t k v mem = Ok mem1" "mem_rep (ops @ [x]) mem1"
    using mem_add_spec [OF Cons.prems(1)] x by blast
  from Cons.IH [OF 1(2)] Cons.prems(2) show ?case
    using 1(1) by (simp add: mem_apply_def x)
qed simp

text \<open>
  A memtable answers with the newest visible write. Writes with increasing sequence numbers all succeed,
  and a lookup of any key at any sequence number returns the value, or the deletion, of the last of them
  that wrote this key and is not newer.
\<close>

lemma memtable_newest:
  assumes "ops_ok ops" "op_ok (s, kTypeValue, k, [])"
  shows "\<exists>mem lk. res_fold mem_apply ops memtable_new = Ok mem \<and> lookup_key_new k s = Ok lk
    \<and> mem_get mem lk = Ok (ops_get ops k s)"
proof -
  obtain mem where "res_fold mem_apply ops memtable_new = Ok mem" "mem_rep ops mem"
    using mem_apply_many [OF mem_rep_new] assms(1) by auto
  then show ?thesis
    using mem_get_spec [OF _ assms] by blast
qed

lemma memtable_newest_witness:
  "\<exists>mem lk. res_fold mem_apply [(1, kTypeValue, [1], [7]), (2, kTypeValue, [1], [8]), (3, kTypeDeletion, [1], [])] memtable_new = Ok mem
    \<and> lookup_key_new [1] 2 = Ok lk \<and> mem_get mem lk = Ok (Found [8])"
proof -
  let ?ops = "[(1, kTypeValue, [1], [7]), (2, kTypeValue, [1], [8]), (3, kTypeDeletion, [1], [])] :: write_op list"
  have "ops_ok ?ops" "op_ok (2, kTypeValue, [1], [])"
    by (simp_all add: ops_ok_def kMaxSequenceNumber_def)
  moreover have "ops_get ?ops [1] 2 = Found [8]"
    by (simp add: ops_get_def visible_def op_key_def)
  ultimately show ?thesis
    using memtable_newest [of ?ops 2 "[1]"] by simp
qed

end
