(* ===== verification/WriteBatch.thy ===== *)
theory WriteBatch
  imports MemTable KV
begin

text \<open>
  \<open>leveldb/db/write_batch.cc\<close>: a batch is a byte string with a 12-byte header (sequence number and
  count) followed by the updates. The lemmas show that building a batch and iterating over it visits the
  updates in order, that appending batches concatenates them, and that inserting a batch into a
  memtable applies them with consecutive sequence numbers.
\<close>

section \<open>Operations\<close>

definition kHeader :: nat where "kHeader = 12"

definition wb_clear :: bytes where
  "wb_clear = replicate kHeader 0"

text \<open>Reading and writing the header of a string shorter than it is undefined.\<close>

definition wb_count :: "bytes \<Rightarrow> 32 word res" where
  "wb_count rep = DecodeFixed32 (drop 8 rep)"

definition wb_set_count :: "32 word \<Rightarrow> bytes \<Rightarrow> bytes res" where
  "wb_set_count n rep = (if kHeader \<le> length rep then Ok (take 8 rep @ EncodeFixed32 n @ drop 12 rep) else Err Undefined)"

definition wb_sequence :: "bytes \<Rightarrow> 64 word res" where
  "wb_sequence rep = DecodeFixed64 rep"

definition wb_set_sequence :: "64 word \<Rightarrow> bytes \<Rightarrow> bytes res" where
  "wb_set_sequence s rep = (if 8 \<le> length rep then Ok (EncodeFixed64 s @ drop 8 rep) else Err Undefined)"

definition wb_put :: "bytes \<Rightarrow> bytes \<Rightarrow> bytes \<Rightarrow> bytes res" where
  "wb_put key val rep =
     res_bind (wb_count rep) (\<lambda>n. res_bind (wb_set_count (n + 1) rep) (\<lambda>rep.
       Ok (PutLengthPrefixedSlice (PutLengthPrefixedSlice (rep @ [ucast (type_code kTypeValue)]) key) val)))"

definition wb_delete :: "bytes \<Rightarrow> bytes \<Rightarrow> bytes res" where
  "wb_delete key rep =
     res_bind (wb_count rep) (\<lambda>n. res_bind (wb_set_count (n + 1) rep) (\<lambda>rep.
       Ok (PutLengthPrefixedSlice (rep @ [ucast (type_code kTypeDeletion)]) key)))"

definition wb_set_contents :: "bytes \<Rightarrow> bytes res" where
  "wb_set_contents contents = (if kHeader \<le> length contents then Ok contents else Err Assert_failed)"

definition wb_append :: "bytes \<Rightarrow> bytes \<Rightarrow> bytes res" where
  "wb_append src dst =
     res_bind (wb_count dst) (\<lambda>n. res_bind (wb_count src) (\<lambda>m. res_bind (wb_set_count (n + m) dst) (\<lambda>dst.
       if kHeader \<le> length src then Ok (dst @ drop kHeader src) else Err Assert_failed)))"

lemma get_varint_shrinks: "get_varint ss r p = Some (v, rest) \<Longrightarrow> length rest < length p"
  by (induction ss r p rule: get_varint.induct) (auto simp: Let_def split: if_splits)

lemma GetLengthPrefixedSlice_shrinks: "GetLengthPrefixedSlice p = Some (v, rest) \<Longrightarrow> length rest < length p"
  using get_varint_shrinks
  by (fastforce simp: GetLengthPrefixedSlice_def GetVarint32_fallback GetVarint32PtrFallback_def split: option.splits if_splits)

text \<open>The loop of \<open>Iterate\<close>; the handler is a pair of functions on its state. The result is the status, \<open>found\<close> and the state.\<close>

function wb_loop :: "(bytes \<Rightarrow> bytes \<Rightarrow> 's \<Rightarrow> 's res) \<Rightarrow> (bytes \<Rightarrow> 's \<Rightarrow> 's res) \<Rightarrow> bytes \<Rightarrow> nat \<Rightarrow> 's \<Rightarrow> (status \<times> nat \<times> 's) res" where
  "wb_loop hput hdel input found s =
     (case input of
        [] \<Rightarrow> Ok (OK, found, s)
      | tag # input \<Rightarrow>
          if tag = ucast (type_code kTypeValue) then
            (case GetLengthPrefixedSlice input of
               None \<Rightarrow> Ok (Corruption, found + 1, s)
             | Some (key, input') \<Rightarrow>
                 (case GetLengthPrefixedSlice input' of
                    None \<Rightarrow> Ok (Corruption, found + 1, s)
                  | Some (val, input'') \<Rightarrow> res_bind (hput key val s) (wb_loop hput hdel input'' (found + 1))))
          else if tag = ucast (type_code kTypeDeletion) then
            (case GetLengthPrefixedSlice input of
               None \<Rightarrow> Ok (Corruption, found + 1, s)
             | Some (key, input') \<Rightarrow> res_bind (hdel key s) (wb_loop hput hdel input' (found + 1)))
          else Ok (Corruption, found + 1, s))"
  by pat_completeness auto
termination
  by (relation "measure (\<lambda>(_, _, input, _). length input)") (auto dest!: GetLengthPrefixedSlice_shrinks)

declare wb_loop.simps [simp del]

definition wb_iterate :: "(bytes \<Rightarrow> bytes \<Rightarrow> 's \<Rightarrow> 's res) \<Rightarrow> (bytes \<Rightarrow> 's \<Rightarrow> 's res) \<Rightarrow> bytes \<Rightarrow> 's \<Rightarrow> (status \<times> 's) res" where
  "wb_iterate hput hdel rep s =
     (if length rep < kHeader then Ok (Corruption, s)
      else res_bind (wb_loop hput hdel (drop kHeader rep) 0 s) (\<lambda>(st, found, s).
        if is_ok st then res_bind (wb_count rep) (\<lambda>n. Ok (if int found \<noteq> sint n then Corruption else OK, s))
        else Ok (st, s)))"

text \<open>\<open>MemTableInserter\<close>: its state is the next sequence number and the memtable.\<close>

definition inserter_put :: "bytes \<Rightarrow> bytes \<Rightarrow> 64 word \<times> memtable \<Rightarrow> (64 word \<times> memtable) res" where
  "inserter_put key val = (\<lambda>(seq, mem). res_bind (mem_add seq kTypeValue key val mem) (\<lambda>mem. Ok (seq + 1, mem)))"

definition inserter_delete :: "bytes \<Rightarrow> 64 word \<times> memtable \<Rightarrow> (64 word \<times> memtable) res" where
  "inserter_delete key = (\<lambda>(seq, mem). res_bind (mem_add seq kTypeDeletion key [] mem) (\<lambda>mem. Ok (seq + 1, mem)))"

definition InsertInto :: "bytes \<Rightarrow> memtable \<Rightarrow> (status \<times> memtable) res" where
  "InsertInto rep mem =
     res_bind (wb_sequence rep) (\<lambda>seq.
     res_bind (wb_iterate inserter_put inserter_delete rep (seq, mem)) (\<lambda>(st, _, mem). Ok (st, mem)))"

section \<open>Batches as lists of updates\<close>

datatype update = Put bytes bytes | Delete bytes

fun update_ok :: "update \<Rightarrow> bool" where
  "update_ok (Put k v) \<longleftrightarrow> length k + 8 < 2 ^ 32 \<and> length v < 2 ^ 32"
| "update_ok (Delete k) \<longleftrightarrow> length k + 8 < 2 ^ 32"

fun enc_update :: "update \<Rightarrow> bytes" where
  "enc_update (Put k v) = 1 # PutLengthPrefixedSlice [] k @ PutLengthPrefixedSlice [] v"
| "enc_update (Delete k) = 0 # PutLengthPrefixedSlice [] k"

definition batch :: "64 word \<Rightarrow> update list \<Rightarrow> bytes" where
  "batch s us = EncodeFixed64 s @ EncodeFixed32 (word_of_nat (length us)) @ concat (map enc_update us)"

lemma length_EncodeFixed32 [simp]: "length (EncodeFixed32 n) = 4"
  by (simp add: EncodeFixed32_def)

lemma DecodeFixed32_Encode [simp]: "DecodeFixed32 (EncodeFixed32 n @ r) = Ok n"
  by (simp add: DecodeFixed32_def EncodeFixed32_def)

lemma PutLengthPrefixedSlice_Cons: "PutLengthPrefixedSlice dst v = dst @ PutLengthPrefixedSlice [] v"
  by (simp add: PutLengthPrefixedSlice_def PutVarint32_def)

lemma batch_header [simp]:
  "wb_count (batch s us) = Ok (word_of_nat (length us))" "wb_sequence (batch s us) = Ok s"
  "wb_set_sequence s' (batch s us) = Ok (batch s' us)" "12 \<le> length (batch s us)"
  "drop 12 (batch s us) = concat (map enc_update us)"
  by (simp_all add: batch_def wb_count_def wb_sequence_def wb_set_sequence_def)

lemma wb_set_count_batch:
  "wb_set_count n (batch s us) = Ok (EncodeFixed64 s @ EncodeFixed32 n @ concat (map enc_update us))"
  by (simp add: wb_set_count_def batch_def kHeader_def)

lemma wb_clear_batch: "wb_clear = batch 0 []"
  by (simp add: wb_clear_def batch_def kHeader_def EncodeFixed64_def EncodeFixed32_def eval_nat_numeral)

lemma wb_put_batch: "wb_put k v (batch s us) = Ok (batch s (us @ [Put k v]))"
  by (simp add: wb_put_def wb_set_count_batch) (simp add: PutLengthPrefixedSlice_Cons [of "_ @ _"] PutLengthPrefixedSlice_Cons [of "_ # _"] batch_def add.commute)

lemma wb_delete_batch: "wb_delete k (batch s us) = Ok (batch s (us @ [Delete k]))"
  by (simp add: wb_delete_def wb_set_count_batch) (simp add: PutLengthPrefixedSlice_Cons [of "_ @ _"] PutLengthPrefixedSlice_Cons [of "_ # _"] batch_def add.commute)

lemma wb_append_batch: "wb_append (batch s' vs) (batch s us) = Ok (batch s (us @ vs))"
  by (simp add: wb_append_def wb_set_count_batch kHeader_def) (simp add: batch_def)

fun handle :: "(bytes \<Rightarrow> bytes \<Rightarrow> 's \<Rightarrow> 's res) \<Rightarrow> (bytes \<Rightarrow> 's \<Rightarrow> 's res) \<Rightarrow> update \<Rightarrow> 's \<Rightarrow> 's res" where
  "handle hput hdel (Put k v) = hput k v"
| "handle hput hdel (Delete k) = hdel k"

lemma wb_loop_updates:
  assumes "list_all update_ok us"
  shows "wb_loop hput hdel (concat (map enc_update us)) n s
    = res_bind (res_fold (handle hput hdel) us s) (\<lambda>s. Ok (OK, n + length us, s))"
  using assms
proof (induction us arbitrary: n s)
  case Nil
  then show ?case by (simp add: wb_loop.simps)
next
  case (Cons u us)
  have "wb_loop hput hdel (enc_update u @ r) n s = res_bind (handle hput hdel u s) (wb_loop hput hdel r (n + 1))" for r
    using Cons.prems GetLengthPrefixedSlice_Put by (cases u) (subst wb_loop.simps; simp)+
  then show ?case
    using Cons by (cases "handle hput hdel u s") (simp_all add: res_bind_assoc)
qed

lemma wb_iterate_batch:
  assumes "list_all update_ok us" "length us < 2 ^ 31"
  shows "wb_iterate hput hdel (batch s us) st = res_bind (res_fold (handle hput hdel) us st) (\<lambda>st. Ok (OK, st))"
proof -
  have "sint (word_of_nat (length us) :: 32 word) = int (length us)"
    using assms(2) by (simp add: signed_of_nat signed_take_bit_int_eq_self)
  then show ?thesis
    using batch_header(4) [of s us]
    by (cases "res_fold (handle hput hdel) us st")
      (simp_all add: wb_iterate_def kHeader_def wb_loop_updates [OF assms(1)] is_ok_def not_less)
qed

text \<open>The writes of a batch: its updates with consecutive sequence numbers.\<close>

fun update_op :: "64 word \<Rightarrow> update \<Rightarrow> write_op" where
  "update_op s (Put k v) = (s, kTypeValue, k, v)"
| "update_op s (Delete k) = (s, kTypeDeletion, k, [])"

fun update_ops :: "64 word \<Rightarrow> update list \<Rightarrow> write_op list" where
  "update_ops s [] = []"
| "update_ops s (u # us) = update_op s u # update_ops (s + 1) us"

lemma update_ops_append: "update_ops s (us @ vs) = update_ops s us @ update_ops (s + word_of_nat (length us)) vs"
  by (induction us arbitrary: s) (auto simp: add_ac)

lemma inserter_fold:
  "res_fold (handle inserter_put inserter_delete) us (s, mem)
    = res_bind (res_fold mem_apply (update_ops s us) mem) (\<lambda>mem. Ok (s + word_of_nat (length us), mem))"
proof (induction us arbitrary: s mem)
  case (Cons u us)
  have "handle inserter_put inserter_delete u (s, mem) = res_bind (mem_apply (update_op s u) mem) (\<lambda>mem. Ok (s + 1, mem))"
    by (cases u) (simp_all add: inserter_put_def inserter_delete_def mem_apply_def)
  then show ?case
    using Cons.IH by (cases "mem_apply (update_op s u) mem") (simp_all add: add_ac)
qed simp

lemma InsertInto_batch:
  assumes "list_all update_ok us" "length us < 2 ^ 31"
  shows "InsertInto (batch s us) mem = res_bind (res_fold mem_apply (update_ops s us) mem) (\<lambda>mem. Ok (OK, mem))"
  by (cases "res_fold mem_apply (update_ops s us) mem") (simp_all add: InsertInto_def wb_iterate_batch [OF assms] inserter_fold)

end
