(* ===== verification/LogFile.thy ===== *)
theory LogFile
  imports Crc32c KV
begin

text \<open>
  \<open>leveldb/db/log_writer.cc\<close> and \<open>log_reader.cc\<close>: the write-ahead log. A record is cut into fragments that
  do not cross the boundary of a 32 KiB block; each fragment carries a checksum, its length and its
  position in the record. The reader reassembles the records and reports what it has to drop.
\<close>

section \<open>Format (\<open>log_format.h\<close>)\<close>

abbreviation kZeroType :: "32 word" where "kZeroType \<equiv> 0"
abbreviation kFullType :: "32 word" where "kFullType \<equiv> 1"
abbreviation kFirstType :: "32 word" where "kFirstType \<equiv> 2"
abbreviation kMiddleType :: "32 word" where "kMiddleType \<equiv> 3"
abbreviation kLastType :: "32 word" where "kLastType \<equiv> 4"

text \<open>The values \<open>kEof\<close> and \<open>kBadRecord\<close> that extend the types (\<open>log_reader.h\<close>).\<close>

abbreviation kEof :: "32 word" where "kEof \<equiv> 5"
abbreviation kBadRecord :: "32 word" where "kBadRecord \<equiv> 6"

definition kBlockSize :: nat where "kBlockSize = 32768"
abbreviation kHeaderSize :: nat where "kHeaderSize \<equiv> 7"

section \<open>The writer\<close>

text \<open>
  \<open>fault n\<close> says whether the \<open>n\<close>-th call of \<open>Append\<close> or \<open>Flush\<close> on the file fails; a failing call writes
  nothing. The address of a buffer does not change its checksum, 0 stands for it.
\<close>

record log_writer =
  lw_dest :: bytes
  block_offset :: nat
  lw_ops :: nat

definition log_writer_new :: "bytes \<Rightarrow> log_writer" where
  "log_writer_new dest = \<lparr>lw_dest = dest, block_offset = length dest mod kBlockSize, lw_ops = 0\<rparr>"

definition lw_append :: "(nat \<Rightarrow> bool) \<Rightarrow> bytes \<Rightarrow> log_writer \<Rightarrow> log_writer \<times> status" where
  "lw_append fault bs w =
     (if fault (lw_ops w) then (w\<lparr>lw_ops := lw_ops w + 1\<rparr>, IOError)
      else (w\<lparr>lw_dest := lw_dest w @ bs, lw_ops := lw_ops w + 1\<rparr>, OK))"

definition record_header :: "32 word \<Rightarrow> bytes \<Rightarrow> bytes" where
  "record_header t ptr =
     EncodeFixed32 (Mask (Extend 0 (Value 0 [ucast t]) ptr))
       @ [ucast ((word_of_nat (length ptr) :: 64 word) AND 0xff), ucast (drop_bit 8 (word_of_nat (length ptr) :: 64 word)), ucast t]"

definition EmitPhysicalRecord :: "(nat \<Rightarrow> bool) \<Rightarrow> 32 word \<Rightarrow> bytes \<Rightarrow> log_writer \<Rightarrow> (log_writer \<times> status) res" where
  "EmitPhysicalRecord fault t ptr w =
     (if \<not> length ptr \<le> 0xffff then Err Assert_failed
      else if \<not> block_offset w + kHeaderSize + length ptr \<le> kBlockSize then Err Assert_failed
      else
        let (w, s) = lw_append fault (record_header t ptr) w;
            (w, s) = (if is_ok s then
              (let (w, s) = lw_append fault ptr w in if is_ok s then lw_append fault [] w else (w, s)) else (w, s))
        in Ok (w\<lparr>block_offset := block_offset w + kHeaderSize + length ptr\<rparr>, s))"

text \<open>The switch to a new block: the status of filling the trailer is dropped.\<close>

definition switch_block :: "(nat \<Rightarrow> bool) \<Rightarrow> log_writer \<Rightarrow> log_writer res" where
  "switch_block fault w =
     (if \<not> block_offset w \<le> kBlockSize then Err Assert_failed
      else let leftover = kBlockSize - block_offset w in
        if leftover < kHeaderSize then
          Ok ((if leftover > 0 then fst (lw_append fault (replicate leftover 0) w) else w)\<lparr>block_offset := 0\<rparr>)
        else Ok w)"

lemma switch_block_offset:
  "switch_block fault w = Ok w' \<Longrightarrow>
    block_offset w' = (if kBlockSize - block_offset w < kHeaderSize then 0 else block_offset w) \<and> block_offset w' \<le> kBlockSize - kHeaderSize"
  by (auto simp: switch_block_def Let_def lw_append_def kBlockSize_def split: if_splits)

lemma EmitPhysicalRecord_offset:
  "EmitPhysicalRecord fault t ptr w = Ok (w', s) \<Longrightarrow> block_offset w' = block_offset w + kHeaderSize + length ptr"
  by (auto simp: EmitPhysicalRecord_def Let_def lw_append_def is_ok_def split: if_splits)

text \<open>The loop of \<open>AddRecord\<close>: \<open>ptr\<close> is what is left of the record.\<close>

function add_record :: "(nat \<Rightarrow> bool) \<Rightarrow> bool \<Rightarrow> bytes \<Rightarrow> log_writer \<Rightarrow> (log_writer \<times> status) res" where
  "add_record fault begin' ptr w =
     (case switch_block fault w of
        Err e \<Rightarrow> Err e
      | Ok w1 \<Rightarrow>
          let avail = kBlockSize - block_offset w1 - kHeaderSize;
              fragment_length = (if length ptr < avail then length ptr else avail);
              end' = (length ptr = fragment_length);
              type = (if begin' \<and> end' then kFullType else if begin' then kFirstType
                      else if end' then kLastType else kMiddleType)
          in case EmitPhysicalRecord fault type (take fragment_length ptr) w1 of
               Err e \<Rightarrow> Err e
             | Ok (w2, s) \<Rightarrow>
                 if is_ok s \<and> drop fragment_length ptr \<noteq> [] then add_record fault False (drop fragment_length ptr) w2
                 else Ok (w2, s))"
  by pat_completeness auto
termination
proof (relation "measure (\<lambda>(_, _, ptr, w). 2 * length ptr + (if block_offset w = kBlockSize - kHeaderSize then 1 else 0))", goal_cases)
  case (2 fault begin' ptr w w1 avail fl end' type p w2 s)
  note o1 = switch_block_offset [OF 2(1)]
  have p: "EmitPhysicalRecord fault type (take fl ptr) w1 = Ok (w2, s)" using 2 by simp
  have fl: "fl = min (length ptr) avail" "avail = kBlockSize - block_offset w1 - kHeaderSize" using 2 by auto
  have d: "fl < length ptr" using 2 by auto
  then have "block_offset w2 = kBlockSize"
    using EmitPhysicalRecord_offset [OF p] fl o1 by (simp add: kBlockSize_def)
  then have "block_offset w2 \<noteq> kBlockSize - kHeaderSize" by (simp add: kBlockSize_def)
  moreover have "0 < fl \<or> block_offset w = kBlockSize - kHeaderSize"
    using fl d o1 by (auto simp: kBlockSize_def split: if_splits)
  ultimately show ?case using d by auto
qed auto

declare add_record.simps [simp del]

definition AddRecord :: "(nat \<Rightarrow> bool) \<Rightarrow> bytes \<Rightarrow> log_writer \<Rightarrow> (log_writer \<times> status) res" where
  "AddRecord fault data w = add_record fault True data w"

section \<open>The reader\<close>

text \<open>
  \<open>lr_rest\<close> is the part of the file that has not been read, \<open>read_fault n\<close> says whether the \<open>n\<close>-th \<open>Read\<close>
  fails. \<open>lr_drops\<close> collects what the reporter is told, when there is one.
\<close>

record log_reader =
  lr_rest :: bytes
  lr_reads :: nat
  lr_reporter :: bool
  lr_checksum :: bool
  lr_buffer :: bytes
  lr_eof :: bool
  last_record_offset :: "64 word"
  end_of_buffer_offset :: "64 word"
  initial_offset :: "64 word"
  resyncing :: bool
  lr_drops :: "(nat \<times> status) list"

definition log_reader_new :: "bytes \<Rightarrow> bool \<Rightarrow> bool \<Rightarrow> 64 word \<Rightarrow> log_reader" where
  "log_reader_new contents reporter checksum off =
     \<lparr>lr_rest = contents, lr_reads = 0, lr_reporter = reporter, lr_checksum = checksum, lr_buffer = [], lr_eof = False,
      last_record_offset = 0, end_of_buffer_offset = 0, initial_offset = off, resyncing = off > 0, lr_drops = []\<rparr>"

definition ReportDrop :: "nat \<Rightarrow> status \<Rightarrow> log_reader \<Rightarrow> log_reader" where
  "ReportDrop n reason r =
     (if lr_reporter r \<and> end_of_buffer_offset r - word_of_nat (length (lr_buffer r)) - word_of_nat n \<ge> initial_offset r
      then r\<lparr>lr_drops := lr_drops r @ [(n, reason)]\<rparr> else r)"

definition ReportCorruption :: "nat \<Rightarrow> log_reader \<Rightarrow> log_reader" where
  "ReportCorruption n r = ReportDrop n Corruption r"

text \<open>\<open>Skip\<close> on the file is taken to succeed; it may skip past the end.\<close>

definition SkipToInitialBlock :: "log_reader \<Rightarrow> log_reader" where
  "SkipToInitialBlock r =
     (let offset_in_block = initial_offset r mod word_of_nat kBlockSize;
          block_start_location = initial_offset r - offset_in_block;
          block_start_location =
            (if offset_in_block > word_of_nat (kBlockSize - 6) then block_start_location + word_of_nat kBlockSize
             else block_start_location);
          r = r\<lparr>end_of_buffer_offset := block_start_location\<rparr>
      in if block_start_location > 0 then r\<lparr>lr_rest := drop (unat block_start_location) (lr_rest r)\<rparr> else r)"

text \<open>One refill of the buffer: \<open>None\<close> when the read fails.\<close>

definition refill :: "(nat \<Rightarrow> bool) \<Rightarrow> log_reader \<Rightarrow> log_reader option" where
  "refill read_fault r =
     (if read_fault (lr_reads r) then None
      else let buf = take kBlockSize (lr_rest r) in
        Some (r\<lparr>lr_buffer := buf, lr_rest := drop kBlockSize (lr_rest r), lr_reads := lr_reads r + 1,
               end_of_buffer_offset := end_of_buffer_offset r + word_of_nat (length buf),
               lr_eof := (if length buf < kBlockSize then True else lr_eof r)\<rparr>))"

text \<open>The part of \<open>ReadPhysicalRecord\<close> after the header is complete; the fragment is \<open>None\<close> where \<open>*result\<close> is not set.\<close>

definition parse_physical :: "log_reader \<Rightarrow> 32 word \<times> bytes option \<times> log_reader" where
  "parse_physical r =
     (let header = lr_buffer r;
          a = ucast (header ! 4) :: 32 word; b = ucast (header ! 5) :: 32 word;
          type = scast (header ! 6) :: 32 word;
          len = unat (a OR push_bit 8 b);
          drop_size = length (lr_buffer r)
      in if kHeaderSize + len > length (lr_buffer r) then
           (let r = r\<lparr>lr_buffer := []\<rparr> in
            if \<not> lr_eof r then (kBadRecord, None, ReportCorruption drop_size r) else (kEof, None, r))
         else if type = kZeroType \<and> len = 0 then (kBadRecord, None, r\<lparr>lr_buffer := []\<rparr>)
         else if lr_checksum r \<and> Value 0 (take (1 + len) (drop 6 header)) \<noteq> Unmask (le_word (take 4 header)) then
           (kBadRecord, None, ReportCorruption drop_size (r\<lparr>lr_buffer := []\<rparr>))
         else
           (let r = r\<lparr>lr_buffer := drop (kHeaderSize + len) (lr_buffer r)\<rparr> in
            if end_of_buffer_offset r - word_of_nat (length (lr_buffer r)) - word_of_nat kHeaderSize - word_of_nat len < initial_offset r
            then (kBadRecord, Some [], r)
            else (type, Some (take len (drop kHeaderSize header)), r)))"

function ReadPhysicalRecord :: "(nat \<Rightarrow> bool) \<Rightarrow> log_reader \<Rightarrow> 32 word \<times> bytes option \<times> log_reader" where
  "ReadPhysicalRecord read_fault r =
     (if length (lr_buffer r) < kHeaderSize then
        if \<not> lr_eof r then
          (case refill read_fault r of
             None \<Rightarrow> (kEof, None, (ReportDrop kBlockSize IOError (r\<lparr>lr_buffer := [], lr_reads := lr_reads r + 1\<rparr>))\<lparr>lr_eof := True\<rparr>)
           | Some r \<Rightarrow> ReadPhysicalRecord read_fault r)
        else (kEof, None, r\<lparr>lr_buffer := []\<rparr>)
      else parse_physical r)"
  by pat_completeness auto
termination
proof (relation "measure (\<lambda>(_, r). if length (lr_buffer r) < kHeaderSize then if lr_eof r then 1 else 2 else 0 :: nat)", goal_cases)
  case (2 read_fault r r')
  then show ?case
    by (auto simp: refill_def Let_def kBlockSize_def split: if_splits)
qed auto

declare ReadPhysicalRecord.simps [simp del]

text \<open>Every physical record takes bytes out of the file, so the reader gets to the end.\<close>

definition lr_size :: "log_reader \<Rightarrow> nat" where
  "lr_size r = length (lr_buffer r) + length (lr_rest r)"

lemma report_simps [simp]:
  "lr_buffer (ReportDrop n st r) = lr_buffer r" "lr_rest (ReportDrop n st r) = lr_rest r"
  "lr_buffer (ReportCorruption n r) = lr_buffer r" "lr_rest (ReportCorruption n r) = lr_rest r"
  by (simp_all add: ReportDrop_def ReportCorruption_def)

lemma parse_physical_size:
  "parse_physical r = (t, f, r') \<Longrightarrow> kHeaderSize \<le> length (lr_buffer r) \<Longrightarrow> lr_size r' < lr_size r"
  by (auto simp: parse_physical_def lr_size_def Let_def split: if_splits)

lemma ReadPhysicalRecord_size:
  "ReadPhysicalRecord read_fault r = (t, f, r') \<Longrightarrow> t \<noteq> kEof \<Longrightarrow> lr_size r' < lr_size r"
proof (induction read_fault r rule: ReadPhysicalRecord.induct)
  case (1 read_fault r)
  show ?case
  proof (cases "length (lr_buffer r) < kHeaderSize")
    case True
    then have "\<not> lr_eof r" using 1(2,3) by (auto simp: ReadPhysicalRecord.simps [of read_fault r])
    then obtain r1 where r1: "refill read_fault r = Some r1"
      using True 1(2,3) by (auto simp: ReadPhysicalRecord.simps [of read_fault r] split: option.splits)
    then have "lr_size r1 \<le> lr_size r" by (auto simp: refill_def lr_size_def Let_def split: if_splits)
    moreover have "lr_size r' < lr_size r1"
      using 1(1) [OF True \<open>\<not> lr_eof r\<close> r1] 1(2,3) True \<open>\<not> lr_eof r\<close> r1
      by (simp add: ReadPhysicalRecord.simps [of read_fault r])
    ultimately show ?thesis by simp
  next
    case False
    then show ?thesis using 1(2) parse_physical_size [of r t f r'] by (simp add: ReadPhysicalRecord.simps [of read_fault r])
  qed
qed

text \<open>
  The loop of \<open>ReadRecord\<close>: \<open>frag\<close> is \<open>in_fragmented_record\<close>, \<open>prosp\<close> the offset of the record being read.
  \<open>None\<close> is the return value false.
\<close>

function read_record :: "(nat \<Rightarrow> bool) \<Rightarrow> bool \<Rightarrow> bytes \<Rightarrow> 64 word \<Rightarrow> log_reader \<Rightarrow> bytes option \<times> log_reader" where
  "read_record read_fault frag scratch prosp r =
     (case ReadPhysicalRecord read_fault r of (type, result, r) \<Rightarrow>
      let fragment = (case result of None \<Rightarrow> [] | Some f \<Rightarrow> f);
          offset = end_of_buffer_offset r - word_of_nat (length (lr_buffer r)) - word_of_nat kHeaderSize - word_of_nat (length fragment)
      in if type = kEof then (None, r\<lparr>resyncing := False\<rparr>)
         else if resyncing r \<and> type = kMiddleType then read_record read_fault frag scratch prosp r
         else if resyncing r \<and> type = kLastType then read_record read_fault frag scratch prosp (r\<lparr>resyncing := False\<rparr>)
         else
           (let r = r\<lparr>resyncing := False\<rparr> in
            if type = kFullType then
              (let r = (if frag \<and> scratch \<noteq> [] then ReportCorruption (length scratch) r else r) in
               (Some fragment, r\<lparr>last_record_offset := offset\<rparr>))
            else if type = kFirstType then
              (let r = (if frag \<and> scratch \<noteq> [] then ReportCorruption (length scratch) r else r) in
               read_record read_fault True fragment offset r)
            else if type = kMiddleType then
              (if \<not> frag then read_record read_fault frag scratch prosp (ReportCorruption (length fragment) r)
               else read_record read_fault frag (scratch @ fragment) prosp r)
            else if type = kLastType then
              (if \<not> frag then read_record read_fault frag scratch prosp (ReportCorruption (length fragment) r)
               else (Some (scratch @ fragment), r\<lparr>last_record_offset := prosp\<rparr>))
            else if type = kBadRecord then
              (if frag then read_record read_fault False [] prosp (ReportCorruption (length scratch) r)
               else read_record read_fault frag scratch prosp r)
            else
              read_record read_fault False []
                prosp (ReportCorruption (length fragment + (if frag then length scratch else 0)) r)))"
  by pat_completeness auto
termination
proof (relation "measure (\<lambda>(_, _, _, _, r). lr_size r)", goal_cases)
  case 1
  show ?case by simp
qed (auto dest!: sym [THEN ReadPhysicalRecord_size] ReadPhysicalRecord_size simp: lr_size_def)

declare read_record.simps [simp del]

definition ReadRecord :: "(nat \<Rightarrow> bool) \<Rightarrow> log_reader \<Rightarrow> bytes option \<times> log_reader" where
  "ReadRecord read_fault r =
     read_record read_fault False [] 0 (if last_record_offset r < initial_offset r then SkipToInitialBlock r else r)"

section \<open>Physical records\<close>

definition phys :: "32 word \<Rightarrow> bytes \<Rightarrow> bytes" where
  "phys t d = record_header t d @ d"

definition valid_phys :: "32 word \<times> bytes \<Rightarrow> bool" where
  "valid_phys p \<longleftrightarrow> fst p \<in> {kFullType, kFirstType, kMiddleType, kLastType} \<and> length (snd p) \<le> 0xffff"

lemma length_record_header [simp]: "length (record_header t d) = kHeaderSize"
  by (simp add: record_header_def EncodeFixed32_def)

lemma length_phys [simp]: "length (phys t d) = kHeaderSize + length d"
  by (simp add: phys_def)

lemma drop_phys [simp]: "drop kHeaderSize (phys t d) = d"
  by (simp add: phys_def)

lemma header_length:
  assumes "n \<le> 0xffff"
  shows "unat ((ucast (ucast ((word_of_nat n :: 64 word) AND 0xff) :: 8 word) :: 32 word)
      OR push_bit 8 (ucast (ucast (drop_bit 8 (word_of_nat n :: 64 word)) :: 8 word))) = n"
proof -
  have nb: "i < 16" if "bit n i" for i
    using assms that bit_take_bit_iff [of 16 n i] take_bit_nat_eq_self [of n 16] by auto
  have "(ucast (ucast ((word_of_nat n :: 64 word) AND 0xff) :: 8 word) :: 32 word)
      OR push_bit 8 (ucast (ucast (drop_bit 8 (word_of_nat n :: 64 word)) :: 8 word)) = word_of_nat n"
  proof (rule bit_word_eqI)
    fix i assume i: "i < LENGTH(32)"
    show "bit ((ucast (ucast ((word_of_nat n :: 64 word) AND 0xff) :: 8 word) :: 32 word)
      OR push_bit 8 (ucast (ucast (drop_bit 8 (word_of_nat n :: 64 word)) :: 8 word))) i = bit (word_of_nat n :: 32 word) i"
      using i nb [of i] by (cases "i < 8") (auto simp: bit_simps bit_255_int)
  qed
  then show ?thesis using assms by (simp add: unat_of_nat take_bit_nat_eq_self)
qed

lemma header_nth:
  "(phys t d @ tl') ! 4 = ucast ((word_of_nat (length d) :: 64 word) AND 0xff)"
  "(phys t d @ tl') ! 5 = ucast (drop_bit 8 (word_of_nat (length d) :: 64 word))"
  "(phys t d @ tl') ! 6 = ucast t"
  "take 4 (phys t d @ tl') = EncodeFixed32 (Mask (Value 0 (ucast t # d)))"
  "drop 6 (phys t d @ tl') = ucast t # d @ tl'"
  using Extend_Value [of 0 0 "[ucast t]" d 0]
  by (simp_all add: phys_def record_header_def EncodeFixed32_def nth_append)

lemma parse_phys:
  assumes "valid_phys (t, d)" "lr_buffer r = phys t d @ tl'" "initial_offset r = 0"
  shows "parse_physical r = (t, Some d, r\<lparr>lr_buffer := tl'\<rparr>)"
proof -
  have t: "scast (ucast t :: 8 word) = t" "t \<noteq> 0" using assms(1) by (auto simp: valid_phys_def)
  have l: "length d \<le> 0xffff" using assms(1) by (simp add: valid_phys_def)
  show ?thesis
    unfolding parse_physical_def Let_def assms(2) header_nth header_length [OF l] t(1)
    using t(2) assms(3) by (simp add: Unmask_Mask EncodeFixed32_def)
qed

section \<open>The layout of a log\<close>

text \<open>The bytes for a sequence of physical records, from block offset \<open>o'\<close> on, and the block offset after them.\<close>

fun lay :: "nat \<Rightarrow> (32 word \<times> bytes) list \<Rightarrow> bytes" where
  "lay o' [] = []"
| "lay o' ((t, d) # ps) =
     (if kBlockSize - o' < kHeaderSize then replicate (kBlockSize - o') 0 @ phys t d @ lay (kHeaderSize + length d) ps
      else phys t d @ lay (o' + kHeaderSize + length d) ps)"

fun lay_end :: "nat \<Rightarrow> (32 word \<times> bytes) list \<Rightarrow> nat" where
  "lay_end o' [] = o'"
| "lay_end o' ((t, d) # ps) =
     lay_end ((if kBlockSize - o' < kHeaderSize then 0 else o') + kHeaderSize + length d) ps"

fun fits :: "nat \<Rightarrow> (32 word \<times> bytes) list \<Rightarrow> bool" where
  "fits o' [] \<longleftrightarrow> o' \<le> kBlockSize"
| "fits o' ((t, d) # ps) \<longleftrightarrow> valid_phys (t, d) \<and> o' \<le> kBlockSize
     \<and> (if kBlockSize - o' < kHeaderSize then 0 else o') + kHeaderSize + length d \<le> kBlockSize
     \<and> fits ((if kBlockSize - o' < kHeaderSize then 0 else o') + kHeaderSize + length d) ps"

lemma lay_append: "lay o' (ps @ qs) = lay o' ps @ lay (lay_end o' ps) qs"
  by (induction ps arbitrary: o') (auto split: prod.splits)

lemma lay_end_append: "lay_end o' (ps @ qs) = lay_end (lay_end o' ps) qs"
  by (induction ps arbitrary: o') (auto split: prod.splits)

lemma fits_append: "fits o' (ps @ qs) \<longleftrightarrow> fits o' ps \<and> fits (lay_end o' ps) qs"
proof (induction ps arbitrary: o')
  case Nil
  then show ?case by (cases qs) auto
next
  case (Cons p ps)
  then show ?case by (cases p) auto
qed

text \<open>A fresh log starts as after a full block.\<close>

lemma lay_full: "lay kBlockSize ps = lay 0 ps"
  by (cases ps) (auto simp: kBlockSize_def)

lemma fits_full: "fits 0 ps \<Longrightarrow> fits kBlockSize ps"
  by (cases ps) (auto simp: kBlockSize_def)

text \<open>The fragments of one record.\<close>

fun pieces :: "bool \<Rightarrow> bytes \<Rightarrow> (32 word \<times> bytes) list \<Rightarrow> bool" where
  "pieces b data [] \<longleftrightarrow> False"
| "pieces b data [(t, d)] \<longleftrightarrow> t = (if b then kFullType else kLastType) \<and> data = d"
| "pieces b data ((t, d) # ps) \<longleftrightarrow> t = (if b then kFirstType else kMiddleType) \<and> (\<exists>rest. data = d @ rest \<and> pieces False rest ps)"

section \<open>The writer produces the layout\<close>

abbreviation no_fault :: "nat \<Rightarrow> bool" where "no_fault \<equiv> \<lambda>_. False"

lemma emit_ok:
  assumes "length d \<le> 0xffff" "block_offset w + kHeaderSize + length d \<le> kBlockSize"
  shows "\<exists>w'. EmitPhysicalRecord no_fault t d w = Ok (w', OK) \<and> lw_dest w' = lw_dest w @ phys t d
    \<and> block_offset w' = block_offset w + kHeaderSize + length d"
  using assms by (simp add: EmitPhysicalRecord_def lw_append_def is_ok_def phys_def)

lemma switch_ok:
  assumes "block_offset w \<le> kBlockSize"
  shows "\<exists>w'. switch_block no_fault w = Ok w'
    \<and> block_offset w' = (if kBlockSize - block_offset w < kHeaderSize then 0 else block_offset w)
    \<and> lw_dest w' = lw_dest w @ (if kBlockSize - block_offset w < kHeaderSize then replicate (kBlockSize - block_offset w) 0 else [])"
  using assms by (auto simp: switch_block_def lw_append_def Let_def)

lemma add_record_layout:
  "block_offset w \<le> kBlockSize \<Longrightarrow>
    \<exists>w' ps. add_record no_fault b data w = Ok (w', OK) \<and> pieces b data ps \<and> fits (block_offset w) ps
      \<and> lw_dest w' = lw_dest w @ lay (block_offset w) ps \<and> block_offset w' = lay_end (block_offset w) ps"
proof (induction no_fault b data w rule: add_record.induct)
  case (1 b data w)
  let ?o = "if kBlockSize - block_offset w < kHeaderSize then 0 else block_offset w"
  obtain w1 where w1: "switch_block no_fault w = Ok w1" "block_offset w1 = ?o"
      "lw_dest w1 = lw_dest w @ (if kBlockSize - block_offset w < kHeaderSize then replicate (kBlockSize - block_offset w) 0 else [])"
    using switch_ok [OF 1(2)] by (elim exE conjE) (rule that)
  have o: "?o + kHeaderSize \<le> kBlockSize" using 1(2) by (auto simp: kBlockSize_def)
  define fl where "fl = (if length data < kBlockSize - ?o - kHeaderSize then length data else kBlockSize - ?o - kHeaderSize)"
  define t where "t = (if b \<and> length data = fl then kFullType else if b then kFirstType
      else if length data = fl then kLastType else kMiddleType)"
  have fl: "fl \<le> length data" "?o + kHeaderSize + fl \<le> kBlockSize" "fl \<le> 0xffff"
    using o by (auto simp: fl_def kBlockSize_def)
  obtain w2 where w2: "EmitPhysicalRecord no_fault t (take fl data) w1 = Ok (w2, OK)"
      "lw_dest w2 = lw_dest w1 @ phys t (take fl data)" "block_offset w2 = ?o + kHeaderSize + fl"
    using emit_ok [of "take fl data" w1 t] fl w1(2) by auto
  have v: "valid_phys (t, take fl data)" using fl by (simp add: valid_phys_def t_def)
  have step: "add_record no_fault b data w = (if drop fl data \<noteq> [] then add_record no_fault False (drop fl data) w2 else Ok (w2, OK))"
    unfolding add_record.simps [of no_fault b data w] w1(1) res.case Let_def w1(2) fl_def [symmetric] t_def [symmetric] w2(1)
    by (simp add: is_ok_def)
  show ?case
  proof (cases "fl = length data")
    case True
    then show ?thesis using step v fl w1 w2 1(2)
      by (intro exI [of _ w2] exI [of _ "[(t, data)]"]) (auto simp: t_def)
  next
    case False
    then have ne: "drop fl data \<noteq> []" using fl(1) by simp
    have "block_offset w2 \<le> kBlockSize" using w2(3) fl(2) by simp
    then obtain w' ps where ih: "add_record no_fault False (drop fl data) w2 = Ok (w', OK)" "pieces False (drop fl data) ps"
        "fits (block_offset w2) ps" "lw_dest w' = lw_dest w2 @ lay (block_offset w2) ps" "block_offset w' = lay_end (block_offset w2) ps"
      using 1(1) [OF w1(1) refl refl refl refl, unfolded w1(2) fl_def [symmetric], folded t_def, OF w2(1) refl] ne
      by (auto simp: is_ok_def)
    have "pieces b data ((t, take fl data) # ps)"
      using ih(2) False by (cases ps) (auto simp: t_def intro!: exI [of _ "drop fl data"])
    then show ?thesis using step ne ih v fl w1 w2 1(2)
      by (intro exI [of _ w'] exI [of _ "(t, take fl data) # ps"]) auto
  qed
qed

section \<open>The reader follows the layout\<close>

text \<open>The reader stands at block offset \<open>o'\<close> of a file of which \<open>X\<close> is left.\<close>

definition rd_at :: "nat \<Rightarrow> bytes \<Rightarrow> log_reader \<Rightarrow> bool" where
  "rd_at o' X r \<longleftrightarrow> lr_buffer r @ lr_rest r = X \<and> length (lr_buffer r) = min (kBlockSize - o') (length X)
     \<and> lr_eof r = (length X < kBlockSize - o') \<and> initial_offset r = 0 \<and> \<not> resyncing r"

lemma rd_buffer: "rd_at o' X r \<Longrightarrow> lr_buffer r = take (kBlockSize - o') X"
  by (auto simp: rd_at_def min_def)

lemma rd_rest: "rd_at o' X r \<Longrightarrow> lr_rest r = drop (kBlockSize - o') X"
  using rd_buffer unfolding rd_at_def by (metis append_take_drop_id same_append_eq)

lemma rd_reload:
  assumes "rd_at o' X r" "kBlockSize - o' < kHeaderSize" "kBlockSize - o' \<le> length X"
  shows "\<exists>r'. ReadPhysicalRecord no_fault r = ReadPhysicalRecord no_fault r' \<and> rd_at 0 (drop (kBlockSize - o') X) r'
    \<and> lr_drops r' = lr_drops r"
proof -
  have X: "lr_buffer r = take (kBlockSize - o') X" "lr_rest r = drop (kBlockSize - o') X" "\<not> lr_eof r"
      "initial_offset r = 0" "\<not> resyncing r" "length (lr_buffer r) < kHeaderSize"
    using assms rd_buffer [OF assms(1)] rd_rest [OF assms(1)] by (simp_all add: rd_at_def)
  obtain r' where r': "refill no_fault r = Some r'" by (simp add: refill_def Let_def)
  define Y where "Y = drop (kBlockSize - o') X"
  have "rd_at 0 Y r'" "lr_drops r' = lr_drops r"
    using r' X(2) [folded Y_def] X(3-5)
    by (cases "length Y < kBlockSize"; force simp: refill_def rd_at_def Let_def)+
  moreover have "ReadPhysicalRecord no_fault r = ReadPhysicalRecord no_fault r'"
    using X(3,6) r' by (simp add: ReadPhysicalRecord.simps [of _ r])
  ultimately show ?thesis unfolding Y_def by blast
qed

lemma rd_short:
  assumes "rd_at o' X r" "length X < kHeaderSize" "length X < kBlockSize - o'"
  shows "ReadPhysicalRecord no_fault r = (kEof, None, r\<lparr>lr_buffer := []\<rparr>)"
  using assms rd_buffer [OF assms(1)] by (subst ReadPhysicalRecord.simps) (auto simp: rd_at_def)

lemma rd_phys:
  assumes "rd_at o' (phys t d @ Y) r" "o' + kHeaderSize + length d \<le> kBlockSize" "valid_phys (t, d)"
  shows "\<exists>r'. ReadPhysicalRecord no_fault r = (t, Some d, r') \<and> rd_at (o' + kHeaderSize + length d) Y r' \<and> lr_drops r' = lr_drops r"
proof -
  have b: "lr_buffer r = phys t d @ take (kBlockSize - (o' + kHeaderSize + length d)) Y"
    using rd_buffer [OF assms(1)] assms(2) by (simp add: diff_diff_left add.assoc)
  let ?r = "r\<lparr>lr_buffer := take (kBlockSize - (o' + kHeaderSize + length d)) Y\<rparr>"
  have "rd_at (o' + kHeaderSize + length d) Y ?r"
    using assms(1,2) b by (auto simp: rd_at_def min_def)
  moreover have "ReadPhysicalRecord no_fault r = (t, Some d, ?r)"
    using b parse_phys [OF assms(3) b] assms(1) by (subst ReadPhysicalRecord.simps) (simp add: rd_at_def)
  ultimately show ?thesis by (intro exI [of _ ?r]) simp
qed

lemma nth_take_phys: "7 \<le> m \<Longrightarrow> i < 7 \<Longrightarrow> take m (phys t d) ! i = (phys t d @ []) ! i"
  by simp

lemma rd_truncated:
  assumes "rd_at o' (take m (phys t d)) r" "m < kHeaderSize + length d" "o' + kHeaderSize + length d \<le> kBlockSize" "valid_phys (t, d)"
  shows "\<exists>r'. ReadPhysicalRecord no_fault r = (kEof, None, r') \<and> lr_drops r' = lr_drops r"
proof (cases "m < kHeaderSize")
  case True
  then have "length (take m (phys t d)) < kHeaderSize" "length (take m (phys t d)) < kBlockSize - o'" using assms(3) by simp_all
  then show ?thesis using rd_short [OF assms(1)] by simp
next
  case False
  let ?X = "take m (phys t d)"
  have lX: "length ?X = m" using assms(2) by simp
  have b: "lr_buffer r = ?X" "lr_eof r" using rd_buffer [OF assms(1)] assms lX by (auto simp: rd_at_def)
  have l: "length d \<le> 0xffff" using assms(4) by (simp add: valid_phys_def)
  have "parse_physical r = (kEof, None, r\<lparr>lr_buffer := []\<rparr>)"
    unfolding parse_physical_def Let_def b nth_take_phys [OF leI [OF False], of 4, simplified] nth_take_phys [OF leI [OF False], of 5, simplified]
    using header_nth(1,2) [of t d "[]"] header_length [OF l] assms(2) b(2) lX by simp
  then show ?thesis using False lX b(1) by (subst ReadPhysicalRecord.simps) simp
qed

lemma rd_end:
  assumes "rd_at o' [] r"
  shows "\<exists>r'. ReadPhysicalRecord no_fault r = (kEof, None, r') \<and> lr_drops r' = lr_drops r"
proof (cases "kBlockSize - o' = 0")
  case True
  then obtain r' where "ReadPhysicalRecord no_fault r = ReadPhysicalRecord no_fault r'" "rd_at 0 [] r'" "lr_drops r' = lr_drops r"
    using rd_reload [OF assms] by auto
  then show ?thesis using rd_short [of 0 "[]" r'] by (simp add: kBlockSize_def)
next
  case False
  then show ?thesis using rd_short [OF assms] by simp
qed

lemma next_phys:
  assumes at: "rd_at o' (take m (lay o' ((t, d) # ps))) r" and fit: "fits o' ((t, d) # ps)"
  defines "n \<equiv> length (lay o' [(t, d)])"
  shows "if n \<le> m then \<exists>r'. ReadPhysicalRecord no_fault r = (t, Some d, r')
        \<and> rd_at (lay_end o' [(t, d)]) (take (m - n) (lay (lay_end o' [(t, d)]) ps)) r' \<and> lr_drops r' = lr_drops r
      else \<exists>r'. ReadPhysicalRecord no_fault r = (kEof, None, r') \<and> lr_drops r' = lr_drops r"
proof -
  have v: "valid_phys (t, d)" using fit by simp
  have core: "if kHeaderSize + length d \<le> k then \<exists>r'. ReadPhysicalRecord no_fault r0 = (t, Some d, r')
        \<and> rd_at (b + kHeaderSize + length d) (take (k - (kHeaderSize + length d)) Y) r' \<and> lr_drops r' = lr_drops r0
      else \<exists>r'. ReadPhysicalRecord no_fault r0 = (kEof, None, r') \<and> lr_drops r' = lr_drops r0"
    if "rd_at b (take k (phys t d @ Y)) r0" "b + kHeaderSize + length d \<le> kBlockSize" for b k Y r0
  proof (cases "kHeaderSize + length d \<le> k")
    case True
    then show ?thesis using rd_phys [of b t d "take (k - (kHeaderSize + length d)) Y" r0] that v by simp
  next
    case False
    then show ?thesis using rd_truncated [of b k t d r0] that v by simp
  qed
  show ?thesis
  proof (cases "kBlockSize - o' < kHeaderSize")
    case False
    then show ?thesis using core [of o' m "lay (o' + kHeaderSize + length d) ps" r] at fit by (simp add: n_def)
  next
    case True
    define z where "z = kBlockSize - o'"
    let ?Y = "lay (kHeaderSize + length d) ps"
    have at': "rd_at o' (take m (replicate z 0 @ phys t d @ ?Y)) r" using at True by (simp add: z_def)
    have n: "n = z + (kHeaderSize + length d)" using True by (simp add: n_def z_def)
    show ?thesis
    proof (cases "z \<le> m")
      case False
      then show ?thesis using rd_short [OF at'] True n by (simp flip: z_def)
    next
      case zm: True
      obtain r' where r': "ReadPhysicalRecord no_fault r = ReadPhysicalRecord no_fault r'" "lr_drops r' = lr_drops r"
          "rd_at 0 (take (m - z) (phys t d @ ?Y)) r'"
        using rd_reload [OF at' True] zm by (auto simp: drop_take simp flip: z_def)
      have e: "kHeaderSize + length d \<le> m - z \<longleftrightarrow> n \<le> m" "m - z - (kHeaderSize + length d) = m - n" using n zm by auto
      have "lay_end o' [(t, d)] = kHeaderSize + length d" using True by simp
      then show ?thesis using core [OF r'(3), unfolded e add_0] fit True r'(1,2) by (cases "n \<le> m") auto
    qed
  qed
qed

text \<open>One record of the layout: read completely, or taken for the end of the file when it is cut off.\<close>

lemma read_steps:
  assumes "ReadPhysicalRecord f r = (t, Some d, r1)" "\<not> resyncing r1"
  shows "t = kFullType \<Longrightarrow> \<exists>n. read_record f False [] prosp r = (Some d, r1\<lparr>resyncing := False, last_record_offset := n\<rparr>)"
    and "t = kLastType \<Longrightarrow> read_record f True scratch prosp r = (Some (scratch @ d), r1\<lparr>resyncing := False, last_record_offset := prosp\<rparr>)"
    and "t = kFirstType \<Longrightarrow> \<exists>n. read_record f False [] prosp r = read_record f True d n (r1\<lparr>resyncing := False\<rparr>)"
    and "t = kMiddleType \<Longrightarrow> read_record f True scratch prosp r = read_record f True (scratch @ d) prosp (r1\<lparr>resyncing := False\<rparr>)"
  using assms by (auto simp: read_record.simps [of _ _ _ _ r] Let_def)

lemma read_eof: "ReadPhysicalRecord f r = (kEof, None, r1) \<Longrightarrow> read_record f b scratch prosp r = (None, r1\<lparr>resyncing := False\<rparr>)"
  by (simp add: read_record.simps [of _ _ _ _ r] Let_def)

lemma rd_at_upd [simp]:
  "rd_at o' X r \<Longrightarrow> rd_at o' X (r\<lparr>resyncing := False, last_record_offset := n\<rparr>)"
  "rd_at o' X r \<Longrightarrow> rd_at o' X (r\<lparr>resyncing := False\<rparr>)"
  by (auto simp: rd_at_def)

lemma read_pieces:
  assumes "pieces b data qs" "rd_at o' (take m (lay o' (qs @ ps))) r" "fits o' (qs @ ps)" "b \<longrightarrow> scratch = []"
  shows "if length (lay o' qs) \<le> m
    then \<exists>r'. read_record no_fault (\<not> b) scratch prosp r = (Some (scratch @ data), r')
        \<and> rd_at (lay_end o' qs) (take (m - length (lay o' qs)) (lay (lay_end o' qs) ps)) r' \<and> lr_drops r' = lr_drops r
    else \<exists>r'. read_record no_fault (\<not> b) scratch prosp r = (None, r') \<and> lr_drops r' = lr_drops r"
  using assms
proof (induction b data qs arbitrary: o' m r scratch prosp rule: pieces.induct)
  case (2 b data t d)
  let ?n = "length (lay o' [(t, d)])"
  have td: "t = (if b then kFullType else kLastType)" "data = d" using 2(1) by simp_all
  show ?case
  proof (cases "?n \<le> m")
    case True
    then obtain r' where r': "ReadPhysicalRecord no_fault r = (t, Some d, r')"
        "rd_at (lay_end o' [(t, d)]) (take (m - ?n) (lay (lay_end o' [(t, d)]) ps)) r'" "lr_drops r' = lr_drops r"
      using next_phys [of o' m t d ps r] 2(2,3) by auto
    then have nr: "\<not> resyncing r'" by (simp add: rd_at_def)
    have "\<exists>n. read_record no_fault (\<not> b) scratch prosp r = (Some (scratch @ data), r'\<lparr>resyncing := False, last_record_offset := n\<rparr>)"
    proof (cases b)
      case True
      then show ?thesis using read_steps(1) [OF r'(1) nr, of prosp] td 2(4) by simp
    next
      case False
      then show ?thesis using read_steps(2) [OF r'(1) nr, of scratch prosp] td by (intro exI [of _ prosp]) simp
    qed
    then obtain n where "read_record no_fault (\<not> b) scratch prosp r
        = (Some (scratch @ data), r'\<lparr>resyncing := False, last_record_offset := n\<rparr>)" ..
    then show ?thesis using True r'(2,3) by simp
  next
    case False
    then obtain r' where r': "ReadPhysicalRecord no_fault r = (kEof, None, r')" "lr_drops r' = lr_drops r"
      using next_phys [of o' m t d ps r] 2(2,3) by auto
    then show ?thesis using False read_eof [OF r'(1)] by simp
  qed
next
  case (3 b data t d q qs)
  let ?n = "length (lay o' [(t, d)])" and ?e = "lay_end o' [(t, d)]"
  obtain rest where td: "t = (if b then kFirstType else kMiddleType)" "data = d @ rest" "pieces False rest (q # qs)"
    using 3(2) by auto
  have l: "lay o' ((t, d) # q # qs) = lay o' [(t, d)] @ lay ?e (q # qs)" "lay_end o' ((t, d) # q # qs) = lay_end ?e (q # qs)"
    using lay_append [of o' "[(t, d)]" "q # qs"] by simp_all
  have f: "fits ?e ((q # qs) @ ps)" using 3(4) by simp
  show ?case
  proof (cases "?n \<le> m")
    case True
    then obtain r' where r': "ReadPhysicalRecord no_fault r = (t, Some d, r')"
        "rd_at ?e (take (m - ?n) (lay ?e ((q # qs) @ ps))) r'" "lr_drops r' = lr_drops r"
      using next_phys [of o' m t d "(q # qs) @ ps" r] 3(3,4) by auto
    then have nr: "\<not> resyncing r'" by (simp add: rd_at_def)
    have at': "rd_at ?e (take (m - ?n) (lay ?e ((q # qs) @ ps))) (r'\<lparr>resyncing := False\<rparr>)"
      using r'(2) by simp
    have "\<exists>q. read_record no_fault (\<not> b) scratch prosp r = read_record no_fault True (scratch @ d) q (r'\<lparr>resyncing := False\<rparr>)"
    proof (cases b)
      case True
      then show ?thesis using read_steps(3) [OF r'(1) nr, of prosp] td(1) 3(5) by simp
    next
      case False
      then show ?thesis using read_steps(4) [OF r'(1) nr, of scratch prosp] td(1) by (intro exI [of _ prosp]) simp
    qed
    then obtain prosp' where
      "read_record no_fault (\<not> b) scratch prosp r = read_record no_fault True (scratch @ d) prosp' (r'\<lparr>resyncing := False\<rparr>)" ..
    then show ?thesis
      using 3(1) [OF td(3) at' f, of "scratch @ d" prosp'] td(2) l r'(3) True by (auto split: if_splits)
  next
    case False
    then obtain r' where r': "ReadPhysicalRecord no_fault r = (kEof, None, r')" "lr_drops r' = lr_drops r"
      using next_phys [of o' m t d "(q # qs) @ ps" r] 3(3,4) by auto
    then show ?thesis using False l read_eof [OF r'(1)] by simp
  qed
qed simp

section \<open>Whole logs\<close>

lemma lr_size_upd [simp]:
  "lr_size (r\<lparr>resyncing := x\<rparr>) = lr_size r" "lr_size (r\<lparr>last_record_offset := y\<rparr>) = lr_size r"
  "lr_size (ReportCorruption n r) = lr_size r"
  by (simp_all add: lr_size_def)

lemma read_record_size:
  "read_record read_fault frag scratch prosp r = (Some x, r') \<Longrightarrow> lr_size r' < lr_size r"
proof (induction "lr_size r" arbitrary: frag scratch prosp r rule: less_induct)
  case less
  obtain t res r1 where p: "ReadPhysicalRecord read_fault r = (t, res, r1)" by (metis surj_pair)
  show ?case
  proof (cases "t = kEof")
    case True
    then show ?thesis using less.prems p by (simp add: read_record.simps [of _ _ _ _ r] Let_def)
  next
    case False
    then have sz: "lr_size r1 < lr_size r" by (rule ReadPhysicalRecord_size [OF p])
    have ih: "lr_size r' < lr_size r" if "read_record read_fault f s q r2 = (Some x, r')" "lr_size r2 = lr_size r1" for f s q r2
      using less.hyps [of r2 f s q] that sz by simp
    have ret: "lr_size r' < lr_size r" if "r2 = r'" "lr_size r2 = lr_size r1" for r2 using that sz by simp
    show ?thesis
      using less.prems False unfolding read_record.simps [of read_fault frag scratch prosp r] p prod.case Let_def
      by (simp split: if_splits) (erule ih ret conjunct2 [THEN ret], simp)+
  qed
qed

lemma ReadRecord_size: "ReadRecord read_fault r = (Some x, r') \<Longrightarrow> lr_size r' < lr_size r"
proof -
  assume a: "ReadRecord read_fault r = (Some x, r')"
  have "lr_size (if last_record_offset r < initial_offset r then SkipToInitialBlock r else r) \<le> lr_size r"
    by (simp add: SkipToInitialBlock_def lr_size_def Let_def)
  then show ?thesis using read_record_size a unfolding ReadRecord_def by (meson less_le_trans)
qed

text \<open>Reading until \<open>ReadRecord\<close> returns false.\<close>

function read_all :: "(nat \<Rightarrow> bool) \<Rightarrow> log_reader \<Rightarrow> bytes list \<times> log_reader" where
  "read_all read_fault r =
     (case ReadRecord read_fault r of
        (None, r') \<Rightarrow> ([], r')
      | (Some x, r') \<Rightarrow> (let (xs, r'') = read_all read_fault r' in (x # xs, r'')))"
  by pat_completeness auto
termination
  by (relation "measure (\<lambda>(_, r). lr_size r)") (auto dest: sym [THEN ReadRecord_size])

declare read_all.simps [simp del]

text \<open>Writing records; a status other than success counts as a failure.\<close>

definition write_all :: "bytes list \<Rightarrow> log_writer \<Rightarrow> log_writer res" where
  "write_all xs w =
     res_fold (\<lambda>x w. res_bind (AddRecord no_fault x w) (\<lambda>(w, s). if s = OK then Ok w else Err Assert_failed)) xs w"

lemma write_all_snoc:
  "write_all xs w = Ok w1 \<Longrightarrow> write_all (xs @ [x]) w = Ok w2 \<longleftrightarrow> AddRecord no_fault x w1 = Ok (w2, OK)"
  by (auto simp: write_all_def res_fold_append split: if_splits)

lemma write_all_layout:
  "block_offset w \<le> kBlockSize \<Longrightarrow> \<exists>w' pss. write_all xs w = Ok w' \<and> list_all2 (pieces True) xs pss
    \<and> fits (block_offset w) (concat pss) \<and> lw_dest w' = lw_dest w @ lay (block_offset w) (concat pss)"
proof (induction xs arbitrary: w)
  case (Cons x xs)
  obtain w1 ps where w1: "add_record no_fault True x w = Ok (w1, OK)" "pieces True x ps" "fits (block_offset w) ps"
      "lw_dest w1 = lw_dest w @ lay (block_offset w) ps" "block_offset w1 = lay_end (block_offset w) ps"
    using add_record_layout [OF Cons.prems, of True x] by (elim exE conjE) (rule that)
  have "block_offset w1 \<le> kBlockSize" using w1(3,5) fits_append [of "block_offset w" ps "[]"] by simp
  then obtain w2 pss where w2: "write_all xs w1 = Ok w2" "list_all2 (pieces True) xs pss" "fits (block_offset w1) (concat pss)"
      "lw_dest w2 = lw_dest w1 @ lay (block_offset w1) (concat pss)"
    using Cons.IH by blast
  then show ?case using w1
    by (intro exI [of _ w2] exI [of _ "ps # pss"]) (simp add: write_all_def AddRecord_def lay_append fits_append)
qed (auto simp: write_all_def intro!: exI [of _ "[]"])

text \<open>The reports of a reader only grow.\<close>

lemma parse_physical_drops: "parse_physical r = (t, f, r') \<Longrightarrow> length (lr_drops r) \<le> length (lr_drops r')"
  by (auto simp: parse_physical_def ReportCorruption_def ReportDrop_def Let_def split: if_splits)

lemma ReadPhysicalRecord_drops: "ReadPhysicalRecord fault r = (t, f, r') \<Longrightarrow> length (lr_drops r) \<le> length (lr_drops r')"
proof (induction fault r rule: ReadPhysicalRecord.induct)
  case (1 fault r)
  have "refill fault r = Some r1 \<Longrightarrow> lr_drops r1 = lr_drops r" for r1
    by (auto simp: refill_def Let_def split: if_splits)
  then show ?case
    using 1 parse_physical_drops [of r t f r']
    by (auto simp: ReadPhysicalRecord.simps [of fault r] ReportDrop_def split: if_splits option.splits)
qed

lemma report_drops: "length (lr_drops r) \<le> length (lr_drops (ReportCorruption n r))"
  by (simp add: ReportCorruption_def ReportDrop_def)

lemma read_record_drops:
  "read_record fault frag scratch prosp r = (x, r') \<Longrightarrow> length (lr_drops r) \<le> length (lr_drops r')"
proof (induction "lr_size r" arbitrary: frag scratch prosp r rule: less_induct)
  case less
  obtain t res r1 where p: "ReadPhysicalRecord fault r = (t, res, r1)" by (metis surj_pair)
  have d: "length (lr_drops r) \<le> length (lr_drops r1)" by (rule ReadPhysicalRecord_drops [OF p])
  show ?case
  proof (cases "t = kEof")
    case True
    then show ?thesis using less.prems p d by (auto simp: read_record.simps [of _ _ _ _ r] Let_def)
  next
    case False
    then have sz: "lr_size r1 < lr_size r" by (rule ReadPhysicalRecord_size [OF p])
    have ih: "length (lr_drops r) \<le> length (lr_drops r')"
      if "read_record fault f s q r2 = (x, r')" "lr_size r2 = lr_size r1" "length (lr_drops r1) \<le> length (lr_drops r2)" for f s q r2
      using less.hyps [of r2 f s q] that sz d by simp
    have ret: "length (lr_drops r) \<le> length (lr_drops r')" if "r2 = r'" "length (lr_drops r1) \<le> length (lr_drops r2)" for r2
      using that d by simp
    show ?thesis
      using less.prems False unfolding read_record.simps [of fault frag scratch prosp r] p prod.case Let_def
      by (simp split: if_splits)
        (erule ih ret conjunct2 [THEN ret], simp_all add: lr_size_def ReportCorruption_def ReportDrop_def; fail)+
  qed
qed

lemma ReadRecord_drops: "ReadRecord fault r = (x, r') \<Longrightarrow> length (lr_drops r) \<le> length (lr_drops r')"
  unfolding ReadRecord_def by (drule read_record_drops) (simp add: SkipToInitialBlock_def Let_def split: if_splits)

lemma read_all_drops: "length (lr_drops r) \<le> length (lr_drops (snd (read_all fault r)))"
proof (induction fault r rule: read_all.induct)
  case (1 fault r)
  obtain x r1 where x: "ReadRecord fault r = (x, r1)"
    by fastforce
  show ?case
    using 1 [OF x [symmetric]] ReadRecord_drops [OF x] x
    by (cases x) (auto simp: read_all.simps [of fault r] split: prod.split)
qed

text \<open>Reading what is left of a layout that is cut off after \<open>m\<close> bytes.\<close>

lemma read_all_layout:
  assumes "list_all2 (pieces True) xs pss" "rd_at o' (take m (lay o' (concat pss))) r" "fits o' (concat pss)"
  shows "\<exists>n r'. read_all no_fault r = (take n xs, r') \<and> lr_drops r' = lr_drops r
    \<and> (length (lay o' (concat pss)) \<le> m \<longrightarrow> length xs \<le> n)"
  using assms
proof (induction xs pss arbitrary: o' m r rule: list_all2_induct)
  case Nil
  obtain r' where "ReadPhysicalRecord no_fault r = (kEof, None, r')" "lr_drops r' = lr_drops r"
    using rd_end [of o' r] Nil by auto
  then have "ReadRecord no_fault r = (None, r'\<lparr>resyncing := False\<rparr>)"
    using Nil(1) by (simp add: ReadRecord_def rd_at_def read_record.simps [of _ _ _ _ r] Let_def)
  then show ?case using \<open>lr_drops r' = lr_drops r\<close> by (simp add: read_all.simps [of _ r])
next
  case (Cons x xs ps pss)
  have rr: "ReadRecord no_fault r = read_record no_fault False [] 0 r" using Cons(4) by (simp add: ReadRecord_def rd_at_def)
  let ?n = "length (lay o' ps)" and ?e = "lay_end o' ps"
  have f: "fits ?e (concat pss)" using Cons(5) by (simp add: fits_append)
  show ?case
  proof (cases "?n \<le> m")
    case True
    then obtain r' where r': "read_record no_fault False [] 0 r = (Some x, r')"
        "rd_at ?e (take (m - ?n) (lay ?e (concat pss))) r'" "lr_drops r' = lr_drops r"
      using read_pieces [OF Cons(1), of o' m "concat pss" r "[]" 0] Cons(4,5) by auto
    obtain k r'' where "read_all no_fault r' = (take k xs, r'')" "lr_drops r'' = lr_drops r'"
        "length (lay ?e (concat pss)) \<le> m - ?n \<longrightarrow> length xs \<le> k"
      using Cons(3) [OF r'(2) f] by blast
    then show ?thesis using rr r' True
      by (intro exI [of _ "Suc k"] exI [of _ r'']) (auto simp: read_all.simps [of _ r] lay_append)
  next
    case False
    then obtain r' where "read_record no_fault False [] 0 r = (None, r')" "lr_drops r' = lr_drops r"
      using read_pieces [OF Cons(1), of o' m "concat pss" r "[]" 0] Cons(4,5) by auto
    then show ?thesis using rr False
      by (intro exI [of _ 0] exI [of _ r']) (auto simp: read_all.simps [of _ r] lay_append)
  qed
qed

lemma log_cut:
  "\<exists>w. write_all xs (log_writer_new []) = Ok w \<and>
    (\<forall>m. \<exists>n r'. read_all no_fault (log_reader_new (take m (lw_dest w)) True True 0) = (take n xs, r') \<and> lr_drops r' = []
      \<and> (length (lw_dest w) \<le> m \<longrightarrow> length xs \<le> n))"
proof -
  have "block_offset (log_writer_new []) \<le> kBlockSize" by (simp add: log_writer_new_def)
  then obtain w pss where w: "write_all xs (log_writer_new []) = Ok w" "list_all2 (pieces True) xs pss"
      "fits 0 (concat pss)" "lw_dest w = lay 0 (concat pss)"
    using write_all_layout [of "log_writer_new []" xs] by (auto simp: log_writer_new_def)
  have f: "fits kBlockSize (concat pss)" using w(3) by (rule fits_full)
  have "\<exists>n r'. read_all no_fault (log_reader_new (take m (lw_dest w)) True True 0) = (take n xs, r') \<and> lr_drops r' = []
      \<and> (length (lw_dest w) \<le> m \<longrightarrow> length xs \<le> n)" for m
  proof -
    have at: "rd_at kBlockSize (take m (lay kBlockSize (concat pss))) (log_reader_new (take m (lw_dest w)) True True 0)"
      using w(4) by (simp add: rd_at_def log_reader_new_def lay_full)
    show ?thesis using read_all_layout [OF w(2) at f] w(4) by (simp add: log_reader_new_def lay_full)
  qed
  then show ?thesis using w(1) by blast
qed

text \<open>
  C30. The log is read back. Whatever records are written, none fails, and reading the file returns exactly
  them, in order, without reporting a corruption.
\<close>

theorem log_round_trip:
  "\<exists>w r'. write_all xs (log_writer_new []) = Ok w
    \<and> read_all no_fault (log_reader_new (lw_dest w) True True 0) = (xs, r') \<and> lr_drops r' = []"
proof -
  obtain w where w: "write_all xs (log_writer_new []) = Ok w"
      "\<forall>m. \<exists>n r'. read_all no_fault (log_reader_new (take m (lw_dest w)) True True 0) = (take n xs, r') \<and> lr_drops r' = []
      \<and> (length (lw_dest w) \<le> m \<longrightarrow> length xs \<le> n)"
    using log_cut by blast
  show ?thesis using w(1) w(2) [rule_format, of "length (lw_dest w)"] by auto
qed

text \<open>
  A crash loses only the end of the log. If the file is cut off at any byte, the reader returns a prefix of
  the written records and takes the torn record for the end of the file: nothing is invented, nothing
  is reordered, no corruption is reported.
\<close>

lemma log_crash_prefix:
  assumes "write_all xs (log_writer_new []) = Ok w"
  shows "\<exists>n r'. read_all no_fault (log_reader_new (take m (lw_dest w)) True True 0) = (take n xs, r') \<and> lr_drops r' = []"
  using log_cut [of xs] assms by (metis res.inject(2))

lemma log_crash_prefix_witness:
  "\<exists>w n r'. write_all [[1, 2, 3], [4]] (log_writer_new []) = Ok w
    \<and> read_all no_fault (log_reader_new (take 12 (lw_dest w)) True True 0) = (take n [[1, 2, 3], [4]], r')"
proof -
  obtain w where w: "write_all [[1, 2, 3], [4]] (log_writer_new []) = Ok w" using log_cut by blast
  then show ?thesis using log_crash_prefix [OF w, of 12] by blast
qed

section \<open>Appending to a torn log\<close>

lemma AddRecord_small:
  assumes "block_offset w + kHeaderSize + length d < kBlockSize"
  shows "\<exists>w'. AddRecord no_fault d w = Ok (w', OK) \<and> lw_dest w' = lw_dest w @ phys kFullType d"
proof -
  have "switch_block no_fault w = Ok w"
    using assms by (simp add: switch_block_def Let_def)
  moreover have "length d \<le> 0xffff"
    using assms by (simp add: kBlockSize_def)
  ultimately show ?thesis
    using assms by (auto simp: AddRecord_def add_record.simps [of _ _ _ w] EmitPhysicalRecord_def lw_append_def
        phys_def is_ok_def Let_def)
qed

text \<open>A file of less than a block that starts with the header of a record longer than the file ends there.\<close>

lemma read_torn:
  assumes "length d \<le> 0xffff" "length rest < length d" "kHeaderSize + length rest < kBlockSize"
  shows "\<exists>r'. read_all no_fault (log_reader_new (record_header t d @ rest) True True 0) = ([], r') \<and> lr_drops r' = []"
proof -
  let ?file = "record_header t d @ rest"
  let ?r = "log_reader_new ?file True True 0"
  have h: "?file ! 4 = ucast ((word_of_nat (length d) :: 64 word) AND 0xff)"
    "?file ! 5 = ucast (drop_bit 8 (word_of_nat (length d) :: 64 word))"
    using header_nth(1,2) [of t d "[]"] by (simp_all add: phys_def nth_append)
  obtain r1 where r1: "refill no_fault ?r = Some r1" "lr_buffer r1 = ?file" "lr_eof r1" "lr_drops r1 = []"
    using assms(3) by (simp add: refill_def log_reader_new_def Let_def)
  have "parse_physical r1 = (kEof, None, r1\<lparr>lr_buffer := []\<rparr>)"
    using assms(2) r1(3) unfolding parse_physical_def Let_def r1(2) h header_length [OF assms(1)] by simp
  then have "ReadPhysicalRecord no_fault r1 = (kEof, None, r1\<lparr>lr_buffer := []\<rparr>)"
    using r1(2) by (subst ReadPhysicalRecord.simps) simp
  then have "ReadPhysicalRecord no_fault ?r = (kEof, None, r1\<lparr>lr_buffer := []\<rparr>)"
    using r1(1) by (subst ReadPhysicalRecord.simps) (simp add: log_reader_new_def)
  then have "read_record no_fault False [] 0 ?r = (None, r1\<lparr>lr_buffer := [], resyncing := False\<rparr>)"
    by (subst read_record.simps) simp
  moreover have "\<not> last_record_offset ?r < initial_offset ?r"
    by (simp add: log_reader_new_def)
  ultimately have "read_all no_fault ?r = ([], r1\<lparr>lr_buffer := [], resyncing := False\<rparr>)"
    by (subst read_all.simps) (simp add: ReadRecord_def)
  then show ?thesis
    using r1(4) by simp
qed

text \<open>
  C38. A log that ends in a torn record must not be extended. When a crash leaves only the header of a record and
  the file is opened again for appending (option \<open>reuse_logs\<close>), the next record is written without an error
  and is then lost without a report: the reader takes it for the missing part of the torn one.
\<close>

theorem log_reuse_loses:
  assumes "length b + kHeaderSize < length a" "kHeaderSize + length a < kBlockSize"
  shows "\<exists>w w' r'. write_all [a] (log_writer_new []) = Ok w \<and> kHeaderSize < length (lw_dest w)
    \<and> write_all [b] (log_writer_new (take kHeaderSize (lw_dest w))) = Ok w'
    \<and> read_all no_fault (log_reader_new (lw_dest w') True True 0) = ([], r') \<and> lr_drops r' = []"
proof -
  obtain w where w: "AddRecord no_fault a (log_writer_new []) = Ok (w, OK)" "lw_dest w = phys kFullType a"
    using AddRecord_small [of "log_writer_new []" a] assms by (auto simp: log_writer_new_def)
  have t: "take kHeaderSize (lw_dest w) = record_header kFullType a"
    by (simp add: w(2) phys_def)
  obtain w' where w': "AddRecord no_fault b (log_writer_new (record_header kFullType a)) = Ok (w', OK)"
    "lw_dest w' = record_header kFullType a @ phys kFullType b"
    using AddRecord_small [of "log_writer_new (record_header kFullType a)" b] assms by (auto simp: log_writer_new_def)
  have "length a \<le> 0xffff"
    using assms by (simp add: kBlockSize_def)
  from read_torn [OF this, of "phys kFullType b" kFullType] assms w w' t show ?thesis
    by (auto simp: write_all_def)
qed

theorem log_reuse_loses_witness:
  "\<exists>w w' r'. write_all [replicate 100 0] (log_writer_new []) = Ok w
    \<and> write_all [[1, 2, 3]] (log_writer_new (take kHeaderSize (lw_dest w))) = Ok w'
    \<and> read_all no_fault (log_reader_new (lw_dest w') True True 0) = ([], r') \<and> lr_drops r' = []"
  using log_reuse_loses [of "[1, 2, 3]" "replicate 100 0"] by (auto simp: kBlockSize_def)

end
