(* ===== verification/Db.thy ===== *)
theory Db
  imports WriteBatch LogFile
begin

text \<open>
  The write path of \<open>leveldb/db/db_impl.cc\<close>: \<open>Write\<close> with the grouping of waiting writers
  (\<open>BuildBatchGroup\<close>), \<open>Put\<close>, \<open>Delete\<close>, \<open>Get\<close> and the recovery of a log (\<open>RecoverLogFile\<close>). The model is
  of a database whose memtable has room (\<open>MakeRoomForWrite\<close> does not switch to a new one) and that has
  no table files yet, so a lookup that the memtable does not answer ends with \<open>NotFound\<close>. The lemmas
  show that the database is the map that the updates build, and that after a crash at any byte
  of the log it is the map that a prefix of the committed groups builds.
\<close>

section \<open>Operations\<close>

text \<open>A writer in the queue \<open>writers_\<close>; the batch is \<open>None\<close> for a request to compact.\<close>

record writer =
  wr_batch :: "bytes option"
  wr_sync :: bool

record db =
  db_log :: log_writer
  db_mem :: memtable
  last_sequence :: "64 word"
  tmp_batch :: bytes
  bg_error :: status

definition db_new :: db where
  "db_new = \<lparr>db_log = log_writer_new [], db_mem = memtable_new, last_sequence = 0, tmp_batch = wb_clear, bg_error = OK\<rparr>"

text \<open>
  The loop of \<open>BuildBatchGroup\<close>: \<open>result\<close> is \<open>None\<close> while it is the batch of the first writer, \<open>lastw\<close> counts
  the writers in the group so far.
\<close>

fun group_loop :: "bool \<Rightarrow> bytes \<Rightarrow> bytes \<Rightarrow> nat \<Rightarrow> writer list \<Rightarrow> nat \<Rightarrow> bytes option \<Rightarrow> nat \<Rightarrow> (bytes option \<times> nat) res" where
  "group_loop sync first tmp max_size [] sz result lastw = Ok (result, lastw)"
| "group_loop sync first tmp max_size (w # ws) sz result lastw =
     (if wr_sync w \<and> \<not> sync then Ok (result, lastw)
      else
        (case wr_batch w of
           None \<Rightarrow> group_loop sync first tmp max_size ws sz result (lastw + 1)
         | Some b \<Rightarrow>
             let sz = sz + length b in
             if sz > max_size then Ok (result, lastw)
             else
               res_bind
                 (case result of
                    None \<Rightarrow> res_bind (wb_count tmp) (\<lambda>n. if n = 0 then wb_append first tmp else Err Assert_failed)
                  | Some r \<Rightarrow> Ok r)
                 (\<lambda>r. res_bind (wb_append b r) (\<lambda>r. group_loop sync first tmp max_size ws sz (Some r) (lastw + 1)))))"

text \<open>The group, whether it is \<open>tmp_batch_\<close>, and the number of writers in it.\<close>

definition BuildBatchGroup :: "writer list \<Rightarrow> bytes \<Rightarrow> (bytes \<times> bool \<times> nat) res" where
  "BuildBatchGroup writers tmp =
     (case writers of
        [] \<Rightarrow> Err Assert_failed
      | w # ws \<Rightarrow>
          (case wr_batch w of
             None \<Rightarrow> Err Assert_failed
           | Some first \<Rightarrow>
               let sz = length first;
                   max_size = (if sz \<le> 131072 then sz + 131072 else 1048576)
               in res_bind (group_loop (wr_sync w) first tmp max_size ws sz None 1) (\<lambda>(result, lastw).
                    Ok (case result of None \<Rightarrow> (first, False, lastw) | Some r \<Rightarrow> (r, True, lastw)))))"

text \<open>
  \<open>MakeRoomForWrite\<close>; \<open>room\<close> tells whether the memory of the memtable is within \<open>write_buffer_size\<close>. The switch to a
  new memtable and log file is not modelled: it shows as \<open>None\<close>. The delay for a crowded level 0 changes nothing.
\<close>

definition MakeRoomForWrite :: "bool \<Rightarrow> bool \<Rightarrow> db \<Rightarrow> status option" where
  "MakeRoomForWrite room force db =
     (if \<not> is_ok (bg_error db) then Some (bg_error db) else if \<not> force \<and> room then Some OK else None)"

definition RecordBackgroundError :: "status \<Rightarrow> db \<Rightarrow> db" where
  "RecordBackgroundError s db = (if is_ok (bg_error db) then db\<lparr>bg_error := s\<rparr> else db)"

text \<open>
  \<open>Write\<close> by the writer at the front of the queue. \<open>fault\<close> tells which calls on the log file fail, \<open>sync\<close> is
  the result of \<open>Sync\<close>. The result is the status for the writers of the group, their number, and the database;
  \<open>None\<close> where the memtable is switched.
\<close>

definition impl_write :: "(nat \<Rightarrow> bool) \<Rightarrow> status \<Rightarrow> bool \<Rightarrow> writer list \<Rightarrow> db \<Rightarrow> (status \<times> nat \<times> db) res option" where
  "impl_write fault sync room writers db =
     (case MakeRoomForWrite room (wr_batch (hd writers) = None) db of
        None \<Rightarrow> None
      | Some status \<Rightarrow> Some
         (if is_ok status \<and> wr_batch (hd writers) \<noteq> None then
            res_bind (BuildBatchGroup writers (tmp_batch db)) (\<lambda>(updates, is_tmp, lastw).
            res_bind (wb_set_sequence (last_sequence db + 1) updates) (\<lambda>updates.
            res_bind (wb_count updates) (\<lambda>n.
            res_bind (AddRecord fault updates (db_log db)) (\<lambda>(log, status).
              let (sync_error, status) =
                    (if is_ok status \<and> wr_sync (hd writers) then (\<not> is_ok sync, sync) else (False, status))
              in res_bind (if is_ok status then InsertInto updates (db_mem db) else Ok (status, db_mem db)) (\<lambda>(st, mem).
                   let db' = db\<lparr>db_log := log, db_mem := mem\<rparr>;
                       db' = (if sync_error then RecordBackgroundError status db' else db');
                       db' = (if is_tmp then db'\<lparr>tmp_batch := wb_clear\<rparr> else db')
                   in Ok (st, lastw, db'\<lparr>last_sequence := last_sequence db + scast n\<rparr>))))))
          else Ok (status, 1, db)))"

text \<open>\<open>DB::Put\<close> and \<open>DB::Delete\<close>: a batch of one update.\<close>

definition impl_put :: "(nat \<Rightarrow> bool) \<Rightarrow> status \<Rightarrow> bool \<Rightarrow> bool \<Rightarrow> bytes \<Rightarrow> bytes \<Rightarrow> db \<Rightarrow> (status \<times> nat \<times> db) res option" where
  "impl_put fault sync room opt_sync key val db =
     (case wb_put key val wb_clear of
        Err e \<Rightarrow> Some (Err e)
      | Ok b \<Rightarrow> impl_write fault sync room [\<lparr>wr_batch = Some b, wr_sync = opt_sync\<rparr>] db)"

definition impl_delete :: "(nat \<Rightarrow> bool) \<Rightarrow> status \<Rightarrow> bool \<Rightarrow> bool \<Rightarrow> bytes \<Rightarrow> db \<Rightarrow> (status \<times> nat \<times> db) res option" where
  "impl_delete fault sync room opt_sync key db =
     (case wb_delete key wb_clear of
        Err e \<Rightarrow> Some (Err e)
      | Ok b \<Rightarrow> impl_write fault sync room [\<lparr>wr_batch = Some b, wr_sync = opt_sync\<rparr>] db)"

text \<open>\<open>Get\<close> at a snapshot, or at the last sequence number.\<close>

definition impl_get :: "64 word option \<Rightarrow> bytes \<Rightarrow> db \<Rightarrow> (status \<times> bytes option) res" where
  "impl_get snapshot key db =
     res_bind (lookup_key_new key (case snapshot of Some s \<Rightarrow> s | None \<Rightarrow> last_sequence db)) (\<lambda>lkey.
     res_bind (mem_get (db_mem db) lkey) (\<lambda>r.
       Ok (case r of Found v \<Rightarrow> (OK, Some v) | Deleted \<Rightarrow> (NotFound, None) | Absent \<Rightarrow> (NotFound, None))))"

definition MaybeIgnoreError :: "bool \<Rightarrow> status \<Rightarrow> status" where
  "MaybeIgnoreError paranoid s = (if is_ok s \<or> paranoid then s else OK)"

text \<open>\<open>LogReporter::Corruption\<close>: only with paranoid checks does a corruption reach the status.\<close>

definition log_corruption :: "bool \<Rightarrow> status \<Rightarrow> status \<Rightarrow> status" where
  "log_corruption paranoid reason status = (if paranoid \<and> is_ok status then reason else status)"

text \<open>
  The loop of \<open>RecoverLogFile\<close>, for a log that fits one memtable. \<open>mem\<close> is \<open>None\<close> until the first record.
\<close>

function recover_loop :: "(nat \<Rightarrow> bool) \<Rightarrow> bool \<Rightarrow> log_reader \<Rightarrow> status \<Rightarrow> memtable option \<Rightarrow> 64 word \<Rightarrow> (status \<times> memtable option \<times> 64 word) res" where
  "recover_loop read_fault paranoid r status mem max_sequence =
     (case ReadRecord read_fault r of (rec, r') \<Rightarrow>
      let status = fold (\<lambda>(_, reason). log_corruption paranoid reason) (drop (length (lr_drops r)) (lr_drops r')) status in
      (case rec of
         None \<Rightarrow> Ok (status, mem, max_sequence)
       | Some contents \<Rightarrow>
           if \<not> is_ok status then Ok (status, mem, max_sequence)
           else if length contents < 12 then recover_loop read_fault paranoid r' (log_corruption paranoid Corruption status) mem max_sequence
           else
             res_bind (wb_set_contents contents) (\<lambda>b.
             res_bind (InsertInto b (case mem of None \<Rightarrow> memtable_new | Some m \<Rightarrow> m)) (\<lambda>(status, m).
               let status = MaybeIgnoreError paranoid status in
               if \<not> is_ok status then Ok (status, Some m, max_sequence)
               else
                 res_bind (wb_sequence b) (\<lambda>s. res_bind (wb_count b) (\<lambda>n.
                   let last_seq = s + scast n - 1 in
                   recover_loop read_fault paranoid r' status (Some m) (if last_seq > max_sequence then last_seq else max_sequence)))))))"
  by pat_completeness auto
termination
  by (relation "measure (\<lambda>(_, _, r, _). lr_size r)") (auto dest: sym [THEN ReadRecord_size])

declare recover_loop.simps [simp del]

definition RecoverLogFile :: "(nat \<Rightarrow> bool) \<Rightarrow> bool \<Rightarrow> bytes \<Rightarrow> (status \<times> memtable option \<times> 64 word) res" where
  "RecoverLogFile read_fault paranoid contents = recover_loop read_fault paranoid (log_reader_new contents True True 0) OK None 0"

section \<open>Groups of writers\<close>

text \<open>The updates a writer asks for; a request to compact has none.\<close>

definition writer_updates :: "writer \<Rightarrow> update list \<Rightarrow> bool" where
  "writer_updates w us \<longleftrightarrow> (case wr_batch w of None \<Rightarrow> us = [] | Some b \<Rightarrow> \<exists>s. b = batch s us)"

lemma group_loop_spec:
  assumes "list_all2 writer_updates ws uss"
    and "first = batch s0 us0" "result = None \<and> acc = us0 \<or> result = Some (batch 0 acc)"
  shows "\<exists>r n. group_loop sync first (batch 0 []) max_size ws sz result k = Ok (r, k + n) \<and> n \<le> length ws
    \<and> (r = None \<and> acc @ concat (take n uss) = us0 \<or> r = Some (batch 0 (acc @ concat (take n uss))))"
  using assms(1,3)
proof (induction ws uss arbitrary: result acc sz k rule: list_all2_induct)
  case Nil
  then show ?case
    by (auto intro!: exI [of _ 0])
next
  case (Cons w ws us uss)
  have stop: ?case if "group_loop sync first (batch 0 []) max_size (w # ws) sz result k = Ok (result, k)"
    using that Cons.prems by (intro exI [of _ result] exI [of _ 0]) auto
  show ?case
  proof (cases "wr_sync w \<and> \<not> sync")
    case True
    then show ?thesis by (intro stop) simp
  next
    case go: False
    show ?thesis
    proof (cases "wr_batch w")
      case None
      then have "us = []"
        using Cons.hyps(1) by (simp add: writer_updates_def)
      then show ?thesis
        using None go Cons.IH [OF Cons.prems, of "sz" "k + 1"] by (fastforce intro: exI [of _ "Suc _"])
    next
      case (Some b)
      then obtain s where b: "b = batch s us"
        using Cons.hyps(1) by (auto simp: writer_updates_def)
      show ?thesis
      proof (cases "sz + length b > max_size")
        case True
        then show ?thesis using Some go by (intro stop) simp
      next
        case False
        have "group_loop sync first (batch 0 []) max_size (w # ws) sz result k
            = group_loop sync first (batch 0 []) max_size ws (sz + length b) (Some (batch 0 (acc @ us))) (k + 1)"
          using Some go False Cons.prems by (auto simp: b assms(2) wb_append_batch)
        then show ?thesis
          using Cons.IH [of "Some (batch 0 (acc @ us))" "acc @ us" "sz + length b" "k + 1"]
          by (fastforce intro: exI [of _ "Suc _"])
      qed
    qed
  qed
qed

lemma BuildBatchGroup_spec:
  assumes "list_all2 writer_updates ws uss" "wr_batch w = Some (batch s0 us0)"
  shows "\<exists>s is_tmp n. BuildBatchGroup (w # ws) (batch 0 []) = Ok (batch s (concat (take n (us0 # uss))), is_tmp, n)
    \<and> 0 < n \<and> n \<le> length (w # ws)"
proof -
  obtain r n where g: "group_loop (wr_sync w) (batch s0 us0) (batch 0 [])
      (if length (batch s0 us0) \<le> 131072 then length (batch s0 us0) + 131072 else 1048576) ws (length (batch s0 us0)) None 1
        = Ok (r, 1 + n)" "n \<le> length ws"
    "r = None \<and> us0 @ concat (take n uss) = us0 \<or> r = Some (batch 0 (us0 @ concat (take n uss)))"
    using group_loop_spec [OF assms(1) refl, of None us0] by blast
  have "BuildBatchGroup (w # ws) (batch 0 [])
      = Ok (case r of None \<Rightarrow> (batch s0 us0, False, Suc n) | Some r \<Rightarrow> (r, True, Suc n))"
    unfolding BuildBatchGroup_def list.case assms(2) option.case Let_def g(1) by simp
  moreover have "concat (take (Suc n) (us0 # uss)) = us0 @ concat (take n uss)"
    by simp
  ultimately have "\<exists>s is_tmp. BuildBatchGroup (w # ws) (batch 0 []) = Ok (batch s (concat (take (Suc n) (us0 # uss))), is_tmp, Suc n)"
    using g(3) by (elim disjE conjE) (simp_all only: option.case, blast+)
  then show ?thesis
    using g(2) by (metis Suc_le_mono length_Cons zero_less_Suc)
qed

section \<open>Sequence numbers\<close>

text \<open>The records of committed groups, when \<open>N\<close> updates have been numbered before.\<close>

fun batches :: "nat \<Rightarrow> update list list \<Rightarrow> bytes list" where
  "batches N [] = []"
| "batches N (us # uss) = batch (word_of_nat (N + 1)) us # batches (N + length us) uss"

lemma batches_append: "batches N (uss @ vss) = batches N uss @ batches (N + length (concat uss)) vss"
  by (induction uss arbitrary: N) (auto simp: add_ac)

lemma take_batches: "take n (batches N uss) = batches N (take n uss)"
  by (induction uss arbitrary: n N) (auto simp: take_Cons' split: nat.splits)

lemma unat_seq: "n < 2 ^ 56 \<Longrightarrow> unat (word_of_nat n :: 64 word) = n"
  by (simp add: unsigned_of_nat take_bit_nat_eq_self)

lemma seq_le_max: "n < 2 ^ 56 \<Longrightarrow> word_of_nat n \<le> kMaxSequenceNumber"
  by (simp add: word_le_nat_alt unat_seq kMaxSequenceNumber_def)

lemma update_ops_ok:
  assumes "N + length us < 2 ^ 56" "list_all update_ok us"
  shows "ops_ok (update_ops (word_of_nat (N + 1)) us) \<and> (\<forall>x \<in> set (update_ops (word_of_nat (N + 1)) us). N < unat (fst x))"
  using assms
proof (induction us arbitrary: N)
  case (Cons u us)
  let ?s = "word_of_nat (N + 1) :: 64 word"
  have u: "op_ok (update_op ?s u)" "unat (fst (update_op ?s u)) = N + 1"
    using Cons.prems seq_le_max [of "N + 1"] unat_seq [of "N + 1"] by (cases u; simp)+
  have "update_ops (?s + 1) us = update_ops (word_of_nat (Suc N + 1)) us"
    by (simp add: add_ac)
  then show ?case
    using Cons.IH [of "Suc N"] Cons.prems u by (auto simp: ops_ok_def word_less_nat_alt)
qed (simp add: ops_ok_def)

lemma scast_count: "n < 2 ^ 31 \<Longrightarrow> scast (word_of_nat n :: 32 word) = (word_of_nat n :: 64 word)"
  by (simp add: signed_of_nat signed_take_bit_int_eq_self)

section \<open>The database\<close>

text \<open>
  The invariant: \<open>uss\<close> are the updates of the committed groups. The log holds one record for each group, the
  memtable all updates with their sequence numbers.
\<close>

definition db_inv :: "db \<Rightarrow> update list list \<Rightarrow> bool" where
  "db_inv db uss \<longleftrightarrow>
     write_all (batches 0 uss) (log_writer_new []) = Ok (db_log db) \<and>
     mem_rep (update_ops 1 (concat uss)) (db_mem db) \<and>
     last_sequence db = word_of_nat (length (concat uss)) \<and>
     list_all update_ok (concat uss) \<and> length (concat uss) < 2 ^ 56 \<and> list_all (\<lambda>us. length us < 2 ^ 31) uss \<and>
     tmp_batch db = wb_clear \<and> bg_error db = OK"

lemma db_inv_new: "db_inv db_new []"
  by (simp add: db_inv_def db_new_def write_all_def mem_rep_new)

lemma db_write_spec:
  assumes inv: "db_inv db uss" and ws: "list_all2 writer_updates (w # ws) vss" and b: "wr_batch w \<noteq> None"
    and ok: "list_all update_ok (concat vss)" "length (concat vss) < 2 ^ 31" "length (concat uss) + length (concat vss) < 2 ^ 56"
  shows "\<exists>n db'. impl_write no_fault OK True (w # ws) db = Some (Ok (OK, n, db')) \<and> 0 < n \<and> n \<le> length (w # ws)
    \<and> db_inv db' (uss @ [concat (take n vss)])"
proof -
  obtain us0 vss' where vss: "vss = us0 # vss'" "list_all2 writer_updates ws vss'" "writer_updates w us0"
    using ws by (cases vss) auto
  then obtain s0 where s0: "wr_batch w = Some (batch s0 us0)"
    using b by (auto simp: writer_updates_def split: option.splits)
  obtain s is_tmp n where g: "BuildBatchGroup (w # ws) (batch 0 []) = Ok (batch s (concat (take n vss)), is_tmp, n)"
    "0 < n" "n \<le> length (w # ws)"
    using BuildBatchGroup_spec [OF vss(2) s0] vss(1) by blast
  let ?us = "concat (take n vss)" and ?N = "length (concat uss)"
  have "concat vss = ?us @ concat (drop n vss)"
    by (metis append_take_drop_id concat_append)
  then have us: "list_all update_ok ?us" "length ?us < 2 ^ 31" "?N + length ?us < 2 ^ 56"
    using ok by auto
  let ?b = "batch (word_of_nat (?N + 1)) ?us"
  obtain log where log: "AddRecord no_fault ?b (db_log db) = Ok (log, OK)" "write_all (batches 0 (uss @ [?us])) (log_writer_new []) = Ok log"
    using inv log_cut [of "batches 0 (uss @ [?us])"] write_all_snoc [of "batches 0 uss" "log_writer_new []" "db_log db" ?b]
    by (auto simp: db_inv_def batches_append)
  have ops: "update_ops 1 (concat (uss @ [?us])) = update_ops 1 (concat uss) @ update_ops (word_of_nat (?N + 1)) ?us"
    by (simp add: update_ops_append add_ac)
  have "ops_ok (update_ops 1 (concat (uss @ [?us])))"
    using update_ops_ok [of 0 "concat (uss @ [?us])"] us inv by (simp add: db_inv_def)
  then obtain mem where mem: "res_fold mem_apply (update_ops (word_of_nat (?N + 1)) ?us) (db_mem db) = Ok mem"
    "mem_rep (update_ops 1 (concat (uss @ [?us]))) mem"
    using mem_apply_many inv unfolding ops db_inv_def by blast
  have ins: "InsertInto ?b (db_mem db) = Ok (OK, mem)"
    using us by (simp add: InsertInto_batch mem(1) [simplified])
  have i: "tmp_batch db = batch 0 []" "bg_error db = OK" "last_sequence db + 1 = word_of_nat (?N + 1)"
    "last_sequence db = word_of_nat ?N"
    using inv by (simp_all add: db_inv_def wb_clear_batch add_ac)
  define bt where "bt = ?b"
  have bt: "wb_set_sequence (last_sequence db + 1) (batch s ?us) = Ok bt" "wb_count bt = Ok (word_of_nat (length ?us))"
    "AddRecord no_fault bt (db_log db) = Ok (log, OK)" "InsertInto bt (db_mem db) = Ok (OK, mem)"
    unfolding bt_def i(3) using log(1) ins by (simp_all only: batch_header)
  define db' where "db' = (if is_tmp then db\<lparr>db_log := log, db_mem := mem, tmp_batch := batch 0 []\<rparr>
    else db\<lparr>db_log := log, db_mem := mem\<rparr>)\<lparr>last_sequence := word_of_nat (?N + length ?us)\<rparr>"
  have "impl_write no_fault OK True (w # ws) db = Some (Ok (OK, n, db'))"
    using b by (auto simp: impl_write_def MakeRoomForWrite_def i(1,2) g(1) bt is_ok_def Let_def
        scast_count [OF us(2)] db'_def wb_clear_batch simp del: batch_header) (simp_all add: i(4))
  moreover have "db_inv db' (uss @ [?us])"
    using inv us log(2) mem(2) unfolding db_inv_def by (simp add: db'_def wb_clear_batch)
  ultimately show ?thesis
    using g(2,3) by blast
qed

section \<open>Lookups\<close>

text \<open>The abstract database: the map that a list of updates builds.\<close>

fun apply_update :: "update \<Rightarrow> (bytes \<rightharpoonup> bytes) \<Rightarrow> (bytes \<rightharpoonup> bytes)" where
  "apply_update (Put k v) m = m(k \<mapsto> v)"
| "apply_update (Delete k) m = m(k := None)"

definition contents :: "update list \<Rightarrow> (bytes \<rightharpoonup> bytes)" where
  "contents us = fold apply_update us Map.empty"

fun get_value :: "get_result \<Rightarrow> bytes option" where
  "get_value (Found v) = Some v"
| "get_value _ = None"

lemma ops_get_snoc: "ops_get (ops @ [x]) k s = (if visible k s x then op_result x else ops_get ops k s)"
  by (simp add: ops_get_def)

lemma ops_get_contents:
  assumes "length us < 2 ^ 56" "n < 2 ^ 56"
  shows "get_value (ops_get (update_ops 1 us) k (word_of_nat n)) = contents (take n us) k"
  using assms(1)
proof (induction us rule: rev_induct)
  case Nil
  then show ?case by (simp add: ops_get_def contents_def)
next
  case (snoc u us)
  let ?s = "word_of_nat (length us + 1) :: 64 word"
  have op: "update_ops 1 (us @ [u]) = update_ops 1 us @ [update_op ?s u]"
    by (simp add: update_ops_append add_ac)
  have le: "?s \<le> word_of_nat n \<longleftrightarrow> length us < n"
    using snoc.prems assms(2) unat_seq [of n] unat_seq [of "length us + 1"] by (simp only: word_le_nat_alt) auto
  have key: "op_key (update_op ?s u) = (case u of Put k' _ \<Rightarrow> k' | Delete k' \<Rightarrow> k')" "fst (update_op ?s u) = ?s"
    by (cases u; simp add: op_key_def)+
  show ?case
    unfolding op ops_get_snoc visible_def key le using snoc
    by (cases u) (auto simp: contents_def take_Cons' not_less)
qed

text \<open>The memtable holds the updates \<open>us\<close>.\<close>

definition mem_holds :: "update list \<Rightarrow> memtable \<Rightarrow> bool" where
  "mem_holds us mem \<longleftrightarrow> mem_rep (update_ops 1 us) mem \<and> list_all update_ok us \<and> length us < 2 ^ 56"

lemma db_get_spec:
  assumes "mem_holds us (db_mem db)" "length k + 8 < 2 ^ 32" "n \<le> length us"
  shows "impl_get (Some (word_of_nat n)) k db = Ok (case contents (take n us) k of Some v \<Rightarrow> (OK, Some v) | None \<Rightarrow> (NotFound, None))"
proof -
  have us: "length us < 2 ^ 56" "list_all update_ok us" "mem_rep (update_ops 1 us) (db_mem db)"
    using assms(1) by (simp_all add: mem_holds_def)
  then have "ops_ok (update_ops 1 us)"
    using update_ops_ok [of 0 us] by simp
  moreover have "op_ok (word_of_nat n, kTypeValue, k, [])"
    using assms(2,3) us(1) seq_le_max [of n] by simp
  ultimately obtain lk where "lookup_key_new k (word_of_nat n) = Ok lk"
    "mem_get (db_mem db) lk = Ok (ops_get (update_ops 1 us) k (word_of_nat n))"
    using mem_get_spec [OF us(3)] by blast
  moreover have "contents (take n us) k = get_value (ops_get (update_ops 1 us) k (word_of_nat n))"
    using us(1) assms(3) by (intro ops_get_contents [symmetric]) auto
  ultimately show ?thesis
    by (cases "ops_get (update_ops 1 us) k (word_of_nat n)") (simp_all add: impl_get_def)
qed

lemma db_get_last:
  assumes "mem_holds us (db_mem db)" "length k + 8 < 2 ^ 32" "last_sequence db = word_of_nat (length us)"
  shows "impl_get None k db = Ok (case contents us k of Some v \<Rightarrow> (OK, Some v) | None \<Rightarrow> (NotFound, None))"
  using db_get_spec [OF assms(1,2) order_refl] assms(3) by (simp add: impl_get_def)

lemma db_inv_holds: "db_inv db uss \<Longrightarrow> mem_holds (concat uss) (db_mem db)"
  by (simp add: db_inv_def mem_holds_def)

section \<open>Recovery\<close>

lemma recover_step:
  assumes "ReadRecord fault r = (Some (batch (word_of_nat (N + 1)) us), r')" "length (lr_drops r') = length (lr_drops r)"
    and "list_all update_ok us" "length us < 2 ^ 31" "N + length us < 2 ^ 56"
    and "res_fold mem_apply (update_ops (word_of_nat (N + 1)) us) (case mem of None \<Rightarrow> memtable_new | Some m \<Rightarrow> m) = Ok m"
  shows "recover_loop fault paranoid r OK mem (word_of_nat N) = recover_loop fault paranoid r' OK (Some m) (word_of_nat (N + length us))"
proof -
  define b s where "b = batch (word_of_nat (N + 1)) us" and "s = (word_of_nat (N + 1) :: 64 word)"
  have ins: "InsertInto b (case mem of None \<Rightarrow> memtable_new | Some m \<Rightarrow> m) = Ok (OK, m)"
    using assms unfolding b_def by (simp only: InsertInto_batch res_bind.simps)
  have b: "wb_sequence b = Ok s" "wb_count b = Ok (word_of_nat (length us))" "\<not> length b < 12" "12 \<le> length b"
    using batch_header(4) [of "word_of_nat (N + 1)" us] by (simp_all only: b_def s_def batch_header not_less)
  have "(if s + word_of_nat (length us) - 1 > word_of_nat N then s + word_of_nat (length us) - 1 else word_of_nat N)
      = (word_of_nat (N + length us) :: 64 word)"
    using assms(5) unat_seq [of N] unat_seq [of "N + length us"] by (auto simp: s_def word_less_nat_alt)
  then show ?thesis
    using assms(1) unfolding b_def [symmetric] by (subst recover_loop.simps)
      (simp add: assms(2) ins b scast_count [OF assms(4)] is_ok_def wb_set_contents_def kHeader_def MaybeIgnoreError_def Let_def
        del: of_nat_add split: if_splits)
qed

lemma read_all_cases:
  assumes "read_all fault r = (xs, r')" "length (lr_drops r') = length (lr_drops r)"
  shows "xs = [] \<Longrightarrow> ReadRecord fault r = (None, r')"
    and "xs = y # ys \<Longrightarrow> \<exists>r1. ReadRecord fault r = (Some y, r1) \<and> read_all fault r1 = (ys, r')
      \<and> length (lr_drops r1) = length (lr_drops r) \<and> length (lr_drops r') = length (lr_drops r1)"
proof -
  obtain x r1 where x: "ReadRecord fault r = (x, r1)"
    by fastforce
  show "xs = [] \<Longrightarrow> ReadRecord fault r = (None, r')"
    using assms(1) x by (cases x) (auto simp: read_all.simps [of fault r] split: prod.splits)
  show "\<exists>r1. ReadRecord fault r = (Some y, r1) \<and> read_all fault r1 = (ys, r')
      \<and> length (lr_drops r1) = length (lr_drops r) \<and> length (lr_drops r') = length (lr_drops r1)" if "xs = y # ys"
    using assms x that ReadRecord_drops [OF x] read_all_drops [of r1 fault]
    by (cases x) (auto simp: read_all.simps [of fault r] split: prod.splits)
qed

lemma recover_batches:
  assumes "read_all fault r = (batches N uss, r')" "length (lr_drops r') = length (lr_drops r)"
    and "list_all update_ok (concat uss)" "list_all (\<lambda>us. length us < 2 ^ 31) uss" "N + length (concat uss) < 2 ^ 56"
    and "mem_rep ops (case mem of None \<Rightarrow> memtable_new | Some m \<Rightarrow> m)" "ops_ok (ops @ update_ops (word_of_nat (N + 1)) (concat uss))"
  shows "\<exists>mem'. recover_loop fault paranoid r OK mem (word_of_nat N) = Ok (OK, mem', word_of_nat (N + length (concat uss)))
    \<and> mem_rep (ops @ update_ops (word_of_nat (N + 1)) (concat uss)) (case mem' of None \<Rightarrow> memtable_new | Some m \<Rightarrow> m)"
  using assms
proof (induction uss arbitrary: N r mem ops)
  case Nil
  then have "ReadRecord fault r = (None, r')"
    using read_all_cases(1) by (metis batches.simps(1))
  then show ?case
    using Nil.prems by (subst recover_loop.simps) simp
next
  case (Cons us uss)
  obtain r1 where r1: "ReadRecord fault r = (Some (batch (word_of_nat (N + 1)) us), r1)" "read_all fault r1 = (batches (N + length us) uss, r')"
    "length (lr_drops r1) = length (lr_drops r)" "length (lr_drops r') = length (lr_drops r1)"
    using read_all_cases(2) [OF Cons.prems(1,2)] by auto
  have seq: "update_ops (word_of_nat (N + 1)) (concat (us # uss))
      = update_ops (word_of_nat (N + 1)) us @ update_ops (word_of_nat (N + length us + 1)) (concat uss)"
    by (simp add: update_ops_append add_ac)
  have ok: "ops_ok (ops @ update_ops (word_of_nat (N + 1)) us)"
    using Cons.prems(7) unfolding seq by (auto simp: ops_ok_def sorted_wrt_append)
  obtain m where m: "res_fold mem_apply (update_ops (word_of_nat (N + 1)) us) (case mem of None \<Rightarrow> memtable_new | Some m \<Rightarrow> m) = Ok m"
    "mem_rep (ops @ update_ops (word_of_nat (N + 1)) us) m"
    using mem_apply_many [OF Cons.prems(6) ok] by blast
  have step: "recover_loop fault paranoid r OK mem (word_of_nat N)
      = recover_loop fault paranoid r1 OK (Some m) (word_of_nat (N + length us))"
    using Cons.prems by (intro recover_step [OF r1(1,3) _ _ _ m(1)]) auto
  show ?case
    using Cons.IH [of r1 "N + length us" "ops @ update_ops (word_of_nat (N + 1)) us" "Some m"] Cons.prems r1(2,4) m(2)
    unfolding step seq by (simp add: add.assoc)
qed

lemma recover_spec:
  assumes inv: "db_inv db uss"
  shows "\<exists>n mem. RecoverLogFile no_fault paranoid (take m (lw_dest (db_log db)))
      = Ok (OK, mem, word_of_nat (length (concat (take n uss))))
    \<and> mem_holds (concat (take n uss)) (case mem of None \<Rightarrow> memtable_new | Some m \<Rightarrow> m)
    \<and> (length (lw_dest (db_log db)) \<le> m \<longrightarrow> length uss \<le> n)"
proof -
  have uss: "list_all update_ok (concat uss)" "length (concat uss) < 2 ^ 56" "list_all (\<lambda>us. length us < 2 ^ 31) uss"
    and log: "write_all (batches 0 uss) (log_writer_new []) = Ok (db_log db)"
    using inv by (simp_all add: db_inv_def)
  have len: "length (batches N vss) = length vss" for N vss
    by (induction vss arbitrary: N) simp_all
  obtain n r' where r: "read_all no_fault (log_reader_new (take m (lw_dest (db_log db))) True True 0) = (batches 0 (take n uss), r')"
    "lr_drops r' = []" "length (lw_dest (db_log db)) \<le> m \<longrightarrow> length uss \<le> n"
  proof -
    obtain w where w: "write_all (batches 0 uss) (log_writer_new []) = Ok w"
      and cut: "\<And>m. \<exists>n r'. read_all no_fault (log_reader_new (take m (lw_dest w)) True True 0) = (take n (batches 0 uss), r')
        \<and> lr_drops r' = [] \<and> (length (lw_dest w) \<le> m \<longrightarrow> length (batches 0 uss) \<le> n)"
      using log_cut [of "batches 0 uss"] by (elim exE conjE) (rule that, blast+)
    have "w = db_log db"
      using log w by simp
    from cut [of m] show thesis
      unfolding \<open>w = db_log db\<close> take_batches len by (elim exE conjE) (rule that)
  qed
  have "concat uss = concat (take n uss) @ concat (drop n uss)"
    by (metis append_take_drop_id concat_append)
  then have t: "list_all update_ok (concat (take n uss))" "length (concat (take n uss)) < 2 ^ 56"
    using uss by auto
  have "list_all (\<lambda>us. length us < 2 ^ 31) (take n uss)"
    using uss(3) by (auto simp: list_all_iff dest: in_set_takeD)
  moreover have "ops_ok ([] @ update_ops (word_of_nat (0 + 1)) (concat (take n uss)))"
    using update_ops_ok [of 0 "concat (take n uss)"] t by simp
  moreover have "length (lr_drops r') = length (lr_drops (log_reader_new (take m (lw_dest (db_log db))) True True 0))"
    using r(2) by (simp add: log_reader_new_def)
  ultimately have "\<exists>mem'. RecoverLogFile no_fault paranoid (take m (lw_dest (db_log db)))
        = Ok (OK, mem', word_of_nat (length (concat (take n uss))))
      \<and> mem_holds (concat (take n uss)) (case mem' of None \<Rightarrow> memtable_new | Some m \<Rightarrow> m)"
    using recover_batches [OF r(1) _ t(1), of "[]" None paranoid] t mem_rep_new by (simp add: RecoverLogFile_def mem_holds_def)
  then show ?thesis
    using r(3) by blast
qed

section \<open>Runs of the database\<close>

text \<open>
  The states a database can be in after commits of waiting writers, with the updates of the commits.
\<close>

inductive db_run :: "db \<Rightarrow> update list list \<Rightarrow> bool" where
  new: "db_run db_new []"
| commit: "db_run db uss \<Longrightarrow> ws \<noteq> [] \<Longrightarrow> wr_batch (hd ws) \<noteq> None \<Longrightarrow> list_all2 writer_updates ws vss \<Longrightarrow>
    list_all update_ok (concat vss) \<Longrightarrow> length (concat vss) < 2 ^ 31 \<Longrightarrow>
    length (concat uss) + length (concat vss) < 2 ^ 56 \<Longrightarrow>
    impl_write no_fault OK True ws db = Some (Ok (st, n, db')) \<Longrightarrow> db_run db' (uss @ [concat (take n vss)])"

lemma db_run_inv: "db_run db uss \<Longrightarrow> db_inv db uss"
proof (induction rule: db_run.induct)
  case new
  then show ?case by (rule db_inv_new)
next
  case (commit db uss ws vss st n db')
  then obtain w ws' where ws: "ws = w # ws'"
    by (cases ws) auto
  have b: "wr_batch w \<noteq> None"
    using commit.hyps(3) ws by simp
  from db_write_spec [OF commit.IH commit.hyps(4) [unfolded ws] b commit.hyps(5-7)] show ?case
    using commit.hyps(8) unfolding ws by auto
qed

lemma one_commit: "\<exists>db. db_run db [[Put [1] [7]]]"
proof -
  define w where "w = \<lparr>wr_batch = Some (batch 0 [Put [1] [7]]), wr_sync = False\<rparr>"
  have w: "list_all2 writer_updates [w] [[Put [1] [7]]]" "wr_batch w \<noteq> None"
    by (auto simp: w_def writer_updates_def)
  obtain n db where db: "impl_write no_fault OK True [w] db_new = Some (Ok (OK, n, db))" "0 < n"
    using db_write_spec [OF db_inv_new w] by auto
  have "db_run db ([] @ [concat (take n [[Put [1] [7]]])])"
    using db(1) w by (intro db_run.commit [OF db_run.new, of "[w]"]) auto
  then show ?thesis
    using db(2) by (cases n) auto
qed

text \<open>
  C36. Well-formedness of the database and progress. In every state that commits lead to, the skip list of the memtable
  satisfies its invariant, the scratch batch is empty, no background error is recorded, and the last
  sequence number counts the updates; and from it any further queue of writers of admissible size is
  served: no assertion fails, the status is success, at least the first writer is done, and the result is
  such a state again.
\<close>

theorem db_well_formed:
  assumes "db_run db uss" "ws \<noteq> []" "wr_batch (hd ws) \<noteq> None" "list_all2 writer_updates ws vss"
    and "list_all update_ok (concat vss)" "length (concat vss) < 2 ^ 31" "length (concat uss) + length (concat vss) < 2 ^ 56"
  shows "(\<exists>xs hs. sl_inv mem_compare (db_mem db) xs hs) \<and> tmp_batch db = wb_clear \<and> bg_error db = OK
    \<and> last_sequence db = word_of_nat (length (concat uss))
    \<and> (\<exists>n db'. impl_write no_fault OK True ws db = Some (Ok (OK, n, db')) \<and> 0 < n \<and> n \<le> length ws \<and> db_run db' (uss @ [concat (take n vss)]))"
proof -
  have inv: "db_inv db uss"
    using assms(1) by (rule db_run_inv)
  obtain w ws' where ws: "ws = w # ws'"
    using assms(2) by (cases ws) auto
  have "wr_batch w \<noteq> None"
    using assms(3) ws by simp
  from db_write_spec [OF inv assms(4) [unfolded ws] this assms(5-7)]
  have "\<exists>n db'. impl_write no_fault OK True ws db = Some (Ok (OK, n, db')) \<and> 0 < n \<and> n \<le> length ws"
    unfolding ws by blast
  then show ?thesis
    using inv db_run.commit [OF assms] by (auto simp: db_inv_def mem_rep_def)
qed

theorem db_well_formed_witness:
  "\<exists>db n db'. db_run db [[Put [1] [7]]]
    \<and> impl_write no_fault OK True [\<lparr>wr_batch = Some (batch 0 [Delete [1]]), wr_sync = False\<rparr>] db = Some (Ok (OK, n, db'))"
proof -
  obtain db where run: "db_run db [[Put [1] [7]]]"
    using one_commit by blast
  have "list_all2 writer_updates [\<lparr>wr_batch = Some (batch 0 [Delete [1]]), wr_sync = False\<rparr>] [[Delete [1]]]"
    by (auto simp: writer_updates_def)
  from db_well_formed [OF run _ _ this] run show ?thesis
    by auto
qed

text \<open>
  C37. A failed \<open>Sync\<close> stops the database. When the log record of a write was appended but could not be forced to
  disk, the writers get that status, the memtable is unchanged, and every later write returns the same
  status and changes nothing.
\<close>

theorem db_sync_error:
  assumes "db_run db uss" "wr_batch w \<noteq> None" "wr_sync w" "e \<noteq> OK" "list_all2 writer_updates (w # ws) vss"
  shows "\<exists>n db'. impl_write no_fault e True (w # ws) db = Some (Ok (e, n, db')) \<and> db_mem db' = db_mem db
    \<and> (\<forall>fault sync room ws'. impl_write fault sync room ws' db' = Some (Ok (e, 1, db')))"
proof -
  have inv: "db_inv db uss"
    using assms(1) by (rule db_run_inv)
  obtain us0 vss' where vss: "vss = us0 # vss'" "list_all2 writer_updates ws vss'" "writer_updates w us0"
    using assms(5) by (cases vss) auto
  then obtain s0 where s0: "wr_batch w = Some (batch s0 us0)"
    using assms(2) by (auto simp: writer_updates_def split: option.splits)
  obtain s is_tmp n us where g: "BuildBatchGroup (w # ws) (batch 0 []) = Ok (batch s us, is_tmp, n)"
    using BuildBatchGroup_spec [OF vss(2) s0] by blast
  define bt where "bt = batch (last_sequence db + 1) us"
  obtain log where log: "AddRecord no_fault bt (db_log db) = Ok (log, OK)"
    using inv log_cut [of "batches 0 uss @ [bt]"] write_all_snoc [of "batches 0 uss" "log_writer_new []" "db_log db" bt]
    by (auto simp: db_inv_def)
  have bt: "wb_set_sequence (last_sequence db + 1) (batch s us) = Ok bt" "wb_count bt = Ok (word_of_nat (length us))"
    by (simp_all only: bt_def batch_header)
  define db' where "db' = (if is_tmp then db\<lparr>db_log := log, bg_error := e, tmp_batch := batch 0 []\<rparr>
    else db\<lparr>db_log := log, bg_error := e\<rparr>)\<lparr>last_sequence := last_sequence db + scast (word_of_nat (length us) :: 32 word)\<rparr>"
  have "tmp_batch db = batch 0 []" "bg_error db = OK"
    using inv by (simp_all add: db_inv_def wb_clear_batch)
  then have "impl_write no_fault e True (w # ws) db = Some (Ok (e, n, db'))"
    using assms(2-4) by (simp add: impl_write_def MakeRoomForWrite_def RecordBackgroundError_def g bt log is_ok_def Let_def
        db'_def wb_clear_batch del: batch_header)
  moreover have "impl_write fault sync room ws' db' = Some (Ok (e, 1, db'))" for fault sync room ws'
    using assms(4) by (simp add: impl_write_def MakeRoomForWrite_def is_ok_def db'_def)
  ultimately show ?thesis
    by (intro exI [of _ n] exI [of _ db']) (simp add: db'_def)
qed

theorem db_sync_error_witness:
  "\<exists>db n db'. impl_write no_fault IOError True [\<lparr>wr_batch = Some (batch 0 [Delete [1]]), wr_sync = True\<rparr>] db = Some (Ok (IOError, n, db'))
    \<and> impl_write no_fault OK True [\<lparr>wr_batch = Some (batch 0 [Delete [2]]), wr_sync = False\<rparr>] db' = Some (Ok (IOError, 1, db'))"
proof -
  obtain db where run: "db_run db [[Put [1] [7]]]"
    using one_commit by blast
  have "list_all2 writer_updates [\<lparr>wr_batch = Some (batch 0 [Delete [1]]), wr_sync = True\<rparr>] [[Delete [1]]]"
    by (auto simp: writer_updates_def)
  from db_sync_error [OF run _ _ _ this, of IOError] show ?thesis
    by simp blast
qed

text \<open>
  C4. The database is a map. In every state that commits of groups of writers lead to, \<open>Get\<close> returns the value
  that the updates, in the order of their commits, leave at the key, and \<open>NotFound\<close> if they leave none; at
  a snapshot it returns what the updates up to the snapshot leave.
\<close>

theorem db_is_map:
  assumes "db_run db uss" "length k + 8 < 2 ^ 32" "n \<le> length (concat uss)"
  shows "impl_get None k db = Ok (case contents (concat uss) k of Some v \<Rightarrow> (OK, Some v) | None \<Rightarrow> (NotFound, None))
    \<and> impl_get (Some (word_of_nat n)) k db
      = Ok (case contents (take n (concat uss)) k of Some v \<Rightarrow> (OK, Some v) | None \<Rightarrow> (NotFound, None))"
proof -
  have "db_inv db uss"
    using assms(1) by (rule db_run_inv)
  then have "mem_holds (concat uss) (db_mem db)" "last_sequence db = word_of_nat (length (concat uss))"
    by (simp_all add: db_inv_holds, simp add: db_inv_def)
  then show ?thesis
    using db_get_last db_get_spec assms(2,3) by blast
qed

theorem db_is_map_witness:
  "\<exists>db. db_run db [[Put [1] [7]]] \<and> impl_get None [1] db = Ok (OK, Some [7]) \<and> impl_get (Some 0) [1] db = Ok (NotFound, None)"
proof -
  obtain db where run: "db_run db [[Put [1] [7]]]"
    using one_commit by blast
  have "contents [Put [1] [7]] [1] = Some [7]" "contents [] [1] = None"
    by (simp_all add: contents_def)
  then show ?thesis
    using db_is_map [OF run, of "[1]" 0] run by auto
qed

text \<open>
  C3. Commits survive a crash, whole and in order. If the log of a database is cut off at any byte, recovery succeeds and
  rebuilds a memtable that answers every lookup as the database did after a prefix of its commits; the
  sequence number is the number of their updates. If nothing is cut off, the prefix is all commits.
\<close>

theorem db_recovers:
  assumes "db_run db uss"
  shows "\<exists>n mem. RecoverLogFile no_fault paranoid (take m (lw_dest (db_log db)))
      = Ok (OK, mem, word_of_nat (length (concat (take n uss))))
    \<and> (length (lw_dest (db_log db)) \<le> m \<longrightarrow> length uss \<le> n)
    \<and> (\<forall>k. length k + 8 < 2 ^ 32 \<longrightarrow>
        impl_get None k (db\<lparr>db_mem := case mem of None \<Rightarrow> memtable_new | Some m \<Rightarrow> m,
            last_sequence := word_of_nat (length (concat (take n uss)))\<rparr>)
          = Ok (case contents (concat (take n uss)) k of Some v \<Rightarrow> (OK, Some v) | None \<Rightarrow> (NotFound, None)))"
  using recover_spec [OF db_run_inv [OF assms], of paranoid m] by (elim exE) (intro exI conjI; auto intro!: db_get_last)

theorem db_recovers_witness:
  "\<exists>db n mem. db_run db [[Put [1] [7]]]
    \<and> RecoverLogFile no_fault True (take 5 (lw_dest (db_log db))) = Ok (OK, mem, word_of_nat (length (concat (take n [[Put [1] [7]]]))))"
proof -
  obtain db where run: "db_run db [[Put [1] [7]]]"
    using one_commit by blast
  then show ?thesis
    using db_recovers [OF run, of True 5] by blast
qed

end
