(* ===== verification/LBloom.thy ===== *)
theory LBloom
  imports DbFormat Bloom
begin

text \<open>
  The filters of leveldb: \<open>Hash\<close> (\<open>leveldb/util/hash.cc\<close>), the Bloom filter policy (\<open>leveldb/util/bloom.cc\<close>) and
  its wrapper for internal keys (\<open>InternalFilterPolicy\<close>, \<open>db/dbformat.cc\<close>). A filter is a byte string whose
  last byte is the number of probes. The filter is an approximate set in the sense of \<open>approx_set\<close>.
\<close>

unbundle bit_operations_syntax

section \<open>Operations\<close>

definition hash_m :: "32 word" where "hash_m = 0xc6a4a793"

text \<open>The loop over groups of four bytes, then the switch over the remaining ones.\<close>

fun hash_rest :: "bytes \<Rightarrow> 32 word \<Rightarrow> 32 word" where
  "hash_rest (b0 # b1 # b2 # b3 # data) h =
     (let h = h + le_word [b0, b1, b2, b3]; h = h * hash_m; h = h XOR drop_bit 16 h in hash_rest data h)"
| "hash_rest [] h = h"
| "hash_rest data h =
     (let h = (if length data = 3 then h + push_bit 16 (ucast (data ! 2)) else h);
          h = (if 2 \<le> length data then h + push_bit 8 (ucast (data ! 1)) else h);
          h = h + ucast (data ! 0);
          h = h * hash_m
      in h XOR drop_bit 24 h)"

definition Hash :: "bytes \<Rightarrow> 32 word \<Rightarrow> 32 word" where
  "Hash data seed = hash_rest data (seed XOR (word_of_nat (length data) * hash_m))"

definition BloomHash :: "bytes \<Rightarrow> 32 word" where
  "BloomHash key = Hash key 0xbc9f1d34"

text \<open>
  The policy. \<open>k0\<close> stands for the number of probes that the floating-point product of the constructor gives;
  it is then limited to 1 up to 30.
\<close>

record bloom_policy =
  bits_per_key :: "64 word"
  bp_k :: nat

definition bloom_policy_new :: "64 word \<Rightarrow> nat \<Rightarrow> bloom_policy" where
  "bloom_policy_new bits k0 =
     (let k = k0; k = (if k < 1 then 1 else k); k = (if k > 30 then 30 else k) in \<lparr>bits_per_key = bits, bp_k = k\<rparr>)"

definition rotate17 :: "32 word \<Rightarrow> 32 word" where
  "rotate17 h = drop_bit 17 h OR push_bit 15 h"

text \<open>\<open>k\<close> probes from \<open>h\<close> on: setting the bits, and testing them.\<close>

fun set_probes :: "nat \<Rightarrow> nat \<Rightarrow> 32 word \<Rightarrow> 32 word \<Rightarrow> bytes \<Rightarrow> bytes" where
  "set_probes bits 0 delta h arr = arr"
| "set_probes bits (Suc j) delta h arr =
     (let bitpos = unat h mod bits in
      set_probes bits j delta (h + delta) (arr[bitpos div 8 := arr ! (bitpos div 8) OR push_bit (bitpos mod 8) 1]))"

fun test_probes :: "nat \<Rightarrow> nat \<Rightarrow> 32 word \<Rightarrow> 32 word \<Rightarrow> bytes \<Rightarrow> bool" where
  "test_probes bits 0 delta h arr = True"
| "test_probes bits (Suc j) delta h arr =
     (let bitpos = unat h mod bits in
      if arr ! (bitpos div 8) AND push_bit (bitpos mod 8) 1 = 0 then False
      else test_probes bits j delta (h + delta) arr)"

definition add_key :: "nat \<Rightarrow> nat \<Rightarrow> bytes \<Rightarrow> bytes \<Rightarrow> bytes" where
  "add_key bits k key arr = set_probes bits k (rotate17 (BloomHash key)) (BloomHash key) arr"

text \<open>A size that wraps to no bits at all makes the source divide by zero.\<close>

definition lb_create_filter :: "bloom_policy \<Rightarrow> bytes list \<Rightarrow> bytes \<Rightarrow> bytes res" where
  "lb_create_filter p keys dst =
     (let bits = word_of_nat (length keys) * bits_per_key p;
          bits = (if bits < 64 then 64 else bits);
          bytes = unat ((bits + 7) div 8);
          bits = bytes * 8
      in if bits = 0 \<and> keys \<noteq> [] then Err Undefined
         else Ok (dst @ fold (add_key bits (bp_k p)) keys (replicate bytes 0) @ [word_of_nat (bp_k p)]))"

text \<open>The last byte is a \<open>char\<close>: a negative one is converted to a large number of probes.\<close>

definition lb_key_may_match :: "bytes \<Rightarrow> bytes \<Rightarrow> bool" where
  "lb_key_may_match key filt =
     (let len = length filt in
      if len < 2 then False
      else
        let bits = (len - 1) * 8;
            k = scast (filt ! (len - 1)) :: 64 word
        in if k > 30 then True
           else test_probes bits (unat k) (rotate17 (BloomHash key)) (BloomHash key) filt)"

text \<open>\<open>InternalFilterPolicy\<close> with this policy.\<close>

fun extract_keys :: "bytes list \<Rightarrow> bytes list res" where
  "extract_keys [] = Ok []"
| "extract_keys (k # ks) = res_bind (ExtractUserKey k) (\<lambda>u. res_bind (extract_keys ks) (\<lambda>us. Ok (u # us)))"

definition internal_create_filter :: "bloom_policy \<Rightarrow> bytes list \<Rightarrow> bytes \<Rightarrow> bytes res" where
  "internal_create_filter p keys dst = res_bind (extract_keys keys) (\<lambda>us. lb_create_filter p us dst)"

definition internal_key_may_match :: "bytes \<Rightarrow> bytes \<Rightarrow> bool res" where
  "internal_key_may_match key filt = res_bind (ExtractUserKey key) (\<lambda>u. Ok (lb_key_may_match u filt))"

section \<open>The filter as an approximate set\<close>

definition bit_at :: "bytes \<Rightarrow> nat \<Rightarrow> bool" where
  "bit_at arr i = bit (arr ! (i div 8)) (i mod 8)"

lemma and_probe: "(w :: 8 word) AND push_bit (i mod 8) 1 = 0 \<longleftrightarrow> \<not> bit w (i mod 8)"
proof -
  have "bit (w AND push_bit (i mod 8) 1) j \<longleftrightarrow> j = i mod 8 \<and> bit w j" for j
    by (auto simp: bit_simps)
  then show ?thesis
    by (metis bit_0_eq bit_word_eqI bot_fun_def bot_bool_def)
qed

lemma bit_at_set:
  assumes "length arr * 8 = bits" "0 < bits"
  shows "bit_at (arr[(h mod bits) div 8 := arr ! ((h mod bits) div 8) OR push_bit (h mod bits mod 8) 1]) i
    \<longleftrightarrow> bit_at arr i \<or> i = h mod bits"
proof -
  have "h mod bits div 8 < length arr"
    using assms by (metis less_mult_imp_div_less mod_less_divisor)
  moreover have "i = h mod bits \<longleftrightarrow> i div 8 = h mod bits div 8 \<and> i mod 8 = h mod bits mod 8"
    by (metis div_mult_mod_eq)
  ultimately show ?thesis
    by (auto simp: bit_at_def nth_list_update bit_simps)
qed

text \<open>The positions a key probes.\<close>

fun probes :: "nat \<Rightarrow> nat \<Rightarrow> 32 word \<Rightarrow> 32 word \<Rightarrow> nat set" where
  "probes bits 0 delta h = {}"
| "probes bits (Suc j) delta h = insert (unat h mod bits) (probes bits j delta (h + delta))"

lemma set_probes_spec:
  assumes "length arr * 8 = bits" "0 < bits"
  shows "length (set_probes bits j delta h arr) = length arr
    \<and> (\<forall>i. bit_at (set_probes bits j delta h arr) i \<longleftrightarrow> bit_at arr i \<or> i \<in> probes bits j delta h)"
  using assms
proof (induction j arbitrary: h arr)
  case (Suc j)
  then show ?case
    using bit_at_set [OF Suc.prems, of "unat h"] by (simp add: Let_def)
qed simp

lemma test_probes_spec: "test_probes bits j delta h arr \<longleftrightarrow> (\<forall>i \<in> probes bits j delta h. bit_at arr i)"
  by (induction j arbitrary: h) (simp_all add: Let_def and_probe and_probe [simplified] bit_at_def)

definition has_key :: "nat \<Rightarrow> nat \<Rightarrow> bytes \<Rightarrow> bytes \<Rightarrow> bool" where
  "has_key bits k arr key = test_probes bits k (rotate17 (BloomHash key)) (BloomHash key) arr"

interpretation lbs: approx_set "add_key bits k" "has_key bits k" "\<lambda>arr. length arr * 8 = bits \<and> 0 < bits" for bits k
  by unfold_locales (auto simp: add_key_def has_key_def test_probes_spec set_probes_spec)

lemma probes_bound: "0 < bits \<Longrightarrow> i \<in> probes bits j delta h \<Longrightarrow> i < bits"
  by (induction j arbitrary: h) auto

lemma has_key_snoc:
  assumes "length arr * 8 = bits" "0 < bits"
  shows "has_key bits k (arr @ [x]) key = has_key bits k arr key"
proof -
  have "i div 8 < length arr" if "i < bits" for i
    using assms that by (metis less_mult_imp_div_less)
  then show ?thesis
    using probes_bound [OF assms(2)] by (auto simp: has_key_def test_probes_spec bit_at_def nth_append)
qed

lemma lb_create_filter_spec:
  assumes "length keys * unat (bits_per_key p) + 7 < 2 ^ 64" "bp_k p \<le> 30"
  shows "\<exists>filt. lb_create_filter p keys dst = Ok (dst @ filt) \<and> (\<forall>key \<in> set keys. lb_key_may_match key filt)"
proof -
  define b :: "64 word" where "b = (if word_of_nat (length keys) * bits_per_key p < 64 then 64 else word_of_nat (length keys) * bits_per_key p)"
  define n where "n = unat ((b + 7) div 8)"
  have "unat (word_of_nat (length keys) * bits_per_key p) = length keys * unat (bits_per_key p)"
  proof -
    have "word_of_nat (length keys) * bits_per_key p = word_of_nat (length keys * unat (bits_per_key p))"
      by simp
    then show ?thesis
      using assms(1) by (simp only: unsigned_of_nat) (simp add: take_bit_nat_eq_self)
  qed
  then have b: "64 \<le> unat b" "unat b + 7 < 2 ^ 64"
    using assms(1) by (auto simp: b_def word_less_nat_alt)
  then have "unat (b + 7) = unat b + 7"
    using unat_add_lem [of b 7] by simp
  then have n: "8 \<le> n"
    using b by (simp add: n_def unat_div)
  let ?arr = "fold (add_key (n * 8) (bp_k p)) keys (replicate n 0)"
  have "length (replicate n 0 :: bytes) * 8 = n * 8 \<and> 0 < n * 8"
    using n by simp
  note inv = lbs.invar_fold [OF this, of "bp_k p" keys] and mem = lbs.no_false_negatives [OF this]
  have len: "length ?arr = n"
    using inv by simp
  have k: "scast (word_of_nat (bp_k p) :: 8 word) = (word_of_nat (bp_k p) :: 64 word)" "unat (word_of_nat (bp_k p) :: 64 word) = bp_k p"
    using assms(2) by (simp_all add: signed_of_nat signed_take_bit_int_eq_self unsigned_of_nat take_bit_nat_eq_self)
  have "lb_key_may_match key (?arr @ [word_of_nat (bp_k p)])" if "key \<in> set keys" for key
    using mem [OF that, of "bp_k p"] has_key_snoc [OF _ , of ?arr "n * 8" "bp_k p" "word_of_nat (bp_k p)" key] len n k assms(2)
    by (simp add: lb_key_may_match_def has_key_def Let_def nth_append)
  then show ?thesis
    using n by (intro exI [of _ "?arr @ [word_of_nat (bp_k p)]"]) (simp add: lb_create_filter_def Let_def b_def [symmetric] n_def [symmetric])
qed

lemma extract_keys_Ok: "list_all (\<lambda>k. 8 \<le> length k) ks \<Longrightarrow> extract_keys ks = Ok (map user_part ks)"
  by (induction ks) (auto simp: ExtractUserKey_def user_part_def)

text \<open>
  C39. Filters have no false negatives. A filter built for the internal keys of a table, with any number of bits per
  key that does not overflow, matches every internal key with one of their user keys, whatever its
  sequence number and type.
\<close>

theorem table_filter_no_false_negatives:
  assumes "list_all (\<lambda>k. 8 \<le> length k) keys" "length keys * unat bits + 7 < 2 ^ 64"
    and "key \<in> set keys" "8 \<le> length key'" "ExtractUserKey key' = ExtractUserKey key"
  shows "\<exists>filt. internal_create_filter (bloom_policy_new bits k0) keys dst = Ok (dst @ filt)
    \<and> internal_key_may_match key' filt = Ok True"
proof -
  let ?p = "bloom_policy_new bits k0"
  have "length (map user_part keys) * unat (bits_per_key ?p) + 7 < 2 ^ 64" "bp_k ?p \<le> 30"
    using assms(2) by (simp_all add: bloom_policy_new_def)
  from lb_create_filter_spec [OF this, of dst] obtain filt where
    f: "lb_create_filter ?p (map user_part keys) dst = Ok (dst @ filt)" "\<forall>u \<in> user_part ` set keys. lb_key_may_match u filt"
    by auto
  have "8 \<le> length key"
    using assms(1,3) by (auto simp: list_all_iff)
  then have "ExtractUserKey key' = Ok (user_part key)"
    using assms(5) by (simp add: ExtractUserKey_def user_part_def)
  then show ?thesis
    using f assms(3) by (intro exI [of _ filt]) (simp add: internal_create_filter_def internal_key_may_match_def extract_keys_Ok [OF assms(1)])
qed

theorem table_filter_no_false_negatives_witness:
  "\<exists>filt. internal_create_filter (bloom_policy_new 10 6) [[1, 2] @ EncodeFixed64 257] [] = Ok filt
    \<and> internal_key_may_match ([1, 2] @ EncodeFixed64 513) filt = Ok True"
  using table_filter_no_false_negatives [of "[[1, 2] @ EncodeFixed64 257]" 10 "[1, 2] @ EncodeFixed64 257" "[1, 2] @ EncodeFixed64 513" 6 "[]"]
  by (simp add: ExtractUserKey_def)

end
