(* ===== verification/Block.thy ===== *)
theory Block
  imports DbFormat KV
begin

text \<open>
  Blocks of a table: \<open>leveldb/table/block_builder.cc\<close> and \<open>leveldb/table/block.cc\<close>. Keys are stored without
  the prefix they share with the previous key, except at restart points, whose offsets follow the
  entries; a search halves the restart points and then scans. The lemmas show that an iterator delivers
  what was added, forwards and backwards, and that \<open>Seek\<close> finds the first key that is not before the target.
\<close>

section \<open>Building a block\<close>

record block_builder =
  bb_buffer :: bytes
  bb_restarts :: "32 word list"
  bb_counter :: nat
  bb_finished :: bool
  bb_last_key :: bytes

definition block_builder_new :: "nat \<Rightarrow> block_builder res" where
  "block_builder_new interval =
     (if interval \<ge> 1 then Ok \<lparr>bb_buffer = [], bb_restarts = [0], bb_counter = 0, bb_finished = False, bb_last_key = []\<rparr>
      else Err Assert_failed)"

definition bb_reset :: "block_builder \<Rightarrow> block_builder" where
  "bb_reset b = b\<lparr>bb_buffer := [], bb_restarts := [0], bb_counter := 0, bb_finished := False, bb_last_key := []\<rparr>"

definition CurrentSizeEstimate :: "block_builder \<Rightarrow> nat" where
  "CurrentSizeEstimate b = length (bb_buffer b) + length (bb_restarts b) * 4 + 4"

definition bb_finish :: "block_builder \<Rightarrow> bytes \<times> block_builder" where
  "bb_finish b =
     (let buf = fold (\<lambda>r buf. PutFixed32 buf r) (bb_restarts b) (bb_buffer b);
          buf = PutFixed32 buf (word_of_nat (length (bb_restarts b)))
      in (buf, b\<lparr>bb_buffer := buf, bb_finished := True\<rparr>))"

definition bb_add :: "(bytes \<Rightarrow> bytes \<Rightarrow> int) \<Rightarrow> nat \<Rightarrow> bytes \<Rightarrow> bytes \<Rightarrow> block_builder \<Rightarrow> block_builder res" where
  "bb_add compare interval key val b =
     (let last_key = bb_last_key b in
      if bb_finished b then Err Assert_failed
      else if \<not> bb_counter b \<le> interval then Err Assert_failed
      else if \<not> (bb_buffer b = [] \<or> compare key last_key > 0) then Err Assert_failed
      else
        let (shared, restarts, counter) =
              (if bb_counter b < interval then (diff_loop last_key key (min (length last_key) (length key)) 0, bb_restarts b, bb_counter b)
               else (0, bb_restarts b @ [word_of_nat (length (bb_buffer b))], 0));
            non_shared = length key - shared;
            buf = PutVarint32 (bb_buffer b) (word_of_nat shared);
            buf = PutVarint32 buf (word_of_nat non_shared);
            buf = PutVarint32 buf (word_of_nat (length val));
            buf = buf @ drop shared key @ val;
            last_key = take shared last_key @ drop shared key
        in if last_key \<noteq> key then Err Assert_failed
           else Ok (b\<lparr>bb_buffer := buf, bb_restarts := restarts, bb_counter := counter + 1, bb_last_key := last_key\<rparr>))"

section \<open>Reading a block\<close>

text \<open>\<open>size_\<close> is 0 for contents that are recognised as malformed.\<close>

record block =
  blk_data :: bytes
  blk_size :: nat
  restart_offset :: nat

definition NumRestarts :: "block \<Rightarrow> 32 word res" where
  "NumRestarts b = (if blk_size b \<ge> 4 then DecodeFixed32 (drop (blk_size b - 4) (blk_data b)) else Err Assert_failed)"

definition block_new :: "bytes \<Rightarrow> block res" where
  "block_new contents =
     (let b = \<lparr>blk_data = contents, blk_size = length contents, restart_offset = 0\<rparr> in
      if blk_size b < 4 then Ok (b\<lparr>blk_size := 0\<rparr>)
      else
        res_bind (NumRestarts b) (\<lambda>n.
          let max_restarts_allowed = (blk_size b - 4) div 4 in
          Ok (if unat n > max_restarts_allowed then b\<lparr>blk_size := 0\<rparr>
              else b\<lparr>restart_offset := blk_size b - unat (1 + n) * 4\<rparr>)))"

text \<open>The bytes from \<open>p\<close> up to \<open>limit\<close> are a list; the sum of the two lengths wraps around as in the source.\<close>

definition DecodeEntry :: "bytes \<Rightarrow> (32 word \<times> 32 word \<times> 32 word \<times> bytes) option" where
  "DecodeEntry p =
     (if length p < 3 then None
      else
        let shared = ucast (p ! 0) :: 32 word; non_shared = ucast (p ! 1) :: 32 word; value_length = ucast (p ! 2) :: 32 word in
        case (if (or (or shared non_shared) value_length) < 128 then Some (shared, non_shared, value_length, drop 3 p)
              else
                (case GetVarint32 p of None \<Rightarrow> None | Some (shared, p) \<Rightarrow>
                 (case GetVarint32 p of None \<Rightarrow> None | Some (non_shared, p) \<Rightarrow>
                  (case GetVarint32 p of None \<Rightarrow> None | Some (value_length, p) \<Rightarrow> Some (shared, non_shared, value_length, p))))) of
          None \<Rightarrow> None
        | Some (shared, non_shared, value_length, p) \<Rightarrow>
            if (word_of_nat (length p) :: 32 word) < non_shared + value_length then None
            else Some (shared, non_shared, value_length, p))"

text \<open>
  The iterator. The value is given by its offset and length; it is \<open>None\<close> where it does not point into the block. Offsets
  are numbers: a block has less than \<open>2 ^ 32\<close> bytes.
\<close>

record block_iter =
  it_data :: bytes
  it_restarts :: nat
  it_num :: nat
  it_current :: nat
  it_index :: nat
  it_key :: bytes
  it_value :: "(nat \<times> nat) option"
  it_status :: status

definition NextEntryOffset :: "block_iter \<Rightarrow> nat res" where
  "NextEntryOffset it =
     (case it_value it of None \<Rightarrow> Err Undefined | Some (off, len) \<Rightarrow> Ok (unat (word_of_nat (off + len) :: 32 word)))"

definition GetRestartPoint :: "block_iter \<Rightarrow> nat \<Rightarrow> nat res" where
  "GetRestartPoint it index =
     (if index < it_num it then res_bind (DecodeFixed32 (drop (it_restarts it + index * 4) (it_data it))) (\<lambda>w. Ok (unat w))
      else Err Assert_failed)"

definition SeekToRestartPoint :: "nat \<Rightarrow> block_iter \<Rightarrow> block_iter res" where
  "SeekToRestartPoint index it =
     res_bind (GetRestartPoint it index) (\<lambda>offset. Ok (it\<lparr>it_key := [], it_index := index, it_value := Some (offset, 0)\<rparr>))"

definition block_iter_new :: "bytes \<Rightarrow> nat \<Rightarrow> nat \<Rightarrow> block_iter res" where
  "block_iter_new data restarts num =
     (if num > 0 then Ok \<lparr>it_data = data, it_restarts = restarts, it_num = num, it_current = restarts, it_index = num,
        it_key = [], it_value = None, it_status = OK\<rparr>
      else Err Assert_failed)"

definition it_valid :: "block_iter \<Rightarrow> bool" where
  "it_valid it \<longleftrightarrow> it_current it < it_restarts it"

text \<open>Reading the value of an entry whose lengths wrapped around reads outside the block.\<close>

definition it_val :: "block_iter \<Rightarrow> bytes res" where
  "it_val it =
     (if it_valid it then
        (case it_value it of
           None \<Rightarrow> Err Undefined
         | Some (off, len) \<Rightarrow> if off + len \<le> length (it_data it) then Ok (take len (drop off (it_data it))) else Err Undefined)
      else Err Assert_failed)"

definition CorruptionError :: "block_iter \<Rightarrow> block_iter" where
  "CorruptionError it =
     it\<lparr>it_current := it_restarts it, it_index := it_num it, it_status := Corruption, it_key := [], it_value := None\<rparr>"

function advance_index :: "block_iter \<Rightarrow> nat \<Rightarrow> nat res" where
  "advance_index it index =
     (if index + 1 < it_num it then
        res_bind (GetRestartPoint it (index + 1)) (\<lambda>r. if r < it_current it then advance_index it (index + 1) else Ok index)
      else Ok index)"
  by pat_completeness auto
termination by (relation "measure (\<lambda>(it, i). it_num it - i)") auto

declare advance_index.simps [simp del]

definition ParseNextKey :: "block_iter \<Rightarrow> (bool \<times> block_iter) res" where
  "ParseNextKey it =
     res_bind (NextEntryOffset it) (\<lambda>current.
       let it = it\<lparr>it_current := current\<rparr> in
       if current \<ge> it_restarts it then Ok (False, it\<lparr>it_current := it_restarts it, it_index := it_num it\<rparr>)
       else
         (case DecodeEntry (drop current (take (it_restarts it) (it_data it))) of
            None \<Rightarrow> Ok (False, CorruptionError it)
          | Some (shared, non_shared, value_length, p) \<Rightarrow>
              if length (it_key it) < unat shared then Ok (False, CorruptionError it)
              else
                let off = it_restarts it - length p in
                if length (it_data it) < off + unat non_shared then Err Undefined
                else
                  let it = it\<lparr>it_key := take (unat shared) (it_key it) @ take (unat non_shared) (drop off (it_data it)),
                              it_value := Some (off + unat non_shared, unat value_length)\<rparr>
                  in res_bind (advance_index it (it_index it)) (\<lambda>i. Ok (True, it\<lparr>it_index := i\<rparr>))))"

definition it_next :: "block_iter \<Rightarrow> block_iter res" where
  "it_next it = (if it_valid it then res_bind (ParseNextKey it) (\<lambda>(_, it). Ok it) else Err Assert_failed)"

text \<open>The loops that parse entries; not returning is \<open>None\<close>.\<close>

partial_function (option) parse_until :: "nat \<Rightarrow> block_iter \<Rightarrow> block_iter res option" where
  "parse_until bound it =
     (case ParseNextKey it of
        Err e \<Rightarrow> Some (Err e)
      | Ok (found, it) \<Rightarrow>
          if found then
            (case NextEntryOffset it of
               Err e \<Rightarrow> Some (Err e)
             | Ok n \<Rightarrow> if n < bound then parse_until bound it else Some (Ok it))
          else Some (Ok it))"

partial_function (option) parse_seek :: "(bytes \<Rightarrow> bytes \<Rightarrow> int) \<Rightarrow> bytes \<Rightarrow> block_iter \<Rightarrow> block_iter res option" where
  "parse_seek compare target it =
     (case ParseNextKey it of
        Err e \<Rightarrow> Some (Err e)
      | Ok (found, it) \<Rightarrow>
          if found then if compare (it_key it) target \<ge> 0 then Some (Ok it) else parse_seek compare target it
          else Some (Ok it))"

text \<open>The backward scan of \<open>Prev\<close> over the restart points: \<open>None\<close> when there is none before \<open>original\<close>.\<close>

fun restart_before :: "block_iter \<Rightarrow> nat \<Rightarrow> nat \<Rightarrow> nat option res" where
  "restart_before it original 0 = res_bind (GetRestartPoint it 0) (\<lambda>r. Ok (if r \<ge> original then None else Some 0))"
| "restart_before it original (Suc i) =
     res_bind (GetRestartPoint it (Suc i)) (\<lambda>r. if r \<ge> original then restart_before it original i else Ok (Some (Suc i)))"

definition it_prev :: "block_iter \<Rightarrow> block_iter res option" where
  "it_prev it =
     (if \<not> it_valid it then Some (Err Assert_failed)
      else
        let original = it_current it in
        case restart_before it original (it_index it) of
          Err e \<Rightarrow> Some (Err e)
        | Ok None \<Rightarrow> Some (Ok (it\<lparr>it_current := it_restarts it, it_index := it_num it\<rparr>))
        | Ok (Some i) \<Rightarrow>
            (case SeekToRestartPoint i it of Err e \<Rightarrow> Some (Err e) | Ok it \<Rightarrow> parse_until original it))"

text \<open>The binary search: \<open>None\<close> is a corrupt entry at a restart point.\<close>

function restart_search :: "(bytes \<Rightarrow> bytes \<Rightarrow> int) \<Rightarrow> bytes \<Rightarrow> block_iter \<Rightarrow> nat \<Rightarrow> nat \<Rightarrow> nat option res" where
  "restart_search compare target it left right =
     (if left < right then
        let mid = (left + right + 1) div 2 in
        res_bind (GetRestartPoint it mid) (\<lambda>region_offset.
          case DecodeEntry (drop region_offset (take (it_restarts it) (it_data it))) of
            None \<Rightarrow> Ok None
          | Some (shared, non_shared, value_length, p) \<Rightarrow>
              if shared \<noteq> 0 then Ok None
              else
                let off = it_restarts it - length p in
                if length (it_data it) < off + unat non_shared then Err Undefined
                else if compare (take (unat non_shared) (drop off (it_data it))) target < 0
                then restart_search compare target it mid right
                else restart_search compare target it left (mid - 1))
      else Ok (Some left))"
  by pat_completeness auto
termination by (relation "measure (\<lambda>(_, _, _, l, r). r - l)") auto

declare restart_search.simps [simp del]

definition it_seek :: "(bytes \<Rightarrow> bytes \<Rightarrow> int) \<Rightarrow> bytes \<Rightarrow> block_iter \<Rightarrow> block_iter res option" where
  "it_seek compare target it =
     (case restart_search compare target it 0 (it_num it - 1) of
        Err e \<Rightarrow> Some (Err e)
      | Ok None \<Rightarrow> Some (Ok (CorruptionError it))
      | Ok (Some left) \<Rightarrow>
          (case SeekToRestartPoint left it of Err e \<Rightarrow> Some (Err e) | Ok it \<Rightarrow> parse_seek compare target it))"

definition it_seek_first :: "block_iter \<Rightarrow> block_iter res" where
  "it_seek_first it = res_bind (SeekToRestartPoint 0 it) (\<lambda>it. res_bind (ParseNextKey it) (\<lambda>(_, it). Ok it))"

definition it_seek_last :: "block_iter \<Rightarrow> block_iter res option" where
  "it_seek_last it =
     (case SeekToRestartPoint (it_num it - 1) it of Err e \<Rightarrow> Some (Err e) | Ok it' \<Rightarrow> parse_until (it_restarts it) it')"

text \<open>\<open>Block::NewIterator\<close>: an error, an empty iterator, or an iterator over the entries.\<close>

datatype new_iter = Error_iter status | Empty_iter | Block_iter block_iter

definition block_new_iterator :: "block \<Rightarrow> new_iter res" where
  "block_new_iterator b =
     (if blk_size b < 4 then Ok (Error_iter Corruption)
      else res_bind (NumRestarts b) (\<lambda>n.
        if n = 0 then Ok Empty_iter
        else res_bind (block_iter_new (blk_data b) (restart_offset b) (unat n)) (\<lambda>it. Ok (Block_iter it))))"

section \<open>Entries\<close>

text \<open>An entry is the number of shared bytes, the key and the value.\<close>

type_synonym entry = "nat \<times> bytes \<times> bytes"

fun enc_entry :: "entry \<Rightarrow> bytes" where
  "enc_entry (sh, k, v) =
     EncodeVarint32 (word_of_nat sh) @ EncodeVarint32 (word_of_nat (length k - sh)) @ EncodeVarint32 (word_of_nat (length v))
       @ drop sh k @ v"

definition e_key :: "entry \<Rightarrow> bytes" where "e_key e = fst (snd e)"
definition e_val :: "entry \<Rightarrow> bytes" where "e_val e = snd (snd e)"

definition entries_bytes :: "entry list \<Rightarrow> bytes" where
  "entries_bytes es = concat (map enc_entry es)"

definition offset :: "entry list \<Rightarrow> nat \<Rightarrow> nat" where
  "offset es i = length (entries_bytes (take i es))"

text \<open>Shared prefixes are taken from the previous key.\<close>

fun shares :: "bytes \<Rightarrow> entry \<Rightarrow> bool" where
  "shares prev (sh, k, v) \<longleftrightarrow> sh \<le> length prev \<and> take sh prev = take sh k \<and> sh \<le> length k"

fun chained :: "bytes \<Rightarrow> entry list \<Rightarrow> bool" where
  "chained prev [] \<longleftrightarrow> True"
| "chained prev (e # es) \<longleftrightarrow> shares prev e \<and> chained (e_key e) es"

lemma chained_append: "chained prev (es @ fs) \<longleftrightarrow> chained prev es \<and> chained (if es = [] then prev else e_key (last es)) fs"
  by (induction es arbitrary: prev) auto

lemma entries_bytes_append: "entries_bytes (es @ fs) = entries_bytes es @ entries_bytes fs"
  by (simp add: entries_bytes_def)

lemma entries_bytes_split: "entries_bytes es = entries_bytes (take i es) @ entries_bytes (drop i es)"
  by (metis append_take_drop_id entries_bytes_append)

lemma drop_offset: "drop (offset es i) (entries_bytes es) = entries_bytes (drop i es)"
  using entries_bytes_split [of es i] by (simp add: offset_def)

lemma varint_nonempty: "EncodeVarint32 w \<noteq> []"
  unfolding EncodeVarint32_varint by (subst varint.simps) simp

lemma enc_entry_length: "3 \<le> length (enc_entry e)"
proof -
  have "1 \<le> length (EncodeVarint32 w)" for w
    using varint_nonempty [of w] by (simp add: Suc_le_eq)
  from this [of "word_of_nat (fst e)"] this [of "word_of_nat (length (e_key e) - fst e)"] this [of "word_of_nat (length (e_val e))"]
  show ?thesis
    by (cases e) (auto simp: e_key_def e_val_def)
qed

lemma offset_Suc: "i < length es \<Longrightarrow> offset es (Suc i) = offset es i + length (enc_entry (es ! i))"
  by (simp add: offset_def take_Suc_conv_app_nth entries_bytes_append entries_bytes_def)

lemma offset_mono_strict: "i < j \<Longrightarrow> j \<le> length es \<Longrightarrow> offset es i < offset es j"
proof (induction j)
  case (Suc j)
  then have "offset es j < offset es (Suc j)"
    using enc_entry_length [of "es ! j"] by (subst offset_Suc) (simp, linarith)
  then show ?case
    using Suc by (cases "i = j") auto
qed simp

lemma offset_length: "offset es (length es) = length (entries_bytes es)"
  by (simp add: offset_def)

text \<open>The fast path of \<open>DecodeEntry\<close> reads what the general one reads.\<close>

lemma or_less_128: "or (or (a :: 32 word) b) c < 128 \<Longrightarrow> a < 128 \<and> b < 128 \<and> c < 128"
proof -
  have le: "x \<le> or x y" "y \<le> or x y" for x y :: "32 word"
    using or_greater_eq [of "uint y" "uint x"] or_greater_eq [of "uint x" "uint y"]
    by (simp_all add: word_le_def unsigned_or_eq or.commute)
  assume "or (or a b) c < 128"
  then show ?thesis
    using le(1) [of "or a b" c] le(2) [where x = "or a b" and y = c] le(1) [of a b] le(2) [where x = a and y = b]
    by (meson le_less_trans order_trans)
qed

lemma GetVarint32_byte: "ucast b < (128 :: 32 word) \<Longrightarrow> GetVarint32 (b # r) = Some (ucast b, r)"
  using varint_last(2) [of "unat (ucast b :: 32 word)", where 'w = 32] by (simp add: GetVarint32_def word_less_nat_alt)

lemma DecodeEntry_general:
  "DecodeEntry p =
     (if length p < 3 then None
      else case GetVarint32 p of None \<Rightarrow> None | Some (shared, p) \<Rightarrow>
        (case GetVarint32 p of None \<Rightarrow> None | Some (non_shared, p) \<Rightarrow>
          (case GetVarint32 p of None \<Rightarrow> None | Some (value_length, p) \<Rightarrow>
             if (word_of_nat (length p) :: 32 word) < non_shared + value_length then None
             else Some (shared, non_shared, value_length, p))))"
proof (cases "length p < 3")
  case False
  then obtain a b c r where p: "p = a # b # c # r"
    by (metis Suc_le_length_iff eval_nat_numeral(3) not_less numeral_2_eq_2)
  show ?thesis
  proof (cases "or (or (ucast a :: 32 word) (ucast b)) (ucast c) < 128")
    case True
    then show ?thesis
      using or_less_128 [OF True] by (simp add: DecodeEntry_def p GetVarint32_byte)
  next
    case False
    then show ?thesis
      by (simp add: DecodeEntry_def p split: option.split)
  qed
qed (simp add: DecodeEntry_def)

lemma DecodeEntry_enc:
  assumes "length k - sh + length v + length r < 2 ^ 32"
  shows "DecodeEntry (enc_entry (sh, k, v) @ r) = Some (word_of_nat sh, word_of_nat (length k - sh), word_of_nat (length v), drop sh k @ v @ r)"
proof -
  have "3 \<le> length (enc_entry (sh, k, v) @ r)"
    using enc_entry_length [of "(sh, k, v)"] by simp
  moreover have "\<not> (word_of_nat (length (drop sh k @ v @ r)) :: 32 word) < word_of_nat (length k - sh) + word_of_nat (length v)"
  proof -
    have "word_of_nat (length k - sh) + word_of_nat (length v) = (word_of_nat (length k - sh + length v) :: 32 word)"
      by simp
    then show ?thesis
      using assms by (simp only: word_less_nat_alt unsigned_of_nat) (simp add: take_bit_nat_eq_self)
  qed
  ultimately show ?thesis
    unfolding DecodeEntry_general by (simp add: GetVarint32_Encode)
qed

section \<open>The layout of a block\<close>

text \<open>\<open>js\<close> are the numbers of the entries at the restart points.\<close>

definition block_of :: "entry list \<Rightarrow> nat list \<Rightarrow> bytes" where
  "block_of es js = entries_bytes es @ concat (map (\<lambda>j. EncodeFixed32 (word_of_nat (offset es j))) js)
     @ EncodeFixed32 (word_of_nat (length js))"

definition block_wf :: "entry list \<Rightarrow> nat list \<Rightarrow> bool" where
  "block_wf es js \<longleftrightarrow> chained [] es \<and> js \<noteq> [] \<and> js ! 0 = 0 \<and>
     (if es = [] then js = [0] else \<forall>j \<in> set js. j < length es \<and> fst (es ! j) = 0) \<and>
     list_all (\<lambda>e. length (e_key e) < 2 ^ 32) es \<and> length (block_of es js) < 2 ^ 32"

definition it_for :: "entry list \<Rightarrow> nat list \<Rightarrow> block_iter \<Rightarrow> bool" where
  "it_for es js it \<longleftrightarrow> it_data it = block_of es js \<and> it_restarts it = length (entries_bytes es) \<and> it_num it = length js \<and> it_status it = OK"

text \<open>The iterator is about to parse entry \<open>i\<close>, is at entry \<open>i\<close>, is at the end.\<close>

definition it_before :: "entry list \<Rightarrow> nat list \<Rightarrow> nat \<Rightarrow> block_iter \<Rightarrow> bool" where
  "it_before es js i it \<longleftrightarrow> it_for es js it \<and> i \<le> length es \<and> it_index it < length js \<and>
     (\<exists>off len. it_value it = Some (off, len) \<and> off + len = offset es i) \<and>
     (i < length es \<longrightarrow> shares (it_key it) (es ! i))"

definition it_at :: "entry list \<Rightarrow> nat list \<Rightarrow> nat \<Rightarrow> block_iter \<Rightarrow> bool" where
  "it_at es js i it \<longleftrightarrow> it_before es js (Suc i) it \<and> i < length es \<and> it_current it = offset es i \<and>
     it_key it = e_key (es ! i) \<and> it_val it = Ok (e_val (es ! i))"

definition it_end :: "entry list \<Rightarrow> nat list \<Rightarrow> block_iter \<Rightarrow> bool" where
  "it_end es js it \<longleftrightarrow> it_for es js it \<and> it_current it = it_restarts it"

lemma drop_concat_fixed:
  assumes "\<And>x. length (f x) = n" "j < length xs"
  shows "\<exists>r'. drop (j * n) (concat (map f xs) @ r) = f (xs ! j) @ r'"
  using assms(2)
proof (induction xs arbitrary: j)
  case (Cons x xs)
  then show ?case
    by (cases j) (auto simp: assms(1))
qed simp

lemma offset_bound: "block_wf es js \<Longrightarrow> offset es i < 2 ^ 32"
proof -
  assume "block_wf es js"
  then have "length (entries_bytes es) < 2 ^ 32"
    by (simp add: block_wf_def block_of_def)
  moreover have "offset es i \<le> length (entries_bytes es)"
    by (metis entries_bytes_split le_add1 length_append offset_def)
  ultimately show ?thesis
    by simp
qed

lemma unat_32: "n < 2 ^ 32 \<Longrightarrow> unat (word_of_nat n :: 32 word) = n"
  by (simp add: unsigned_of_nat take_bit_nat_eq_self)

lemma GetRestartPoint_spec:
  assumes "block_wf es js" "it_for es js it" "j < length js"
  shows "GetRestartPoint it j = Ok (offset es (js ! j))"
proof -
  obtain r where r: "drop (j * 4) (concat (map (\<lambda>j. EncodeFixed32 (word_of_nat (offset es j))) js) @ EncodeFixed32 (word_of_nat (length js)))
      = EncodeFixed32 (word_of_nat (offset es (js ! j))) @ r"
    using drop_concat_fixed [of "\<lambda>j. EncodeFixed32 (word_of_nat (offset es j))" 4 j js] assms(3) by (auto simp: EncodeFixed32_def)
  have "drop (it_restarts it + j * 4) (it_data it) = EncodeFixed32 (word_of_nat (offset es (js ! j))) @ r"
    using assms(2) r by (simp add: it_for_def block_of_def)
  moreover have "DecodeFixed32 (EncodeFixed32 w @ r) = Ok w" for w
    by (simp add: DecodeFixed32_def EncodeFixed32_def)
  ultimately show ?thesis
    using assms offset_bound [OF assms(1)] by (simp add: GetRestartPoint_def it_for_def unat_32)
qed

lemma shares_nil: "fst e = 0 \<Longrightarrow> shares [] e"
  by (cases e) simp

lemma block_wf_restart:
  assumes "block_wf es js" "j \<in> set js"
  shows "j \<le> length es" "j < length es \<Longrightarrow> fst (es ! j) = 0" "es \<noteq> [] \<Longrightarrow> j < length es"
  using assms by (auto simp: block_wf_def less_imp_le split: if_splits)

lemma SeekToRestartPoint_spec:
  assumes "block_wf es js" "it_for es js it" "j < length js"
  shows "\<exists>it'. SeekToRestartPoint j it = Ok it' \<and> it_before es js (js ! j) it'"
  using assms GetRestartPoint_spec [OF assms] block_wf_restart(1,2) [OF assms(1) nth_mem [OF assms(3)]]
  by (auto simp: SeekToRestartPoint_def it_before_def it_for_def shares_nil)

lemma advance_index_spec:
  assumes "block_wf es js" "it_for es js it" "i < length js"
  shows "\<exists>i'. advance_index it i = Ok i' \<and> i' < length js"
  using assms(3)
proof (induction "length js - i" arbitrary: i rule: less_induct)
  case less
  show ?case
  proof (cases "i + 1 < it_num it")
    case True
    then have "i + 1 < length js"
      using assms(2) by (simp add: it_for_def)
    then show ?thesis
      using less True GetRestartPoint_spec [OF assms(1,2), of "i + 1"] by (subst advance_index.simps) auto
  next
    case False
    then show ?thesis
      using less.prems by (subst advance_index.simps) auto
  qed
qed

lemma NextEntryOffset_spec: "block_wf es js \<Longrightarrow> it_before es js i it \<Longrightarrow> NextEntryOffset it = Ok (offset es i)"
  using offset_bound [of es js i] by (auto simp: NextEntryOffset_def it_before_def unat_32 simp del: of_nat_add)

lemma ParseNextKey_end:
  assumes "block_wf es js" "it_before es js (length es) it"
  shows "\<exists>it'. ParseNextKey it = Ok (False, it') \<and> it_end es js it'"
  using assms(2) NextEntryOffset_spec [OF assms] by (auto simp: ParseNextKey_def it_before_def it_for_def it_end_def offset_length)

text \<open>The entry at \<open>offset es i\<close>, as the iterator finds it in the block.\<close>

lemma entry_in_block:
  assumes "block_wf es js" "i < length es" "es ! i = (sh, k, v)"
  obtains p where "DecodeEntry (drop (offset es i) (take (length (entries_bytes es)) (block_of es js)))
      = Some (word_of_nat sh, word_of_nat (length k - sh), word_of_nat (length v), p)"
    and "length p \<le> length (entries_bytes es)"
    and "\<exists>r. drop (length (entries_bytes es) - length p) (block_of es js) = drop sh k @ v @ r"
    and "length (entries_bytes es) - length p + (length k - sh) + length v = offset es (Suc i)"
proof -
  define r where "r = entries_bytes (drop (Suc i) es)"
  define tail where "tail = concat (map (\<lambda>j. EncodeFixed32 (word_of_nat (offset es j))) js) @ EncodeFixed32 (word_of_nat (length js))"
  define h where "h = EncodeVarint32 (word_of_nat sh) @ EncodeVarint32 (word_of_nat (length k - sh)) @ EncodeVarint32 (word_of_nat (length v))"
  have split: "entries_bytes es = entries_bytes (take i es) @ h @ drop sh k @ v @ r"
    using entries_bytes_split [of es i] assms(2,3) Cons_nth_drop_Suc [OF assms(2), symmetric]
    by (simp add: entries_bytes_def r_def h_def)
  have len: "length (entries_bytes es) < 2 ^ 32"
    using assms(1) by (simp add: block_wf_def block_of_def)
  show thesis
  proof (rule that)
    have "drop (offset es i) (take (length (entries_bytes es)) (block_of es js)) = enc_entry (sh, k, v) @ r"
      unfolding block_of_def by (simp add: split offset_def h_def)
    then show "DecodeEntry (drop (offset es i) (take (length (entries_bytes es)) (block_of es js)))
        = Some (word_of_nat sh, word_of_nat (length k - sh), word_of_nat (length v), drop sh k @ v @ r)"
      using DecodeEntry_enc [of k sh v r] len unfolding split by simp
    show "length (drop sh k @ v @ r) \<le> length (entries_bytes es)"
      by (simp add: split)
    have "block_of es js = (entries_bytes (take i es) @ h) @ drop sh k @ v @ r @ tail"
      unfolding block_of_def tail_def by (simp add: split)
    then show "\<exists>r'. drop (length (entries_bytes es) - length (drop sh k @ v @ r)) (block_of es js) = drop sh k @ v @ r'"
      by (simp add: split)
    have "offset es (Suc i) = offset es i + length (h @ drop sh k @ v)"
      using offset_Suc [OF assms(2)] assms(3) by (simp add: h_def)
    then show "length (entries_bytes es) - length (drop sh k @ v @ r) + (length k - sh) + length v = offset es (Suc i)"
      by (simp add: split offset_def)
  qed
qed

lemma chained_nth: "chained prev es \<Longrightarrow> Suc i < length es \<Longrightarrow> shares (e_key (es ! i)) (es ! Suc i)"
proof (induction es arbitrary: prev i)
  case (Cons e es)
  then show ?case
    by (cases i; cases es) auto
qed simp

lemma ParseNextKey_entry:
  assumes wf: "block_wf es js" and bef: "it_before es js i it" and i: "i < length es"
  shows "\<exists>it'. ParseNextKey it = Ok (True, it') \<and> it_at es js i it'"
proof -
  obtain sh k v where e: "es ! i = (sh, k, v)"
    by (cases "es ! i")
  from entry_in_block [OF wf i e] obtain p r where
    p: "DecodeEntry (drop (offset es i) (take (length (entries_bytes es)) (block_of es js)))
      = Some (word_of_nat sh, word_of_nat (length k - sh), word_of_nat (length v), p)"
    and r: "drop (length (entries_bytes es) - length p) (block_of es js) = drop sh k @ v @ r"
    and off: "length (entries_bytes es) - length p + (length k - sh) + length v = offset es (Suc i)"
    by metis
  define q where "q = length (entries_bytes es) - length p"
  have for_it: "it_for es js it" "it_index it < length js" and sh: "sh \<le> length (it_key it)" "take sh (it_key it) = take sh k" "sh \<le> length k"
    using bef i e by (auto simp: it_before_def)
  have cur: "offset es i < length (entries_bytes es)"
    using offset_mono_strict [of i "length es" es] i offset_length [of es] by simp
  have key: "length k < 2 ^ 32"
    using wf nth_mem [OF i] e by (auto simp: block_wf_def list_all_iff e_key_def)
  have bnd: "offset es (Suc i) \<le> length (entries_bytes es)" "offset es (Suc i) < 2 ^ 32"
    using i offset_bound [OF wf] entries_bytes_split [of es "Suc i"] by (auto simp: offset_def)
  have u: "unat (word_of_nat sh :: 32 word) = sh" "unat (word_of_nat (length k - sh) :: 32 word) = length k - sh"
    "unat (word_of_nat (length v) :: 32 word) = length v"
    using sh(3) key bnd(2) off by (auto intro!: unat_32 simp del: of_nat_diff)
  define it1 where "it1 = it\<lparr>it_current := offset es i, it_key := k, it_value := Some (q + (length k - sh), length v)\<rparr>"
  have for1: "it_for es js it1"
    using for_it(1) by (simp add: it1_def it_for_def)
  from advance_index_spec [OF wf for1 for_it(2)] obtain i' where i': "advance_index it1 (it_index it) = Ok i'" "i' < length js"
    by blast
  have "length (entries_bytes es) \<le> length (block_of es js)"
    by (simp add: block_of_def)
  then have le: "q + (length k - sh) + length v \<le> length (block_of es js)"
    using off bnd(1) by (simp add: q_def)
  have k: "take sh (it_key it) @ take (length k - sh) (drop q (block_of es js)) = k"
    using r sh(2) by (simp add: q_def)
  have v: "take (length v) (drop (q + (length k - sh)) (block_of es js)) = v"
  proof -
    have "drop (q + (length k - sh)) (block_of es js) = drop (length k - sh) (drop q (block_of es js))"
      by (simp add: add.commute)
    then show ?thesis
      using r by (simp add: q_def)
  qed
  have "ParseNextKey it = Ok (True, it1\<lparr>it_index := i'\<rparr>)"
    using for_it(1) NextEntryOffset_spec [OF wf bef] cur p sh(1) le k i'(1)
    by (simp add: ParseNextKey_def it_for_def u Let_def q_def [symmetric] it1_def del: of_nat_diff)
  moreover have "it_at es js i (it1\<lparr>it_index := i'\<rparr>)"
    using for1 i i'(2) off le v cur chained_nth [of "[]" es i] wf e
    by (auto simp: it_at_def it_before_def it_for_def it_val_def it_valid_def it1_def e_key_def e_val_def q_def block_wf_def)
  ultimately show ?thesis
    by blast
qed

section \<open>Moving the iterator\<close>

lemma it_at_valid: "block_wf es js \<Longrightarrow> it_at es js i it \<Longrightarrow> it_valid it"
  using offset_mono_strict [of i "length es" es] offset_length [of es]
  by (auto simp: it_at_def it_before_def it_for_def it_valid_def)

definition it_at_or_end :: "entry list \<Rightarrow> nat list \<Rightarrow> nat \<Rightarrow> block_iter \<Rightarrow> bool" where
  "it_at_or_end es js i it \<longleftrightarrow> (if i < length es then it_at es js i it else it_end es js it)"

lemma ParseNextKey_spec:
  assumes "block_wf es js" "it_before es js i it"
  shows "\<exists>it'. ParseNextKey it = Ok (i < length es, it') \<and> it_at_or_end es js i it'"
proof (cases "i < length es")
  case True
  then show ?thesis
    using ParseNextKey_entry [OF assms True] by (simp add: it_at_or_end_def)
next
  case False
  then have "i = length es"
    using assms(2) by (simp add: it_before_def)
  then show ?thesis
    using ParseNextKey_end assms by (simp add: it_at_or_end_def)
qed

lemma it_next_spec:
  assumes "block_wf es js" "it_at es js i it"
  shows "\<exists>it'. it_next it = Ok it' \<and> it_at_or_end es js (Suc i) it'"
proof -
  have "it_before es js (Suc i) it"
    using assms(2) by (simp add: it_at_def)
  from ParseNextKey_spec [OF assms(1) this] show ?thesis
    using it_at_valid [OF assms] by (auto simp: it_next_def)
qed

lemma it_seek_first_spec:
  assumes "block_wf es js" "it_for es js it"
  shows "\<exists>it'. it_seek_first it = Ok it' \<and> it_at_or_end es js 0 it'"
proof -
  have "0 < length js" "js ! 0 = 0"
    using assms(1) by (auto simp: block_wf_def)
  then obtain it1 where "SeekToRestartPoint 0 it = Ok it1" "it_before es js 0 it1"
    using SeekToRestartPoint_spec [OF assms, of 0] by auto
  then show ?thesis
    using ParseNextKey_spec [OF assms(1)] by (fastforce simp: it_seek_first_def)
qed

lemma parse_until_spec:
  assumes wf: "block_wf es js" and m: "m < length es"
  shows "it_before es js i it \<Longrightarrow> i \<le> m \<Longrightarrow> \<exists>it'. parse_until (offset es (Suc m)) it = Some (Ok it') \<and> it_at es js m it'"
proof (induction "m - i" arbitrary: i it rule: less_induct)
  case less
  then obtain it1 where 1: "ParseNextKey it = Ok (True, it1)" "it_at es js i it1"
    using ParseNextKey_entry [OF wf less.prems(1)] m by auto
  then have bef: "it_before es js (Suc i) it1"
    by (simp add: it_at_def)
  have lt: "offset es (Suc i) < offset es (Suc m) \<longleftrightarrow> i < m"
    using offset_mono_strict [of "Suc i" "Suc m" es] m less.prems(2) by (cases "i = m") auto
  have "parse_until (offset es (Suc m)) it = (if i < m then parse_until (offset es (Suc m)) it1 else Some (Ok it1))"
    by (subst parse_until.simps) (simp add: 1(1) NextEntryOffset_spec [OF wf bef] lt)
  then show ?case
    using less.hyps [OF _ bef] less.prems(2) 1(2) by (cases "i = m") auto
qed

lemma it_seek_last_spec:
  assumes wf: "block_wf es js" and "it_for es js it" "es \<noteq> []"
  shows "\<exists>it'. it_seek_last it = Some (Ok it') \<and> it_at es js (length es - 1) it'"
proof -
  let ?j = "length js - 1"
  have j: "?j < length js"
    using wf by (auto simp: block_wf_def)
  then obtain it1 where 1: "SeekToRestartPoint ?j it = Ok it1" "it_before es js (js ! ?j) it1"
    using SeekToRestartPoint_spec [OF assms(1,2)] by blast
  have "js ! ?j \<le> length es - 1"
    using block_wf_restart(3) [OF wf nth_mem [OF j] assms(3)] by simp
  then show ?thesis
    using parse_until_spec [OF wf _ 1(2), of "length es - 1"] assms(2,3) 1(1)
    by (simp add: it_seek_last_def it_for_def offset_length)
qed

lemma restart_before_spec:
  assumes wf: "block_wf es js" and it: "it_for es js it"
  shows "j < length js \<Longrightarrow> (i = 0 \<longrightarrow> restart_before it (offset es i) j = Ok None)
    \<and> (0 < i \<and> i < length es \<longrightarrow> (\<exists>j'. restart_before it (offset es i) j = Ok (Some j') \<and> j' < length js \<and> js ! j' < i))"
proof (induction j)
  case 0
  have "js ! 0 = 0" "offset es 0 = 0"
    using wf by (auto simp: block_wf_def offset_def entries_bytes_def)
  then show ?case
    using GetRestartPoint_spec [OF wf it 0] offset_mono_strict [of 0 i es] 0 by auto
next
  case (Suc j)
  have "offset es 0 = 0"
    by (simp add: offset_def entries_bytes_def)
  moreover have "\<not> offset es (js ! Suc j) \<ge> offset es i \<Longrightarrow> i < length es \<Longrightarrow> js ! Suc j < i"
    using offset_mono_strict [of i "js ! Suc j" es] block_wf_restart(1) [OF wf nth_mem [OF Suc.prems]]
    by (cases "js ! Suc j" i rule: linorder_cases) auto
  ultimately show ?case
    using Suc GetRestartPoint_spec [OF wf it Suc.prems] by auto
qed

lemma it_prev_spec:
  assumes wf: "block_wf es js" and at: "it_at es js i it"
  shows "\<exists>it'. it_prev it = Some (Ok it') \<and> (if i = 0 then it_end es js it' else it_at es js (i - 1) it')"
proof -
  have it: "it_for es js it" "it_index it < length js" "i < length es" "it_current it = offset es i"
    using at by (auto simp: it_at_def it_before_def)
  note rb = restart_before_spec [OF wf it(1,2), of i] and val = it_at_valid [OF wf at]
  show ?thesis
  proof (cases "i = 0")
    case True
    then show ?thesis
      using rb val it(1,4) by (simp add: it_prev_def it_end_def it_for_def Let_def)
  next
    case False
    then obtain j where j: "restart_before it (offset es i) (it_index it) = Ok (Some j)" "j < length js" "js ! j < i"
      using rb it(3) by auto
    obtain it1 where 1: "SeekToRestartPoint j it = Ok it1" "it_before es js (js ! j) it1"
      using SeekToRestartPoint_spec [OF wf it(1) j(2)] by blast
    show ?thesis
      using parse_until_spec [OF wf _ 1(2), of "i - 1"] j(1,3) 1(1) it(3,4) val False
      by (simp add: it_prev_def Let_def)
  qed
qed

lemma restart_search_spec:
  assumes wf: "block_wf es js" and it: "it_for es js it" and es: "es \<noteq> []"
  shows "left \<le> right \<Longrightarrow> right < length js \<Longrightarrow> left = 0 \<or> compare (e_key (es ! (js ! left))) target < 0 \<Longrightarrow>
    \<exists>l. restart_search compare target it left right = Ok (Some l) \<and> l < length js
      \<and> (l = 0 \<or> compare (e_key (es ! (js ! l))) target < 0)"
proof (induction "right - left" arbitrary: left right rule: less_induct)
  case less
  show ?case
  proof (cases "left < right")
    case False
    then show ?thesis
      using less.prems by (subst restart_search.simps) auto
  next
    case True
    define mid where "mid = (left + right + 1) div 2"
    have mid: "left < mid" "mid \<le> right" "mid < length js"
      using True less.prems by (auto simp: mid_def)
    let ?i = "js ! mid"
    have i: "?i < length es" "fst (es ! ?i) = 0"
      using block_wf_restart [OF wf nth_mem [OF mid(3)]] es by auto
    then obtain k v where e: "es ! ?i = (0, k, v)"
      by (cases "es ! ?i") auto
    obtain p r where
      p: "DecodeEntry (drop (offset es ?i) (take (length (entries_bytes es)) (block_of es js))) = Some (0, word_of_nat (length k), word_of_nat (length v), p)"
      and r: "drop (length (entries_bytes es) - length p) (block_of es js) = k @ v @ r"
      by (rule entry_in_block [OF wf i(1) e], erule exE, rule that) simp_all
    have k: "unat (word_of_nat (length k) :: 32 word) = length k"
      using wf nth_mem [OF i(1)] e by (intro unat_32) (auto simp: block_wf_def list_all_iff e_key_def)
    have "length (entries_bytes es) - length p + length k \<le> length (block_of es js)"
      using arg_cong [OF r, of length] by (simp add: block_of_def)
    then have step: "restart_search compare target it left right =
        (if compare k target < 0 then restart_search compare target it mid right else restart_search compare target it left (mid - 1))"
      using True it GetRestartPoint_spec [OF wf it mid(3)] p r k
      by (subst restart_search.simps) (simp add: it_for_def Let_def mid_def [symmetric, simplified])
    have ek: "e_key (es ! ?i) = k"
      by (simp add: e e_key_def)
    show ?thesis
      using less.hyps [of right mid] less.hyps [of "mid - 1" left] less.prems mid ek unfolding step by auto
  qed
qed

lemma parse_seek_spec:
  assumes wf: "block_wf es js"
  shows "it_before es js i it \<Longrightarrow> \<exists>it'. parse_seek compare target it = Some (Ok it')
    \<and> it_at_or_end es js (i + length (takeWhile (\<lambda>e. compare (e_key e) target < 0) (drop i es))) it'"
proof (induction "length es - i" arbitrary: i it rule: less_induct)
  case less
  obtain it1 where 1: "ParseNextKey it = Ok (i < length es, it1)" "it_at_or_end es js i it1"
    using ParseNextKey_spec [OF wf less.prems] by blast
  show ?case
  proof (cases "i < length es")
    case False
    then show ?thesis
      using 1 by (subst parse_seek.simps) simp
  next
    case True
    then have at: "it_at es js i it1" "it_before es js (Suc i) it1" "it_key it1 = e_key (es ! i)"
      using 1(2) by (auto simp: it_at_or_end_def it_at_def)
    have "parse_seek compare target it = (if compare (e_key (es ! i)) target \<ge> 0 then Some (Ok it1) else parse_seek compare target it1)"
      by (subst parse_seek.simps) (simp add: 1(1) True at(3))
    then show ?thesis
      using less.hyps [OF _ at(2)] True 1(2) Cons_nth_drop_Suc [OF True, symmetric] by (auto simp: not_le)
  qed
qed

lemma takeWhile_from:
  assumes "\<forall>e \<in> set (take i es). P e" "i \<le> length es"
  shows "i + length (takeWhile P (drop i es)) = length (takeWhile P es)"
proof -
  have "takeWhile P (take i es @ drop i es) = take i es @ takeWhile P (drop i es)"
    using assms(1) by (intro takeWhile_append2) auto
  then show ?thesis
    using assms(2) by simp
qed

lemma it_seek_spec:
  assumes wf: "block_wf es js" and it: "it_for es js it" and cmp: "comparator compare"
    and sorted: "sorted_wrt (\<lambda>a b. compare (e_key a) (e_key b) < 0) es"
  shows "\<exists>it'. it_seek compare target it = Some (Ok it')
    \<and> it_at_or_end es js (length (takeWhile (\<lambda>e. compare (e_key e) target < 0) es)) it'"
proof -
  let ?P = "\<lambda>e. compare (e_key e) target < 0"
  obtain l where l: "restart_search compare target it 0 (it_num it - 1) = Ok (Some l)" "l < length js"
    "es = [] \<or> l = 0 \<or> ?P (es ! (js ! l))"
  proof (cases "es = []")
    case True
    then show thesis
      using it wf by (intro that [of 0]) (auto simp: it_for_def block_wf_def restart_search.simps)
  next
    case False
    then show thesis
      using restart_search_spec [OF wf it False, of 0 "length js - 1" compare target] it wf that
      by (auto simp: it_for_def block_wf_def)
  qed
  obtain it1 where 1: "SeekToRestartPoint l it = Ok it1" "it_before es js (js ! l) it1"
    using SeekToRestartPoint_spec [OF wf it l(2)] by blast
  have le: "js ! l \<le> length es"
    using 1(2) by (simp add: it_before_def)
  have "\<forall>e \<in> set (take (js ! l) es). ?P e"
  proof
    fix e assume e: "e \<in> set (take (js ! l) es)"
    obtain a where a: "a < js ! l" "a < length es" "e = es ! a"
      using e by (auto simp: in_set_conv_nth)
    have "es \<noteq> []"
      using a by auto
    then have l3: "?P (es ! (js ! l))" "js ! l < length es"
      using l(3) a(1) wf block_wf_restart(3) [OF wf nth_mem [OF l(2)]] by (auto simp: block_wf_def)
    then have "compare (e_key e) (e_key (es ! (js ! l))) < 0"
      using sorted a by (auto simp: sorted_wrt_iff_nth_less)
    then show "?P e"
      by (rule comparator.cmp_trans [OF cmp _ l3(1)])
  qed
  then have "js ! l + length (takeWhile ?P (drop (js ! l) es)) = length (takeWhile ?P es)"
    using le by (rule takeWhile_from)
  then show ?thesis
    using parse_seek_spec [OF wf 1(2), of compare target] l(1) 1(1) by (simp add: it_seek_def)
qed

section \<open>The builder\<close>

definition bb_inv :: "nat \<Rightarrow> block_builder \<Rightarrow> entry list \<Rightarrow> nat list \<Rightarrow> bool" where
  "bb_inv interval b es js \<longleftrightarrow>
     bb_buffer b = entries_bytes es \<and> bb_restarts b = map (\<lambda>j. word_of_nat (offset es j)) js \<and> bb_counter b \<le> interval \<and>
     \<not> bb_finished b \<and> bb_last_key b = (if es = [] then [] else e_key (last es)) \<and>
     chained [] es \<and> js \<noteq> [] \<and> js ! 0 = 0 \<and> length js \<le> length es + 1 \<and>
     (if es = [] then js = [0] \<and> bb_counter b = 0 else \<forall>j \<in> set js. j < length es \<and> fst (es ! j) = 0)"

lemma bb_inv_new: "1 \<le> interval \<Longrightarrow> \<exists>b. block_builder_new interval = Ok b \<and> bb_inv interval b [] [0]"
  by (simp add: block_builder_new_def bb_inv_def entries_bytes_def offset_def)

lemma entries_bytes_Nil: "entries_bytes es = [] \<longleftrightarrow> es = []"
proof (cases es)
  case (Cons e es')
  then show ?thesis
    using enc_entry_length [of e] by (auto simp: entries_bytes_def)
qed (simp add: entries_bytes_def)

lemma offset_snoc: "j \<le> length es \<Longrightarrow> offset (es @ [e]) j = offset es j"
  by (simp add: offset_def)

lemma bb_inv_snoc:
  assumes inv: "bb_inv interval b es js" and "shares (bb_last_key b) (sh, key, val)"
    and "js' = js \<and> (es = [] \<longrightarrow> sh = 0) \<or> js' = js @ [length es] \<and> es \<noteq> [] \<and> sh = 0" "counter \<le> interval"
  shows "bb_inv interval (b\<lparr>bb_buffer := bb_buffer b @ enc_entry (sh, key, val), bb_restarts := map (\<lambda>j. word_of_nat (offset es j)) js',
      bb_counter := counter, bb_last_key := key\<rparr>) (es @ [(sh, key, val)]) js'"
proof -
  have j: "j \<le> length es \<and> (j < length es \<longrightarrow> fst (es ! j) = 0) \<and> (j = length es \<longrightarrow> sh = 0)" if "j \<in> set js'" for j
    using that inv assms(3) by (auto simp: bb_inv_def less_imp_le split: if_splits)
  then have "map (\<lambda>j. word_of_nat (offset (es @ [(sh, key, val)]) j)) js' = (map (\<lambda>j. word_of_nat (offset es j)) js' :: 32 word list)"
    by (simp add: offset_snoc)
  moreover have "\<forall>j \<in> set js'. j < length (es @ [(sh, key, val)]) \<and> fst ((es @ [(sh, key, val)]) ! j) = 0"
    using j by (fastforce simp: nth_append le_less)
  moreover have "chained [] (es @ [(sh, key, val)])"
    using inv assms(2) by (cases "es = []") (auto simp: bb_inv_def chained_append)
  moreover have "js' \<noteq> []" "js' ! 0 = 0" "length js' \<le> length es + 2"
    using inv assms(3) by (auto simp: bb_inv_def nth_append)
  ultimately show ?thesis
    using inv assms(4) by (simp add: bb_inv_def entries_bytes_append e_key_def) (simp add: entries_bytes_def)
qed

lemma bb_add_spec:
  assumes inv: "bb_inv interval b es js" and i: "1 \<le> interval"
    and ord: "es = [] \<or> compare key (e_key (last es)) > 0"
  shows "\<exists>b' sh js'. bb_add compare interval key val b = Ok b' \<and> bb_inv interval b' (es @ [(sh, key, val)]) js'"
proof -
  let ?last = "bb_last_key b"
  define sh where "sh = (if bb_counter b < interval then diff_loop ?last key (min (length ?last) (length key)) 0 else 0)"
  define js' where "js' = (if bb_counter b < interval then js else js @ [length es])"
  have sh: "sh \<le> length ?last" "sh \<le> length key" "take sh ?last = take sh key"
    using diff_loop_spec [OF _ refl _ refl, of 0 ?last key] by (auto simp: sh_def)
  have js: "js' = js \<and> (es = [] \<longrightarrow> sh = 0) \<or> js' = js @ [length es] \<and> es \<noteq> [] \<and> sh = 0"
    using inv i sh(1) by (auto simp: js'_def bb_inv_def sh_def split: if_splits)
  have guards: "\<not> bb_finished b" "bb_counter b \<le> interval" "bb_buffer b = [] \<or> compare key ?last > 0"
    using inv ord by (auto simp: bb_inv_def entries_bytes_Nil)
  have key: "take sh ?last @ drop sh key = key"
    using sh(3) by simp
  have res: "(if bb_counter b < interval then bb_restarts b else bb_restarts b @ [word_of_nat (length (bb_buffer b))])
      = map (\<lambda>j. word_of_nat (offset es j)) js'"
    using inv by (simp add: bb_inv_def js'_def offset_def)
  let ?c = "(if bb_counter b < interval then bb_counter b else 0) + 1"
  have "bb_add compare interval key val b = Ok (b\<lparr>bb_buffer := bb_buffer b @ enc_entry (sh, key, val),
      bb_restarts := map (\<lambda>j. word_of_nat (offset es j)) js', bb_counter := ?c, bb_last_key := key\<rparr>)"
    using guards key res unfolding bb_add_def Let_def by (cases "bb_counter b < interval") (simp_all add: sh_def PutVarint32_def)
  moreover have "bb_inv interval (b\<lparr>bb_buffer := bb_buffer b @ enc_entry (sh, key, val),
      bb_restarts := map (\<lambda>j. word_of_nat (offset es j)) js', bb_counter := ?c, bb_last_key := key\<rparr>) (es @ [(sh, key, val)]) js'"
    using inv sh js i by (intro bb_inv_snoc) auto
  ultimately show ?thesis
    by blast
qed

lemma bb_finish_spec: "bb_inv interval b es js \<Longrightarrow> fst (bb_finish b) = block_of es js"
proof -
  assume inv: "bb_inv interval b es js"
  have "fold (\<lambda>r buf. PutFixed32 buf r) rs buf = buf @ concat (map EncodeFixed32 rs)" for rs buf
    by (induction rs arbitrary: buf) (simp_all add: PutFixed32_def)
  then show ?thesis
    using inv by (simp add: bb_finish_def bb_inv_def block_of_def PutFixed32_def Let_def o_def)
qed

definition entry_kv :: "entry \<Rightarrow> bytes \<times> bytes" where
  "entry_kv e = (e_key e, e_val e)"

lemma bb_add_many:
  assumes i: "1 \<le> interval"
  shows "bb_inv interval b es js \<Longrightarrow> successively (\<lambda>a b. compare (fst b) (fst a) > 0) (map entry_kv es @ kvs) \<Longrightarrow>
    \<exists>b' es' js'. res_fold (\<lambda>(k, v). bb_add compare interval k v) kvs b = Ok b' \<and> bb_inv interval b' es' js'
      \<and> map entry_kv es' = map entry_kv es @ kvs"
proof (induction kvs arbitrary: b es js)
  case (Cons kv kvs)
  obtain k v where kv: "kv = (k, v)"
    by (cases kv)
  have "es = [] \<or> compare k (e_key (last es)) > 0"
    using Cons.prems(2) by (cases es rule: rev_cases) (auto simp: successively_append_iff kv entry_kv_def)
  with bb_add_spec [OF Cons.prems(1) i, of compare k v] obtain b1 sh js1 where
    1: "bb_add compare interval k v b = Ok b1" "bb_inv interval b1 (es @ [(sh, k, v)]) js1"
    by blast
  have "map entry_kv (es @ [(sh, k, v)]) @ kvs = map entry_kv es @ kv # kvs"
    by (simp add: entry_kv_def kv e_key_def e_val_def)
  with Cons.IH [OF 1(2)] Cons.prems(2) show ?case
    using 1(1) by (simp add: kv)
qed auto

lemma block_of_read:
  assumes wf: "block_wf es js"
  shows "\<exists>blk it. block_new (block_of es js) = Ok blk \<and> block_new_iterator blk = Ok (Block_iter it) \<and> it_for es js it"
proof -
  let ?n = "length js" and ?d = "block_of es js" and ?pre = "entries_bytes es @ concat (map (\<lambda>j. EncodeFixed32 (word_of_nat (offset es j))) js)"
  have cat: "length (concat (map (\<lambda>j. EncodeFixed32 (word_of_nat (offset es j))) js)) = ?n * 4"
    by (induction js) (simp_all add: EncodeFixed32_def)
  have d: "?d = ?pre @ EncodeFixed32 (word_of_nat ?n)" "length ?pre = length (entries_bytes es) + ?n * 4"
    using cat by (simp_all add: block_of_def)
  have len: "length ?d = length (entries_bytes es) + ?n * 4 + 4"
    using d(2) unfolding d(1) by (simp add: EncodeFixed32_def)
  have n: "0 < ?n" "?n * 4 + 4 < 2 ^ 32"
    using wf len by (auto simp: block_wf_def)
  then have u: "unat (word_of_nat ?n :: 32 word) = ?n" "unat (1 + word_of_nat ?n :: 32 word) = 1 + ?n"
    using unat_32 [of "1 + ?n"] by (auto intro!: unat_32)
  have "drop (length ?d - 4) ?d = EncodeFixed32 (word_of_nat ?n)"
    using len d(2) unfolding d(1) by (simp add: EncodeFixed32_def)
  then have num: "DecodeFixed32 (drop (length ?d - 4) ?d) = Ok (word_of_nat ?n)"
    by (simp add: DecodeFixed32_def EncodeFixed32_def)
  define blk where "blk = \<lparr>blk_data = ?d, blk_size = length ?d, restart_offset = length (entries_bytes es)\<rparr>"
  have "?n \<le> (length ?d - 4) div 4" "length ?d - (1 + ?n) * 4 = length (entries_bytes es)" "\<not> length ?d < 4"
    using len by auto
  then have "block_new ?d = Ok blk"
    using num by (simp add: block_new_def NumRestarts_def u blk_def Let_def)
  moreover have "word_of_nat ?n \<noteq> (0 :: 32 word)"
    using n u(1) by auto
  then have "\<exists>it. block_new_iterator blk = Ok (Block_iter it) \<and> it_for es js it"
    using num len n(1) by (simp add: block_new_iterator_def NumRestarts_def blk_def block_iter_new_def u it_for_def)
  ultimately show ?thesis
    by blast
qed

text \<open>What an iterator delivers from its position on, moved by \<open>step\<close> until it is invalid.\<close>

partial_function (option) it_collect :: "(block_iter \<Rightarrow> block_iter res option) \<Rightarrow> block_iter \<Rightarrow> (bytes \<times> bytes) list res option" where
  "it_collect step it =
     (if \<not> it_valid it then Some (Ok [])
      else
        (case it_val it of
           Err e \<Rightarrow> Some (Err e)
         | Ok v \<Rightarrow>
             (case step it of
                None \<Rightarrow> None
              | Some r \<Rightarrow>
                  (case r of
                     Err e \<Rightarrow> Some (Err e)
                   | Ok it' \<Rightarrow> Option.bind (it_collect step it') (\<lambda>r. Some (res_bind r (\<lambda>xs. Ok ((it_key it, v) # xs))))))))"

lemma it_collect_end: "it_end es js it \<Longrightarrow> it_collect step it = Some (Ok [])"
  by (subst it_collect.simps) (simp add: it_end_def it_valid_def)

lemma it_collect_at:
  assumes "block_wf es js" "it_at es js i it" "step it = Some (Ok it')" "it_collect step it' = Some (Ok xs)"
  shows "it_collect step it = Some (Ok (entry_kv (es ! i) # xs))"
  using assms(2-4) it_at_valid [OF assms(1,2)] by (subst it_collect.simps) (simp add: it_at_def entry_kv_def)

lemma collect_forward:
  assumes wf: "block_wf es js"
  shows "it_at_or_end es js i it \<Longrightarrow> it_collect (\<lambda>it. Some (it_next it)) it = Some (Ok (map entry_kv (drop i es)))"
proof (induction "length es - i" arbitrary: i it rule: less_induct)
  case less
  show ?case
  proof (cases "i < length es")
    case True
    then have at: "it_at es js i it"
      using less.prems by (simp add: it_at_or_end_def)
    obtain it1 where 1: "it_next it = Ok it1" "it_at_or_end es js (Suc i) it1"
      using it_next_spec [OF wf at] by blast
    have "it_collect (\<lambda>it. Some (it_next it)) it1 = Some (Ok (map entry_kv (drop (Suc i) es)))"
      using less.hyps [OF _ 1(2)] True by simp
    with it_collect_at [OF wf at, of "\<lambda>it. Some (it_next it)" it1] 1(1) show ?thesis
      by (simp add: Cons_nth_drop_Suc [OF True, symmetric])
  next
    case False
    then show ?thesis
      using less.prems it_collect_end by (simp add: it_at_or_end_def)
  qed
qed

lemma collect_backward:
  assumes wf: "block_wf es js"
  shows "it_at es js i it \<Longrightarrow> it_collect it_prev it = Some (Ok (map entry_kv (rev (take (Suc i) es))))"
proof (induction i arbitrary: it)
  case 0
  obtain it1 where "it_prev it = Some (Ok it1)" "it_end es js it1"
    using it_prev_spec [OF wf 0] by auto
  then show ?case
    using it_collect_at [OF wf 0, of it_prev it1 "[]"] it_collect_end 0 by (cases es) (auto simp: it_at_def)
next
  case (Suc i)
  obtain it1 where "it_prev it = Some (Ok it1)" "it_at es js i it1"
    using it_prev_spec [OF wf Suc.prems] by auto
  then show ?case
    using it_collect_at [OF wf Suc.prems, of it_prev it1] Suc.IH Suc.prems
    by (simp add: it_at_def take_Suc_conv_app_nth [of "Suc i"])
qed

section \<open>Blocks as sorted lists\<close>

definition kvs_size :: "(bytes \<times> bytes) list \<Rightarrow> nat" where
  "kvs_size kvs = sum_list (map (\<lambda>(k, v). length k + length v + 19) kvs) + 8"

lemma EncodeVarint32_length: "length (EncodeVarint32 w) \<le> 5"
  unfolding EncodeVarint32_varint using unat_word_bound(1) [of w] by (intro length_varint) simp_all

lemma enc_entry_bound: "length (enc_entry e) \<le> length (e_key e) + length (e_val e) + 15"
proof -
  obtain sh k v where e: "e = (sh, k, v)"
    by (cases e)
  show ?thesis
    using EncodeVarint32_length [of "word_of_nat sh"] EncodeVarint32_length [of "word_of_nat (length k - sh)"]
      EncodeVarint32_length [of "word_of_nat (length v)"] by (simp add: e e_key_def e_val_def del: of_nat_diff)
qed

lemma block_of_bound: "length js \<le> length es + 1 \<Longrightarrow> length (block_of es js) \<le> kvs_size (map entry_kv es)"
proof -
  assume js: "length js \<le> length es + 1"
  have "length (entries_bytes es) + 4 * length es + 8 \<le> kvs_size (map entry_kv es)"
  proof (induction es)
    case (Cons e es)
    then show ?case
      using enc_entry_bound [of e] by (simp add: entries_bytes_def kvs_size_def entry_kv_def)
  qed (simp add: entries_bytes_def kvs_size_def)
  moreover have "length (block_of es js) = length (entries_bytes es) + 4 * length js + 4"
    unfolding block_of_def by (induction js) (simp_all add: EncodeFixed32_def)
  ultimately show ?thesis
    using js by simp
qed

lemma key_bound: "(k, v) \<in> set kvs \<Longrightarrow> length k < kvs_size kvs"
  by (induction kvs) (auto simp: kvs_size_def)

lemma bb_inv_wf:
  assumes inv: "bb_inv interval b es js" and sz: "kvs_size (map entry_kv es) < 2 ^ 32"
  shows "block_wf es js"
proof -
  have "length (e_key e) < 2 ^ 32" if "e \<in> set es" for e
    using key_bound [of "e_key e" "e_val e" "map entry_kv es"] sz that by (force simp: entry_kv_def)
  then show ?thesis
    using inv block_of_bound [of js es] sz by (auto simp: bb_inv_def block_wf_def list_all_iff split: if_splits)
qed

text \<open>
  C34. A block is the sorted list that was added. With any restart interval, keys added in ascending order are accepted;
  the finished block is read without a corruption, forwards from the first entry and backwards from the
  last one, as exactly these keys and values; and \<open>Seek\<close> stops at the first key that is not before the
  target. All loops end.
\<close>

theorem block_refines:
  assumes "comparator compare" "1 \<le> interval" "sorted_wrt (\<lambda>a b. compare (fst a) (fst b) < 0) kvs" "kvs_size kvs < 2 ^ 32"
  shows "\<exists>b0 b blk it. block_builder_new interval = Ok b0
    \<and> res_fold (\<lambda>(k, v). bb_add compare interval k v) kvs b0 = Ok b
    \<and> block_new (fst (bb_finish b)) = Ok blk \<and> block_new_iterator blk = Ok (Block_iter it)
    \<and> (\<exists>it1. it_seek_first it = Ok it1 \<and> it_collect (\<lambda>it. Some (it_next it)) it1 = Some (Ok kvs))
    \<and> (kvs \<noteq> [] \<longrightarrow> (\<exists>it1. it_seek_last it = Some (Ok it1) \<and> it_collect it_prev it1 = Some (Ok (rev kvs))))
    \<and> (\<forall>target. \<exists>it1. it_seek compare target it = Some (Ok it1)
        \<and> it_collect (\<lambda>it. Some (it_next it)) it1 = Some (Ok (dropWhile (\<lambda>(k, v). compare k target < 0) kvs)))"
proof -
  obtain b0 where b0: "block_builder_new interval = Ok b0" "bb_inv interval b0 [] [0]"
    using bb_inv_new [OF assms(2)] by blast
  have "successively (\<lambda>a b. compare (fst b) (fst a) > 0) kvs"
    using assms(3) comparator.cmp_sym [OF assms(1)] by (induction kvs rule: induct_list012) auto
  then obtain b es js where b: "res_fold (\<lambda>(k, v). bb_add compare interval k v) kvs b0 = Ok b" "bb_inv interval b es js"
    "map entry_kv es = kvs"
    using bb_add_many [OF assms(2) b0(2), of compare kvs] by auto
  have wf: "block_wf es js"
    using bb_inv_wf [OF b(2)] b(3) assms(4) by simp
  obtain blk it where it: "block_new (fst (bb_finish b)) = Ok blk" "block_new_iterator blk = Ok (Block_iter it)" "it_for es js it"
    using block_of_read [OF wf] bb_finish_spec [OF b(2)] by auto
  have fwd: "\<exists>it1. it_seek_first it = Ok it1 \<and> it_collect (\<lambda>it. Some (it_next it)) it1 = Some (Ok kvs)"
    using it_seek_first_spec [OF wf it(3)] collect_forward [OF wf, of 0] b(3) by auto
  have bwd: "\<exists>it1. it_seek_last it = Some (Ok it1) \<and> it_collect it_prev it1 = Some (Ok (rev kvs))" if "kvs \<noteq> []"
  proof -
    have "es \<noteq> []"
      using b(3) that by auto
    from it_seek_last_spec [OF wf it(3) this] show ?thesis
      using collect_backward [OF wf, of "length es - 1"] \<open>es \<noteq> []\<close> by (auto simp: b(3) [symmetric] rev_map)
  qed
  have sorted: "sorted_wrt (\<lambda>a b. compare (e_key a) (e_key b) < 0) es"
    using assms(3) unfolding b(3) [symmetric] sorted_wrt_map by (simp add: entry_kv_def)
  have dw: "map entry_kv (drop (length (takeWhile (\<lambda>e. compare (e_key e) t < 0) es)) es) = dropWhile (\<lambda>(k, v). compare k t < 0) kvs" for t
    unfolding b(3) [symmetric] dropWhile_map dropWhile_eq_drop [symmetric] by (simp add: o_def entry_kv_def)
  have "\<exists>it1. it_seek compare t it = Some (Ok it1)
      \<and> it_collect (\<lambda>it. Some (it_next it)) it1 = Some (Ok (dropWhile (\<lambda>(k, v). compare k t < 0) kvs))" for t
    unfolding dw [symmetric] using it_seek_spec [OF wf it(3) assms(1) sorted, of t] collect_forward [OF wf] by blast
  then show ?thesis
    using b0(1) b(1) it(1,2) fwd bwd by (intro exI [of _ b0] exI [of _ b] exI [of _ blk] exI [of _ it]) simp
qed

theorem block_refines_witness:
  "\<exists>b0 b blk it it1. block_builder_new 1 = Ok b0
    \<and> res_fold (\<lambda>(k, v). bb_add slice_compare 1 k v) [([1], [2]), ([1, 3], [4])] b0 = Ok b
    \<and> block_new (fst (bb_finish b)) = Ok blk \<and> block_new_iterator blk = Ok (Block_iter it)
    \<and> it_seek slice_compare [1, 2] it = Some (Ok it1) \<and> it_collect (\<lambda>it. Some (it_next it)) it1 = Some (Ok [([1, 3], [4])])"
proof -
  let ?kvs = "[([1], [2]), ([1, 3], [4])] :: (bytes \<times> bytes) list"
  have s: "sorted_wrt (\<lambda>a b. slice_compare (fst a) (fst b) < 0) ?kvs" "kvs_size ?kvs < 2 ^ 32"
    by (simp_all add: kvs_size_def)
  have d: "dropWhile (\<lambda>(k, v). slice_compare k [1, 2] < 0) ?kvs = [([1, 3], [4])]"
    by simp
  from block_refines [OF bytewise.comparator_axioms order_refl s] obtain b0 b blk it where
    r: "block_builder_new 1 = Ok b0" "res_fold (\<lambda>(k, v). bb_add slice_compare 1 k v) ?kvs b0 = Ok b"
      "block_new (fst (bb_finish b)) = Ok blk" "block_new_iterator blk = Ok (Block_iter it)"
    and seek: "\<forall>target. \<exists>it1. it_seek slice_compare target it = Some (Ok it1)
        \<and> it_collect (\<lambda>it. Some (it_next it)) it1 = Some (Ok (dropWhile (\<lambda>(k, v). slice_compare k target < 0) ?kvs))"
    by (elim exE conjE) (rule that)
  from seek [rule_format, of "[1, 2]"] show ?thesis
    unfolding d using r by (elim exE conjE) (intro exI conjI)
qed


end
