(* ===== verification/Spec2Isabelle.thy ===== *)
theory Spec2Isabelle
  imports LocalityRun LocalityAttackE Scrambling Combined Ddfs Db LBloom Block
begin

text \<open>
  Verification of the frequency-analysis toolkit (\<open>src/\<close>): attacks on encrypted deduplication by frequency
  analysis, defenses against them, a deduplication prototype, and the parts of the bundled leveldb that
  these programs store their data with.

  \<^bold>\<open>The program.\<close> Backups are traces of chunk fingerprints (6 bytes each), one text line per chunk.
  The counters (\<open>basic_count\<close>, \<open>locality_count\<close>) read a trace and leave databases of chunk frequencies and of
  neighbour frequencies. The attacks (\<open>basic_attack\<close>, \<open>locality_attack\<close>, \<open>locality_attack_e\<close>) read the databases of an
  auxiliary and of a target trace and pair chunks of the two. The defenses (\<open>k_minhash\<close>, \<open>scrambling\<close>,
  \<open>combined\<close>) turn a trace into another one, which goes through counters and attacks again; the first and
  the last of them record the ground truth that \<open>locality_attack_e\<close> judges by. The prototype \<open>ddfs\<close> deduplicates a trace with
  a cache, a Bloom filter, containers and an index. All of them keep their data in leveldb.

  \<^bold>\<open>Conventions.\<close> Bytes are \<open>8 word\<close>, strings and files lists of bytes, C integers words of their width
  (\<open>int\<close> of 32 bits, little-endian, signed \<open>char\<close>). A program that may stop returns a value of \<open>'a res\<close>: \<open>Ok\<close>, or \<open>Err\<close> with \<open>Exit n\<close>, \<open>Assert_failed\<close>,
  \<open>Undefined\<close> (a read outside an object, \<open>top()\<close> of an empty queue, a dangling pointer) or \<open>Out_of_fuel\<close>. State is
  a record that operations take and return. Calls whose code is not part of the sources are
  arguments: \<open>md5\<close> (OpenSSL), \<open>rand()\<close> as a list or a function of numbers, the results of floating-point arithmetic that size
  the Bloom filters, and the failures of reads, writes and \<open>Sync\<close>.

  \<^bold>\<open>Foundations.\<close>
  \<^item> \<open>Prelude\<close>: bytes, results, memory images of integers, list lemmas.
  \<^item> \<open>CLib\<close>: \<open>fgets\<close>, \<open>strtok\<close>, \<open>strtol\<close>, \<open>memcmp\<close>, \<open>strncmp\<close> and the conversions of \<open>printf\<close> that the sources use.
  \<^item> \<open>PQueue\<close>: \<open>std::priority_queue\<close> as a heap in a vector. The locale \<open>prio_queue\<close> is the contract, proved for every strict
    weak order (\<open>weak_order\<close>), and interpreted for the orders of the attacks.
  \<^item> \<open>KV\<close>: the store as its clients see it (locale \<open>kvstore\<close>: lookup after put and delete, scan in key order), with
    errors that the environment injects. The theorem \<open>leveldb_refines_store\<close> below connects it with leveldb.

  \<^bold>\<open>Attacks\<close> (\<open>src/attack/\<close>, \<open>src/defense/*/locality_*.cc\<close>).
  \<^item> \<open>Trace\<close>: the text format; printing and parsing are inverse.
  \<^item> \<open>BasicCount\<close>, \<open>LocalityCount\<close>: \<open>read_hashes\<close> of the counters records exactly the counts of the trace, the two
    neighbour databases are transposes, and a fingerprint with a NUL byte is truncated.
  \<^item> \<open>BasicAttack\<close>: \<open>ReadDbs\<close>, \<open>Fre_Analysis\<close> and the report; what is inferred is what two rankings agree on.
  \<^item> \<open>LocalityAttack\<close>, \<open>LocalityRun\<close>: \<open>stat_db\<close>, the selections, \<open>main_loop\<close>; the run ends and its report is sound, alone
    and after the counters.
  \<^item> \<open>LocalityAttackE\<close>: the variant that is judged by the ground truth.

  \<^bold>\<open>Defenses\<close> (\<open>src/defense/\<close>).
  \<^item> \<open>Segment\<close>: segmentation of a trace and its limits.
  \<^item> \<open>Scrambling\<close>, \<open>MinHash\<close>, \<open>Combined\<close>: the whole programs; what each prints is given segment by segment, and the
    ground truth maps ciphertexts back.

  \<^bold>\<open>Prototype\<close> (\<open>src/prototype/\<close>).
  \<^item> \<open>Murmur\<close>, \<open>Bloom\<close>: hash and filter; no false negatives (locale \<open>approx_set\<close>).
  \<^item> \<open>BitText\<close>, \<open>Container\<close>: the textual bit images and container files; what is written is read back.
  \<^item> \<open>FpIndex\<close>: the index over the store.
  \<^item> \<open>LruCache\<close>: list and hash table with explicit node names; they refine an abstract LRU cache (locale \<open>key_cache\<close>).
  \<^item> \<open>Ddfs\<close>: runs store every fingerprint once and in order, and can be resumed.

  \<^bold>\<open>leveldb\<close> (\<open>src/util/leveldb/\<close>).
  \<^item> \<open>LCoding\<close>, \<open>Crc32c\<close>: integer codings (locale \<open>wire_code\<close>) and the checksum, equal to the bitwise division.
  \<^item> \<open>LogFile\<close>: log writer and reader. Records are read back; a log cut off anywhere yields a prefix of them without
    a report; appending after a torn record loses a record.
  \<^item> \<open>SkipList\<close>, \<open>DbFormat\<close>, \<open>MemTable\<close>: skip list over any comparator (locale \<open>comparator\<close>), internal keys, lookups by
    sequence number.
  \<^item> \<open>WriteBatch\<close>, \<open>Db\<close>: batches, grouping of writers, \<open>Write\<close>, \<open>Get\<close>, recovery. The database is the map that its commits build,
    and after a crash the map that a prefix of them builds.
  \<^item> \<open>LBloom\<close>, \<open>Block\<close>: filters and blocks of tables.

  \<^bold>\<open>Loops and fuel.\<close> Only the main loop of the locality attack has fuel: each round removes a pair from a
  queue, and each pair that ever enters it has another ciphertext chunk, so \<open>run_bound\<close>, the number of fingerprints in the
  databases of the target, is enough; the theorems say so. Loops that follow pointers or data (skip list, block
  iterator) are partial functions into \<open>option\<close>; the theorems state that they return. All others are total.

  \<^bold>\<open>Not modelled.\<close>
  \<^item> Opening and closing of files and databases, command-line arguments, progress output, shell scripts: effects without
    a result that the programs compute with.
  \<^item> leveldb: table files above the block level, versions, compaction and the background thread, the table and block cache, the
    merging iterators, and the POSIX environment. The database of \<open>Db\<close> is one whose memtable has room and that
    has no table files; a switch of the memtable shows as \<open>None\<close>. Threads appear as the queue of
    writers only: the lock is held wherever state changes, and the skip list is modelled for one thread.
  \<^item> leveldb: the C interface, the in-memory environment, \<open>repair\<close>, \<open>dumpfile\<close>, benchmarks and tests; no program of the toolkit calls them.
  \<^item> \<open>src/util/fs-hasher/\<close>, an external program that walks file systems and writes hash files. The toolkit uses
    its printed output only, whose format is that of \<open>Trace\<close>.
\<close>

section \<open>The store of the programs is leveldb\<close>

text \<open>
  The updates of a client, one call of \<open>Put\<close> or \<open>Delete\<close> after the other, on leveldb (\<open>None\<close> if a call does not return with success)
  and on the store of \<open>KV\<close>.
\<close>

fun ldb_update :: "update \<Rightarrow> db \<Rightarrow> (status \<times> nat \<times> db) res option" where
  "ldb_update (Put k v) = impl_put no_fault OK True False k v"
| "ldb_update (Delete k) = impl_delete no_fault OK True False k"

fun ldb_updates :: "update list \<Rightarrow> db \<Rightarrow> db option" where
  "ldb_updates [] db = Some db"
| "ldb_updates (u # us) db =
     (case ldb_update u db of
        Some (Ok (status, _, db')) \<Rightarrow> if is_ok status then ldb_updates us db' else None
      | _ \<Rightarrow> None)"

fun store_update :: "update \<Rightarrow> kvdb \<Rightarrow> kvdb" where
  "store_update (Put k v) d = snd (db_put d k v)"
| "store_update (Delete k) d = snd (db_delete d k)"

lemma store_contents:
  assumes "reliable d"
  shows "reliable (fold store_update us d) \<and> db_lookup (fold store_update us d) = fold apply_update us (db_lookup d)"
  using assms
proof (induction us arbitrary: d)
  case (Cons u us)
  have "reliable (store_update u d)" "db_lookup (store_update u d) = apply_update u (db_lookup d)"
    using Cons.prems by (cases u; simp)+
  then show ?case
    using Cons.IH [of "store_update u d"] by simp
qed simp

lemma ldb_update_spec:
  assumes "db_inv db uss" "update_ok u" "length (concat uss) + 1 < 2 ^ 56"
  shows "\<exists>db'. ldb_update u db = Some (Ok (OK, 1, db')) \<and> db_inv db' (uss @ [[u]])"
proof -
  define w where "w = \<lparr>wr_batch = Some (batch 0 [u]), wr_sync = False\<rparr>"
  have w: "list_all2 writer_updates [w] [[u]]" "wr_batch w \<noteq> None"
    by (auto simp: w_def writer_updates_def)
  have call: "ldb_update u db = impl_write no_fault OK True [w] db"
    by (cases u) (simp_all add: impl_put_def impl_delete_def w_def wb_clear_batch wb_put_batch wb_delete_batch)
  obtain n db' where "impl_write no_fault OK True [w] db = Some (Ok (OK, n, db'))" "0 < n" "n \<le> length [w]"
    "db_inv db' (uss @ [concat (take n [[u]])])"
    using db_write_spec [OF assms(1) w] assms(2,3) by auto
  moreover have "n = 1"
    using calculation by simp
  ultimately show ?thesis
    using call by auto
qed

lemma ldb_updates_spec:
  assumes "db_inv db uss" "list_all update_ok us" "length (concat uss) + length us < 2 ^ 56"
  shows "\<exists>db' uss'. ldb_updates us db = Some db' \<and> db_inv db' uss' \<and> concat uss' = concat uss @ us"
  using assms
proof (induction us arbitrary: db uss)
  case (Cons u us)
  obtain db' where db': "ldb_update u db = Some (Ok (OK, 1, db'))" "db_inv db' (uss @ [[u]])"
    using ldb_update_spec [OF Cons.prems(1), of u] Cons.prems by auto
  show ?case
    using Cons.IH [OF db'(2)] Cons.prems db'(1) by (auto simp: is_ok_def)
qed auto

text \<open>
  C5. The store that the programs are verified with is what leveldb implements. Any sequence of \<open>Put\<close> and \<open>Delete\<close> calls
  on a new database succeeds, down to the log, the batch and the skip list of the memtable; a \<open>Get\<close> then returns the
  status, and leaves in \<open>value\<close> the bytes, that \<open>Get\<close> on the store of \<open>KV\<close> does after the same updates.
\<close>

theorem leveldb_refines_store:
  assumes "list_all update_ok us" "length us < 2 ^ 56"
  shows "\<exists>db. ldb_updates us db_new = Some db \<and> (\<forall>k old. length k + 8 < 2 ^ 32 \<longrightarrow>
    (\<exists>st v. impl_get None k db = Ok (st, v)
      \<and> db_get (fold store_update us db_empty) k old = (st, case v of None \<Rightarrow> old | Some v \<Rightarrow> v)))"
proof -
  obtain db uss where db: "ldb_updates us db_new = Some db" "db_inv db uss" "concat uss = us"
    using ldb_updates_spec [OF db_inv_new assms(1)] assms(2) by auto
  have "impl_get None k db = Ok (case contents us k of Some v \<Rightarrow> (OK, Some v) | None \<Rightarrow> (NotFound, None))"
    if "length k + 8 < 2 ^ 32" for k
    using db_inv_holds [OF db(2)] db(2,3) that by (intro db_get_last) (auto simp: db_inv_def)
  moreover have "db_get (fold store_update us db_empty) k old = (case contents us k of None \<Rightarrow> (NotFound, old) | Some v \<Rightarrow> (OK, v))" for k old
    using store_contents [of db_empty us] by (simp add: db_get_reliable contents_def)
  ultimately show ?thesis
    using db(1) by (auto split: option.splits)
qed

theorem leveldb_refines_store_witness:
  "\<exists>db. ldb_updates [Put [1] [7], Put [2] [8], Delete [1]] db_new = Some db
    \<and> impl_get None [1] db = Ok (NotFound, None) \<and> impl_get None [2] db = Ok (OK, Some [8])"
proof -
  let ?us = "[Put [1] [7], Put [2] [8], Delete [1]]"
  have store: "db_get (fold store_update ?us db_empty) [1] [9] = (NotFound, [9])" "db_get (fold store_update ?us db_empty) [2] [9] = (OK, [8])"
    "db_get (fold store_update ?us db_empty) [1] [] = (NotFound, [])" "db_get (fold store_update ?us db_empty) [2] [] = (OK, [8])"
    by (simp_all add: db_get_def db_put_def db_delete_def db_empty_def kv_delete_def)
  obtain db where "ldb_updates ?us db_new = Some db" and get: "\<And>k old. length k + 8 < 2 ^ 32 \<Longrightarrow> \<exists>st v. impl_get None k db = Ok (st, v)
      \<and> db_get (fold store_update ?us db_empty) k old = (st, case v of None \<Rightarrow> old | Some v \<Rightarrow> v)"
    using leveldb_refines_store [of ?us] by auto
  moreover have "impl_get None [1] db = Ok (NotFound, None)" "impl_get None [2] db = Ok (OK, Some [8])"
    using get [of "[1]" "[9]"] get [of "[2]" "[9]"] get [of "[1]" "[]"] get [of "[2]" "[]"] unfolding store
    by (auto split: option.splits)
  ultimately show ?thesis
    by blast
qed

end
